(* ===== verification/OS_Prelude.thy ===== *)
theory OS_Prelude
  imports Main "HOL-Library.Multiset" "HOL-Library.Word" "HOL-Library.Monad_Syntax"
begin

text \<open>
  What every component theory shares: the collections of simplification rules, generic facts
  on lists, on sorting by a relation and on regions of an address range, the pieces of the C
  standard library the programs call (\<open>qsort\<close>, the \<open>%02d\<close> conversion, \<open>scanf("%d")\<close>),
  and the types of a C program's outcome. Two interfaces are stated as locales here:
  \<open>qsort_comparator\<close> is what \<open>qsort\<close> needs of the comparison function it is given, and
  \<open>step_invariant\<close> is what lifts an invariant of one step to every reachable state.
\<close>

section \<open>Collections\<close>

named_theorems mem_defs \<open>definitions of the memory allocator\<close>
named_theorems mem_frame \<open>fields an operation of the memory allocator leaves alone\<close>
named_theorems page_defs \<open>definitions of the page replacement simulator\<close>
named_theorems dev_defs \<open>definitions of the character devices\<close>

section \<open>C integers\<close>

text \<open>A C \<open>int\<close> is a mathematical integer here; \<open>int32\<close> is the range in which
  its arithmetic is defined.\<close>

definition int32 :: "int \<Rightarrow> bool" where
  "int32 i \<longleftrightarrow> - 2147483648 \<le> i \<and> i \<le> 2147483647"

lemma int32_between: "int32 a \<Longrightarrow> int32 b \<Longrightarrow> a \<le> x \<Longrightarrow> x \<le> b \<Longrightarrow> int32 x"
  by (simp add: int32_def)

section \<open>The outcome of a call that may end the process\<close>

datatype 'a control = Continue 'a | Exit int 'a

section \<open>\<open>scanf("%d")\<close>\<close>

text \<open>Standard input is the list of the integers that can still be read. A token that is no
  integer stays in the input, so every later \<open>scanf\<close> fails on it as well: it ends the list.\<close>

fun scanf_int :: "int list \<Rightarrow> (int \<times> int list) option" where
  "scanf_int [] = None"
| "scanf_int (v # input) = Some (v, input)"

section \<open>The conversion \<open>%02d\<close>\<close>

fun digits :: "nat \<Rightarrow> string" where
  "digits n = (if n < 10 then [char_of (48 + n)] else digits (n div 10) @ [char_of (48 + n mod 10)])"

declare digits.simps [simp del]

definition fmt_02d :: "int \<Rightarrow> string" where
  "fmt_02d i =
     (if i < 0 then ''-'' @ digits (nat (- i))
      else if i < 10 then ''0'' @ digits (nat i) else digits (nat i))"

lemma length_digits: "n < 10 ^ k \<Longrightarrow> 0 < k \<Longrightarrow> length (digits n) \<le> k"
proof (induction n arbitrary: k rule: digits.induct)
  case (1 n)
  show ?case
  proof (cases "n < 10")
    case True
    then show ?thesis using "1.prems" by (subst digits.simps) simp
  next
    case False
    then obtain j where k: "k = Suc j" and j: "0 < j"
      using "1.prems" by (cases k; cases "k - 1") auto
    have "n div 10 < 10 ^ j" using "1.prems"(1) k by (simp add: less_mult_imp_div_less)
    with "1.IH" [OF False this j] False k show ?thesis by (subst digits.simps) simp
  qed
qed

lemma length_fmt_02d: "int32 i \<Longrightarrow> length (fmt_02d i) \<le> 11"
proof -
  assume "int32 i"
  then have "nat \<bar>i\<bar> < 10 ^ 10" by (simp add: int32_def nat_less_iff abs_if)
  then have "length (digits (nat \<bar>i\<bar>)) \<le> 10" by (rule length_digits) simp
  then show ?thesis by (auto simp: fmt_02d_def abs_if split: if_splits)
qed

section \<open>\<open>qsort\<close>\<close>

text \<open>\<open>qsort\<close> sorts an array by a comparison function with a negative, zero or positive
  result. The model is a stable insertion sort; the facts below it hold of every
  sort that permutes its input into ascending order.\<close>

fun qsort_insert :: "('a \<Rightarrow> 'a \<Rightarrow> int) \<Rightarrow> 'a \<Rightarrow> 'a list \<Rightarrow> 'a list" where
  "qsort_insert cmp x [] = [x]"
| "qsort_insert cmp x (y # ys) = (if cmp x y \<le> 0 then x # y # ys else y # qsort_insert cmp x ys)"

fun qsort :: "('a \<Rightarrow> 'a \<Rightarrow> int) \<Rightarrow> 'a list \<Rightarrow> 'a list" where
  "qsort cmp [] = []"
| "qsort cmp (x # xs) = qsort_insert cmp x (qsort cmp xs)"

lemma mset_qsort_insert [simp]: "mset (qsort_insert cmp x xs) = add_mset x (mset xs)"
  by (induction xs) auto

lemma qsort_insert_not_Nil [simp]: "qsort_insert cmp x xs \<noteq> []"
  by (cases xs) auto

lemma length_qsort_insert [simp]: "length (qsort_insert cmp x xs) = Suc (length xs)"
  by (induction xs) auto

lemma mset_qsort [simp]: "mset (qsort cmp xs) = mset xs"
  by (induction xs) auto

lemma set_qsort [simp]: "set (qsort cmp xs) = set xs"
  by (metis mset_qsort set_mset_mset)

lemma length_qsort [simp]: "length (qsort cmp xs) = length xs"
  by (metis mset_qsort size_mset)

lemma qsort_eq_Nil [simp]: "qsort cmp xs = [] \<longleftrightarrow> xs = []"
  by (metis length_0_conv length_qsort)

lemma sum_list_qsort [simp]:
  fixes f :: "'a \<Rightarrow> int"
  shows "sum_list (map f (qsort cmp xs)) = sum_list (map f xs)"
  by (metis mset_map mset_qsort sum_mset_sum_list)

text \<open>What \<open>qsort\<close> needs of the function it is given: the ordering it tells of is total
  and transitive.\<close>

locale qsort_comparator =
  fixes cmp :: "'a \<Rightarrow> 'a \<Rightarrow> int"
  assumes cmp_total: "cmp x y \<le> 0 \<or> cmp y x \<le> 0"
    and cmp_trans: "cmp x y \<le> 0 \<Longrightarrow> cmp y z \<le> 0 \<Longrightarrow> cmp x z \<le> 0"
begin

lemma sorted_qsort_insert:
  "sorted_wrt (\<lambda>x y. cmp x y \<le> 0) xs \<Longrightarrow> sorted_wrt (\<lambda>x y. cmp x y \<le> 0) (qsort_insert cmp x xs)"
proof (induction xs)
  case (Cons y ys)
  have set_eq: "set (qsort_insert cmp x ys) = insert x (set ys)"
    by (metis mset_qsort_insert set_mset_add_mset_insert set_mset_mset)
  from Cons show ?case
    using cmp_total [of x y] by (auto simp: set_eq intro: cmp_trans)
qed simp

lemma sorted_qsort: "sorted_wrt (\<lambda>x y. cmp x y \<le> 0) (qsort cmp xs)"
  by (induction xs) (simp_all add: sorted_qsort_insert)

lemma qsort_first_least: "qsort cmp xs = y # ys \<Longrightarrow> x \<in> set xs \<Longrightarrow> cmp y x \<le> 0"
  using sorted_qsort [of xs] cmp_total [of y y] set_qsort [of cmp xs] by auto

lemma qsort_sorted: "sorted_wrt (\<lambda>x y. cmp x y \<le> 0) xs \<Longrightarrow> qsort cmp xs = xs"
proof (induction xs)
  case (Cons x xs)
  then show ?case by (cases xs) auto
qed simp

end

section \<open>Reachable states\<close>

text \<open>An invariant that holds at the start and that every step keeps holds in every state
  the steps lead to. The components give their own steps.\<close>

locale step_invariant =
  fixes start :: "'s \<Rightarrow> bool" and step :: "'s \<Rightarrow> 's \<Rightarrow> bool" and inv :: "'s \<Rightarrow> bool"
  assumes inv_start: "start s \<Longrightarrow> inv s"
    and inv_step: "inv s \<Longrightarrow> step s t \<Longrightarrow> inv t"
begin

lemma inv_steps: "step\<^sup>*\<^sup>* s t \<Longrightarrow> inv s \<Longrightarrow> inv t"
  by (induction rule: rtranclp_induct) (auto intro: inv_step)

lemma inv_reachable: "start s \<Longrightarrow> step\<^sup>*\<^sup>* s t \<Longrightarrow> inv t"
  by (blast intro: inv_start inv_steps)

end

section \<open>Generic facts on lists\<close>

lemma sorted_wrt_mset_cong:
  assumes "\<And>x y. P x y \<Longrightarrow> P y x" and "mset xs = mset ys" and "sorted_wrt P xs"
  shows "sorted_wrt P ys"
  using assms(2,3)
proof (induction xs arbitrary: ys)
  case (Cons x xs)
  then have "x \<in> set ys" by (metis list.set_intros(1) set_mset_mset)
  then obtain us vs where ys: "ys = us @ x # vs" by (meson split_list)
  with Cons.prems(1) have "mset xs = mset (us @ vs)" by simp
  with Cons.IH Cons.prems(2) have "sorted_wrt P (us @ vs)" by simp
  moreover have "set xs = set us \<union> set vs"
    using \<open>mset xs = mset (us @ vs)\<close> by (metis set_append set_mset_mset)
  ultimately show ?case using Cons.prems(2) assms(1) ys
    by (auto simp: sorted_wrt_append)
qed simp

lemma sorted_wrt_sub:
  assumes "sorted_wrt P (xs @ ys @ zs)"
  shows "sorted_wrt P (xs @ zs)"
  using assms by (auto simp: sorted_wrt_append)

lemma delete_at_append: "i < length xs \<Longrightarrow> xs = take i xs @ xs ! i # drop (Suc i) xs"
  by (rule id_take_nth_drop)

lemma distinct_delete_at: "distinct xs \<Longrightarrow> distinct (take i xs @ drop (Suc i) xs)"
  by (simp add: set_take_disj_set_drop_if_distinct)

lemma sum_list_take_le:
  fixes f :: "'a \<Rightarrow> int"
  assumes "\<forall>x \<in> set xs. 0 < f x"
  shows "0 \<le> sum_list (map f (take k xs))" and "sum_list (map f (take k xs)) \<le> sum_list (map f xs)"
proof -
  have nonneg: "0 \<le> sum_list (map f ys)" if "set ys \<subseteq> set xs" for ys
    using assms that by (intro sum_list_nonneg) (auto simp: subset_iff intro: less_imp_le)
  show "0 \<le> sum_list (map f (take k xs))" by (rule nonneg) (rule set_take_subset)
  have "sum_list (map f xs) = sum_list (map f (take k xs)) + sum_list (map f (drop k xs))"
    by (metis append_take_drop_id map_append sum_list_append)
  then show "sum_list (map f (take k xs)) \<le> sum_list (map f xs)"
    using nonneg [OF set_drop_subset] by simp
qed

section \<open>Regions of an address range\<close>

text \<open>A region is a start address and a size.\<close>

type_synonym region = "int \<times> int"

definition apart :: "region \<Rightarrow> region \<Rightarrow> bool" where
  "apart r q \<longleftrightarrow> fst r + snd r \<le> fst q \<or> fst q + snd q \<le> fst r"

definition within :: "int \<Rightarrow> region \<Rightarrow> bool" where
  "within m r \<longleftrightarrow> 0 \<le> fst r \<and> 0 < snd r \<and> fst r + snd r \<le> m"

definition addrs :: "region \<Rightarrow> int set" where
  "addrs r = {fst r ..< fst r + snd r}"

lemma apart_sym: "apart r q \<Longrightarrow> apart q r"
  by (auto simp: apart_def)

lemma apart_addrs: "0 < snd r \<Longrightarrow> 0 < snd q \<Longrightarrow> apart r q \<longleftrightarrow> addrs r \<inter> addrs q = {}"
proof
  assume pos: "0 < snd r" "0 < snd q" and disj: "addrs r \<inter> addrs q = {}"
  show "apart r q"
  proof (rule ccontr)
    assume "\<not> apart r q"
    with pos have "max (fst r) (fst q) \<in> addrs r \<inter> addrs q"
      by (auto simp: apart_def addrs_def)
    with disj show False by simp
  qed
qed (auto simp: apart_def addrs_def)

lemma card_addrs: "0 < snd r \<Longrightarrow> int (card (addrs r)) = snd r"
  by (simp add: addrs_def)

lemma card_regions:
  assumes "sorted_wrt apart rs" and "\<forall>r \<in> set rs. 0 < snd r"
  shows "int (card (\<Union> (addrs ` set rs))) = sum_list (map snd rs)"
  using assms
proof (induction rs)
  case (Cons r rs)
  have "addrs r \<inter> \<Union> (addrs ` set rs) = {}"
    using Cons.prems by (auto simp: apart_addrs)
  moreover have "finite (\<Union> (addrs ` set rs))" "finite (addrs r)"
    by (auto simp: addrs_def)
  ultimately have "int (card (\<Union> (addrs ` set (r # rs)))) =
      int (card (addrs r)) + int (card (\<Union> (addrs ` set rs)))"
    by (simp add: card_Un_disjoint)
  with Cons show ?case by (simp add: card_addrs)
qed simp

text \<open>Regions that lie apart in a memory of \<open>m\<close> bytes have \<open>m\<close> bytes in all at most.\<close>

lemma sum_regions_le:
  assumes "sorted_wrt apart rs" and "\<forall>r \<in> set rs. within m r" and "0 \<le> m"
  shows "sum_list (map snd rs) \<le> m"
proof -
  have "\<Union> (addrs ` set rs) \<subseteq> {0 ..< m}"
    using assms(2) by (auto simp: within_def addrs_def)
  then have "card (\<Union> (addrs ` set rs)) \<le> card {0 ..< m}"
    by (intro card_mono) auto
  moreover have "int (card (\<Union> (addrs ` set rs))) = sum_list (map snd rs)"
    by (rule card_regions) (use assms in \<open>auto simp: within_def\<close>)
  ultimately show ?thesis using assms(3) by simp
qed

text \<open>A layout of a memory of \<open>m\<close> bytes: regions inside it, any two of them apart. Their order
  does not matter.\<close>

definition layout :: "int \<Rightarrow> region list \<Rightarrow> bool" where
  "layout m rs \<longleftrightarrow> (\<forall>r \<in> set rs. within m r) \<and> sorted_wrt apart rs"

lemma layout_mset: "mset rs = mset qs \<Longrightarrow> layout m rs \<Longrightarrow> layout m qs"
  unfolding layout_def
  by (metis apart_sym set_mset_mset sorted_wrt_mset_cong)

lemma layout_Nil [simp]: "layout m []"
  by (simp add: layout_def)

lemma layout_Cons: "layout m (r # rs) \<longleftrightarrow> within m r \<and> (\<forall>q \<in> set rs. apart r q) \<and> layout m rs"
  by (auto simp: layout_def)

lemma layout_append:
  "layout m (rs @ qs) \<longleftrightarrow> layout m rs \<and> layout m qs \<and> (\<forall>r \<in> set rs. \<forall>q \<in> set qs. apart r q)"
  by (auto simp: layout_def sorted_wrt_append)

lemma layout_within: "layout m rs \<Longrightarrow> r \<in> set rs \<Longrightarrow> within m r"
  by (simp add: layout_def)

lemma layout_sum: "layout m rs \<Longrightarrow> 0 \<le> m \<Longrightarrow> sum_list (map snd rs) \<le> m"
  by (auto simp: layout_def intro: sum_regions_le)

text \<open>A region may shrink, be cut in two or be joined to the one after it.\<close>

lemma layout_shrink:
  "layout m ((a, n) # rs) \<Longrightarrow> a \<le> b \<Longrightarrow> 0 < k \<Longrightarrow> b + k \<le> a + n \<Longrightarrow> layout m ((b, k) # rs)"
  by (auto simp: layout_Cons within_def apart_def)

lemma layout_cut:
  "layout m ((a, n) # rs) \<Longrightarrow> 0 < k \<Longrightarrow> k < n \<Longrightarrow> layout m ((a + k, n - k) # (a, k) # rs)"
  by (auto simp: layout_Cons within_def apart_def)

lemma layout_join:
  "layout m ((a, n) # (a + n, k) # rs) \<Longrightarrow> layout m ((a, n + k) # rs)"
proof -
  assume l: "layout m ((a, n) # (a + n, k) # rs)"
  have "apart (a, n + k) q" if q: "q \<in> set rs" for q
  proof -
    have "within m q" using l q by (simp add: layout_def)
    moreover have "apart (a, n) q" "apart (a + n, k) q" using l q by (simp_all add: layout_Cons)
    ultimately show ?thesis by (auto simp: within_def apart_def)
  qed
  with l show ?thesis by (simp add: layout_Cons within_def)
qed

text \<open>Regions laid end to end.\<close>

fun chain :: "int \<Rightarrow> int list \<Rightarrow> region list" where
  "chain a [] = []"
| "chain a (n # ns) = (a, n) # chain (a + n) ns"

lemma chain_low: "\<forall>n \<in> set ns. 0 < n \<Longrightarrow> r \<in> set (chain a ns) \<Longrightarrow> a \<le> fst r"
  by (induction ns arbitrary: a) fastforce+

lemma layout_chain:
  assumes "\<forall>n \<in> set ns. 0 < n" and "0 \<le> a" and "a + sum_list ns \<le> m"
  shows "layout m (chain a ns)"
  using assms
proof (induction ns arbitrary: a)
  case (Cons n ns)
  have "0 \<le> sum_list ns" using Cons.prems(1) by (intro sum_list_nonneg) auto
  moreover have "layout m (chain (a + n) ns)" using Cons by simp
  moreover have "apart (a, n) r" if "r \<in> set (chain (a + n) ns)" for r
    using chain_low [of ns r "a + n"] that Cons.prems(1) by (auto simp: apart_def)
  ultimately show ?case using Cons.prems by (auto simp: layout_Cons within_def)
qed simp

lemma chain_snoc: "chain a (ns @ [k]) = chain a ns @ [(a + sum_list ns, k)]"
  by (induction ns arbitrary: a) (simp_all add: add.assoc)

end
