(* ===== verification/Mem_Blocks.thy ===== *)
theory Mem_Blocks
  imports OS_Prelude
begin

text \<open>
  The dynamic partition allocator of \<^verbatim>\<open>src/2lab/3/3-1.c\<close>: its data and the operations on
  the list of free blocks.

  A linked list is a HOL list of its nodes in link order, so \<open>next\<close> is the position after
  and a pointer to a node is its position; \<open>NULL\<close> is the empty list, or no position. The
  globals of the program are the fields of \<open>mem_state\<close>. The field \<open>mallocs\<close> holds the
  outcomes of the coming calls of \<open>malloc\<close> (when it is used up they succeed), so every
  branch on a failed allocation is there. A function that dereferences \<open>NULL\<close>, or
  that recurses for ever, has the value \<open>None\<close>.
\<close>

section \<open>Data\<close>

definition PROCESS_NAME_LEN :: nat where "PROCESS_NAME_LEN = 32"
definition MIN_SLICE :: int where "MIN_SLICE = 10"
definition DEFAULT_MEM_SIZE :: int where "DEFAULT_MEM_SIZE = 1024"
definition DEFAULT_MEM_START :: int where "DEFAULT_MEM_START = 0"

definition MA_FF :: int where "MA_FF = 1"
definition MA_BF :: int where "MA_BF = 2"
definition MA_WF :: int where "MA_WF = 3"

declare MIN_SLICE_def [mem_defs] DEFAULT_MEM_START_def [mem_defs] DEFAULT_MEM_SIZE_def [mem_defs]
  MA_FF_def [mem_defs] MA_BF_def [mem_defs] MA_WF_def [mem_defs]

record free_block_type =
  fb_size :: int
  fb_start_addr :: int

record allocated_block =
  ab_pid :: int
  ab_size :: int
  ab_start_addr :: int
  process_name :: string

record mem_state =
  mem_size :: int
  ma_algorithm :: int
  last_pid :: int
  mem_flag :: int
  free_block :: "free_block_type list"
  free_block_len :: int
  allocated_blocks :: "allocated_block list"
  mallocs :: "bool list"

definition mem_start :: "bool list \<Rightarrow> mem_state" where
  "mem_start ms = \<lparr>mem_size = DEFAULT_MEM_SIZE, ma_algorithm = MA_FF, last_pid = 0, mem_flag = 0,
     free_block = [], free_block_len = 0, allocated_blocks = [], mallocs = ms\<rparr>"

definition malloc :: "mem_state \<Rightarrow> bool \<times> mem_state" where
  "malloc s = (case mallocs s of [] \<Rightarrow> (True, s) | ok # rest \<Rightarrow> (ok, s\<lparr>mallocs := rest\<rparr>))"

definition init_free_block :: "int \<Rightarrow> mem_state \<Rightarrow> free_block_type list \<times> mem_state" where
  "init_free_block msize s =
     (let s0 = s\<lparr>free_block_len := 1\<rparr>; (ok, s1) = malloc s0 in
      if \<not> ok then ([], s1)
      else ([\<lparr>fb_size = msize, fb_start_addr = DEFAULT_MEM_START\<rparr>], s1))"

section \<open>Comparison functions\<close>

definition cmpFF :: "free_block_type \<Rightarrow> free_block_type \<Rightarrow> int" where
  "cmpFF pa pb =
     (if fb_start_addr pa < fb_start_addr pb then -1
      else if fb_start_addr pa > fb_start_addr pb then 1 else 0)"

definition cmpBF :: "free_block_type \<Rightarrow> free_block_type \<Rightarrow> int" where
  "cmpBF pa pb =
     (if fb_size pa < fb_size pb then -1 else if fb_size pa > fb_size pb then 1 else 0)"

definition cmpWF :: "free_block_type \<Rightarrow> free_block_type \<Rightarrow> int" where
  "cmpWF pa pb =
     (if fb_size pa > fb_size pb then -1 else if fb_size pa < fb_size pb then 1 else 0)"

text \<open>The array \<open>compact_memory\<close> sorts holds pointers: here positions in the list of
  allocated blocks, which the comparison looks up.\<close>

definition cmp_alloc_by_addr :: "allocated_block list \<Rightarrow> nat \<Rightarrow> nat \<Rightarrow> int" where
  "cmp_alloc_by_addr blocks a b =
     (let pa = blocks ! a; pb = blocks ! b in
      if ab_start_addr pa < ab_start_addr pb then -1
      else if ab_start_addr pa > ab_start_addr pb then 1 else 0)"

section \<open>Rearranging the list of free blocks\<close>

text \<open>\<open>rearrange_by\<close> copies \<open>free_block_len\<close> nodes into an array, sorts it and builds a
  new list of nodes. It checks none of its allocations: a failed one is a write through
  \<open>NULL\<close>, and so is a list shorter than \<open>free_block_len\<close>.\<close>

fun copy_blocks :: "nat \<Rightarrow> free_block_type list \<Rightarrow> free_block_type list option" where
  "copy_blocks 0 q = Some []"
| "copy_blocks (Suc n) [] = None"
| "copy_blocks (Suc n) (b # q) = map_option ((#) b) (copy_blocks n q)"

fun build_blocks :: "free_block_type list \<Rightarrow> mem_state \<Rightarrow> (free_block_type list \<times> mem_state) option" where
  "build_blocks [] s = Some ([], s)"
| "build_blocks (b # tmp) s =
     (let (ok, s1) = malloc s in
      if \<not> ok then None
      else map_option (\<lambda>(nodes, s2). (b # nodes, s2)) (build_blocks tmp s1))"

definition rearrange_by ::
  "(free_block_type \<Rightarrow> free_block_type \<Rightarrow> int) \<Rightarrow> mem_state \<Rightarrow> mem_state option" where
  "rearrange_by comparator s =
     (let len = free_block_len s; (ok, s1) = malloc s in
      if \<not> ok \<and> 0 < len then None
      else do {
        tmp \<leftarrow> copy_blocks (nat len) (free_block s);
        (head, s2) \<leftarrow> build_blocks (qsort comparator tmp) s1;
        Some (s2\<lparr>free_block := head, free_block_len := len\<rparr>)
      })"

definition rearrange :: "int \<Rightarrow> mem_state \<Rightarrow> mem_state option" where
  "rearrange algorithm s =
     (if algorithm = MA_FF then rearrange_by cmpFF s
      else if algorithm = MA_BF then rearrange_by cmpBF s
      else if algorithm = MA_WF then rearrange_by cmpWF s
      else Some s)"

text \<open>In every call \<open>pre\<close> is the node before \<open>fbt\<close>, or \<open>NULL\<close> when \<open>fbt\<close> is the first, so
  the position of \<open>fbt\<close> stands for both; likewise \<open>nxt\<close> is the node after \<open>pre\<close>.\<close>

definition delete_free_block :: "nat \<Rightarrow> mem_state \<Rightarrow> mem_state" where
  "delete_free_block i s =
     s\<lparr>free_block_len := free_block_len s - 1,
       free_block := take i (free_block s) @ drop (Suc i) (free_block s)\<rparr>"

definition insert_free_block :: "nat \<Rightarrow> free_block_type \<Rightarrow> mem_state \<Rightarrow> mem_state" where
  "insert_free_block i fbt s =
     s\<lparr>free_block_len := free_block_len s + 1,
       free_block := take i (free_block s) @ fbt # drop i (free_block s)\<rparr>"

section \<open>The regions of a state\<close>

definition fb_region :: "free_block_type \<Rightarrow> region" where
  "fb_region b = (fb_start_addr b, fb_size b)"

definition ab_region :: "allocated_block \<Rightarrow> region" where
  "ab_region a = (ab_start_addr a, ab_size a)"

lemma fst_fb_region [simp]: "fst (fb_region b) = fb_start_addr b"
  and snd_fb_region [simp]: "snd (fb_region b) = fb_size b"
  and fst_ab_region [simp]: "fst (ab_region a) = ab_start_addr a"
  and snd_ab_region [simp]: "snd (ab_region a) = ab_size a"
  by (simp_all add: fb_region_def ab_region_def)

section \<open>The comparison functions are fit for \<open>qsort\<close>\<close>

interpretation ff: qsort_comparator cmpFF
  by unfold_locales (auto simp: cmpFF_def split: if_splits)

interpretation bf: qsort_comparator cmpBF
  by unfold_locales (auto simp: cmpBF_def split: if_splits)

interpretation wf: qsort_comparator cmpWF
  by unfold_locales (auto simp: cmpWF_def split: if_splits)

interpretation by_addr: qsort_comparator "cmp_alloc_by_addr blocks"
  by unfold_locales (auto simp: cmp_alloc_by_addr_def Let_def split: if_splits)

lemma cmpFF_le [simp]: "cmpFF a b \<le> 0 \<longleftrightarrow> fb_start_addr a \<le> fb_start_addr b"
  and cmpBF_le [simp]: "cmpBF a b \<le> 0 \<longleftrightarrow> fb_size a \<le> fb_size b"
  and cmpWF_le [simp]: "cmpWF a b \<le> 0 \<longleftrightarrow> fb_size b \<le> fb_size a"
  by (auto simp: cmpFF_def cmpBF_def cmpWF_def)

lemma cmp_alloc_by_addr_le [simp]:
  "cmp_alloc_by_addr blocks a b \<le> 0 \<longleftrightarrow> ab_start_addr (blocks ! a) \<le> ab_start_addr (blocks ! b)"
  by (auto simp: cmp_alloc_by_addr_def Let_def)

section \<open>What rearranging does\<close>

lemma mallocs_id [simp]: "s\<lparr>mallocs := mallocs s\<rparr> = s"
  by simp

lemma mallocs_self [simp]: "\<exists>ms. s = s\<lparr>mallocs := ms\<rparr>"
  by (rule exI [of _ "mallocs s"]) simp

lemma malloc_snd: "malloc s = (ok, s') \<Longrightarrow> \<exists>ms. s' = s\<lparr>mallocs := ms\<rparr> \<and> (mallocs s = [] \<longrightarrow> ms = [] \<and> ok)"
  by (cases "mallocs s") (auto simp: malloc_def)

lemma malloc_free [simp]: "mallocs s = [] \<Longrightarrow> malloc s = (True, s)"
  by (simp add: malloc_def)

lemma copy_blocks_all: "copy_blocks (length q) q = Some q"
  by (induction q) simp_all

lemma build_blocks_Some:
  "build_blocks tmp s = Some (nodes, s') \<Longrightarrow> nodes = tmp \<and> (\<exists>ms. s' = s\<lparr>mallocs := ms\<rparr>)"
proof (induction tmp arbitrary: s nodes)
  case (Cons b tmp)
  obtain ok s1 where m: "malloc s = (ok, s1)" by (cases "malloc s")
  with malloc_snd obtain ms where "s1 = s\<lparr>mallocs := ms\<rparr>" by blast
  with Cons m show ?case by (fastforce split: if_splits)
qed auto

lemma build_blocks_enough: "mallocs s = [] \<Longrightarrow> build_blocks tmp s = Some (tmp, s)"
  by (induction tmp) simp_all

lemma rearrange_by_Some:
  assumes "rearrange_by cmp s = Some s'" and "free_block_len s = int (length (free_block s))"
  shows "\<exists>ms. s' = s\<lparr>free_block := qsort cmp (free_block s), mallocs := ms\<rparr>"
proof -
  obtain ok s1 where m: "malloc s = (ok, s1)" by (cases "malloc s")
  with malloc_snd obtain ms where s1: "s1 = s\<lparr>mallocs := ms\<rparr>" by blast
  from assms m obtain nodes s2 where
    b: "build_blocks (qsort cmp (free_block s)) s1 = Some (nodes, s2)"
    and s': "s' = s2\<lparr>free_block := nodes, free_block_len := free_block_len s\<rparr>"
    by (auto simp: rearrange_by_def Let_def copy_blocks_all bind_eq_Some_conv split: if_splits)
  from build_blocks_Some [OF b] obtain ms' where
    "nodes = qsort cmp (free_block s)" "s2 = s1\<lparr>mallocs := ms'\<rparr>" by blast
  with s' s1 show ?thesis by (auto intro: exI [of _ ms'])
qed

lemma rearrange_by_enough:
  assumes "mallocs s = []" and "free_block_len s = int (length (free_block s))"
  shows "rearrange_by cmp s = Some (s\<lparr>free_block := qsort cmp (free_block s)\<rparr>)"
  using assms by (simp add: rearrange_by_def copy_blocks_all build_blocks_enough)

end
