(* ===== verification/Mem_Alloc.thy ===== *)
theory Mem_Alloc
  imports Mem_Blocks
begin

text \<open>
  Allocation, release and compaction in the partition allocator of
  \<^verbatim>\<open>src/2lab/3/3-1.c\<close> (\<open>allocate_mem\<close>, \<open>free_mem\<close>, \<open>compact_memory\<close>), and its invariant.
\<close>

section \<open>Compaction\<close>

text \<open>The loop over the sorted array of pointers writes the new start address through each
  of them; the list of allocated blocks keeps its order.\<close>

fun relocate :: "nat list \<Rightarrow> allocated_block list \<Rightarrow> int \<Rightarrow> allocated_block list \<times> int" where
  "relocate [] blocks next_start = (blocks, next_start)"
| "relocate (i # arr) blocks next_start =
     relocate arr (blocks[i := (blocks ! i)\<lparr>ab_start_addr := next_start\<rparr>])
       (next_start + ab_size (blocks ! i))"

definition compact_memory :: "mem_state \<Rightarrow> int \<times> mem_state" where
  "compact_memory s =
     (let n = length (allocated_blocks s) in
      if n = 0 then (1, s)
      else let (ok, s1) = malloc s in
      if \<not> ok then (-1, s1)
      else let arr = qsort (cmp_alloc_by_addr (allocated_blocks s)) [0..<n];
               (blocks, next_start) = relocate arr (allocated_blocks s) DEFAULT_MEM_START;
               s2 = s1\<lparr>allocated_blocks := blocks, free_block := [], free_block_len := 0\<rparr> in
      if next_start < mem_size s2 then
        let (ok2, s3) = malloc s2 in
        if \<not> ok2 then (-1, s3\<lparr>free_block := [], free_block_len := 0\<rparr>)
        else (1, s3\<lparr>free_block := [\<lparr>fb_size = mem_size s3 - next_start, fb_start_addr = next_start\<rparr>],
                    free_block_len := 1\<rparr>)
      else (1, s2\<lparr>free_block := [], free_block_len := 0\<rparr>))"

section \<open>Allocation\<close>

text \<open>The search loop: the first block that is large enough, with its position.\<close>

fun find_fit :: "int \<Rightarrow> nat \<Rightarrow> free_block_type list \<Rightarrow> (nat \<times> free_block_type) option" where
  "find_fit request_size i [] = None"
| "find_fit request_size i (fbt # rest) =
     (if fb_size fbt \<ge> request_size then Some (i, fbt) else find_fit request_size (Suc i) rest)"

text \<open>The body of the loop's \<open>if\<close>.\<close>

definition take_block ::
  "allocated_block \<Rightarrow> nat \<Rightarrow> free_block_type \<Rightarrow> mem_state \<Rightarrow> (int \<times> allocated_block \<times> mem_state) option" where
  "take_block ab i fbt s =
     (let freesize = fb_size fbt; request_size = ab_size ab;
          ab' = ab\<lparr>ab_start_addr := fb_start_addr fbt\<rparr> in
      if freesize - request_size \<le> MIN_SLICE then Some (1, ab', delete_free_block i s)
      else
        let s1 = s\<lparr>free_block := (free_block s)[i :=
                     fbt\<lparr>fb_size := freesize - request_size,
                         fb_start_addr := fb_start_addr fbt + request_size\<rparr>]\<rparr> in
        if ma_algorithm s = MA_BF then do { s2 \<leftarrow> rearrange_by cmpBF s1; Some (1, ab', s2) }
        else if ma_algorithm s = MA_WF then do { s2 \<leftarrow> rearrange_by cmpWF s1; Some (1, ab', s2) }
        else Some (1, ab', s1))"

fun total_free :: "free_block_type list \<Rightarrow> int" where
  "total_free [] = 0"
| "total_free (fbt # rest) = fb_size fbt + total_free rest"

text \<open>The result of the recursive call is thrown away, as in the code.\<close>

partial_function (option) allocate_mem ::
  "allocated_block \<Rightarrow> mem_state \<Rightarrow> (int \<times> allocated_block \<times> mem_state) option" where
  "allocate_mem ab s =
     (case find_fit (ab_size ab) 0 (free_block s) of
        Some (i, fbt) \<Rightarrow> take_block ab i fbt s
      | None \<Rightarrow>
          if total_free (free_block s) \<ge> ab_size ab then
            (case compact_memory s of (r, s1) \<Rightarrow>
               if r \<noteq> 1 then Some (-1, ab, s1)
               else Option.bind (allocate_mem ab s1) (\<lambda>(_, ab', s2). Some (-1, ab', s2)))
          else Some (-1, ab, s))"

declare allocate_mem.simps [code]

section \<open>Release\<close>

text \<open>The loop that merges neighbours, from the node \<open>pre\<close> on. A merge deletes the node
  after \<open>pre\<close> and looks at \<open>pre\<close> again.\<close>

fun merge_free :: "free_block_type \<Rightarrow> free_block_type list \<Rightarrow> int \<Rightarrow> free_block_type list \<times> int" where
  "merge_free pre [] len = ([pre], len)"
| "merge_free pre (fbt # rest) len =
     (if fb_start_addr pre + fb_size pre = fb_start_addr fbt
      then merge_free (pre\<lparr>fb_size := fb_size pre + fb_size fbt\<rparr>) rest (len - 1)
      else let (nodes, len') = merge_free fbt rest len in (pre # nodes, len'))"

definition merge_list :: "mem_state \<Rightarrow> mem_state" where
  "merge_list s =
     (case free_block s of
        [] \<Rightarrow> s
      | fbt # rest \<Rightarrow>
          let (nodes, len) = merge_free fbt rest (free_block_len s) in
          s\<lparr>free_block := nodes, free_block_len := len\<rparr>)"

definition free_mem :: "allocated_block \<Rightarrow> mem_state \<Rightarrow> (int \<times> mem_state) option" where
  "free_mem ab s =
     (let algorithm = ma_algorithm s; (ok, s1) = malloc s in
      if \<not> ok then Some (-1, s1)
      else do {
        s2 \<leftarrow> rearrange_by cmpFF
               (insert_free_block 0 \<lparr>fb_size = ab_size ab, fb_start_addr = ab_start_addr ab\<rparr> s1);
        let s3 = merge_list s2;
        s4 \<leftarrow> (if algorithm = 2 then rearrange_by cmpBF s3
               else if algorithm = 3 then rearrange_by cmpWF s3 else Some s3);
        Some (1, s4)
      })"

section \<open>The invariant\<close>

definition mem_regions :: "mem_state \<Rightarrow> region list" where
  "mem_regions s = map fb_region (free_block s) @ map ab_region (allocated_blocks s)"

text \<open>The comparison by which the algorithm in force keeps the free list sorted.\<close>

definition policy_cmp :: "int \<Rightarrow> free_block_type \<Rightarrow> free_block_type \<Rightarrow> int" where
  "policy_cmp algorithm =
     (if algorithm = MA_BF then cmpBF else if algorithm = MA_WF then cmpWF else cmpFF)"

definition free_ordered :: "mem_state \<Rightarrow> bool" where
  "free_ordered s \<longleftrightarrow> sorted_wrt (\<lambda>a b. policy_cmp (ma_algorithm s) a b \<le> 0) (free_block s)"

text \<open>No free block ends where another one starts.\<close>

definition coalesced :: "free_block_type list \<Rightarrow> bool" where
  "coalesced fs \<longleftrightarrow>
     (\<forall>a \<in> set fs. \<forall>b \<in> set fs. fb_start_addr a + fb_size a \<noteq> fb_start_addr b)"

definition mem_inv :: "mem_state \<Rightarrow> bool" where
  "mem_inv s \<longleftrightarrow>
     free_block_len s = int (length (free_block s)) \<and>
     0 < mem_size s \<and> ma_algorithm s \<in> {MA_FF, MA_BF, MA_WF} \<and>
     layout (mem_size s) (mem_regions s) \<and>
     free_ordered s \<and> coalesced (free_block s)"

text \<open>The addresses the free list offers.\<close>

definition free_addrs :: "mem_state \<Rightarrow> int set" where
  "free_addrs s = \<Union> (addrs ` fb_region ` set (free_block s))"

section \<open>The search loop\<close>

lemma find_fit_Some:
  "find_fit n k fs = Some (i, b) \<Longrightarrow>
     \<exists>j < length fs. i = k + j \<and> fs ! j = b \<and> n \<le> fb_size b \<and> (\<forall>l < j. fb_size (fs ! l) < n)"
proof (induction fs arbitrary: k)
  case (Cons f fs)
  show ?case
  proof (cases "n \<le> fb_size f")
    case True
    with Cons.prems show ?thesis by auto
  next
    case False
    with Cons.prems have "find_fit n (Suc k) fs = Some (i, b)" by simp
    from Cons.IH [OF this] obtain j where j: "j < length fs" "i = Suc k + j" "fs ! j = b"
      "n \<le> fb_size b" "\<forall>l < j. fb_size (fs ! l) < n" by blast
    with False show ?thesis
      by (intro exI [of _ "Suc j"]) (auto simp: nth_Cons split: nat.splits)
  qed
qed simp

lemma find_fit_None: "find_fit n k fs = None \<longleftrightarrow> (\<forall>b \<in> set fs. fb_size b < n)"
  by (induction fs arbitrary: k) auto

lemma total_free_sum: "total_free fs = sum_list (map fb_size fs)"
  by (induction fs) simp_all

section \<open>Sorting the free list keeps the invariant\<close>

lemma policy_sorted: "sorted_wrt (\<lambda>a b. policy_cmp alg a b \<le> 0) (qsort (policy_cmp alg) fs)"
  unfolding policy_cmp_def
  using ff.sorted_qsort [of fs] bf.sorted_qsort [of fs] wf.sorted_qsort [of fs]
  by (cases "alg = MA_BF"; cases "alg = MA_WF") simp_all

lemma layout_qsort [simp]:
  "layout m (map f (qsort cmp fs) @ rs) \<longleftrightarrow> layout m (map f fs @ rs)"
  by (rule iffI; erule layout_mset [rotated]) (simp_all add: mset_map)

lemma coalesced_qsort [simp]: "coalesced (qsort cmp fs) = coalesced fs"
  by (simp add: coalesced_def)

lemma mem_inv_mallocs [simp]: "mem_inv (s\<lparr>mallocs := ms\<rparr>) = mem_inv s"
  by (simp add: mem_inv_def mem_regions_def free_ordered_def)

text \<open>The free list after an operation: what must hold before it is sorted by the policy.\<close>

definition mem_presorted :: "mem_state \<Rightarrow> bool" where
  "mem_presorted s \<longleftrightarrow>
     free_block_len s = int (length (free_block s)) \<and>
     0 < mem_size s \<and> ma_algorithm s \<in> {MA_FF, MA_BF, MA_WF} \<and>
     layout (mem_size s) (mem_regions s) \<and> coalesced (free_block s)"

lemma mem_inv_presorted: "mem_inv s \<longleftrightarrow> mem_presorted s \<and> free_ordered s"
  by (auto simp: mem_inv_def mem_presorted_def)

lemma mem_inv_sorted:
  assumes "mem_presorted s"
  shows "mem_inv (s\<lparr>free_block := qsort (policy_cmp (ma_algorithm s)) (free_block s)\<rparr>)"
  using assms policy_sorted
  by (simp add: mem_inv_def mem_presorted_def mem_regions_def free_ordered_def)

lemma rearrange_policy:
  assumes "rearrange_by (policy_cmp (ma_algorithm s)) s = Some s'" and "mem_presorted s"
  shows "mem_inv s'"
proof -
  from assms(2) have "free_block_len s = int (length (free_block s))"
    by (simp add: mem_presorted_def)
  from rearrange_by_Some [OF assms(1) this] obtain ms where
    "s' = s\<lparr>free_block := qsort (policy_cmp (ma_algorithm s)) (free_block s), mallocs := ms\<rparr>" ..
  with mem_inv_sorted [OF assms(2)] show ?thesis
    using mem_inv_mallocs by (metis (no_types, lifting) mem_inv_mallocs)
qed

section \<open>Taking a block\<close>

text \<open>What is left of the free list at position \<open>i\<close> and the new block fill the place of
  the free block taken.\<close>

lemma mset_take_drop: "i < length xs \<Longrightarrow> mset xs = add_mset (xs ! i) (mset (take i xs @ drop (Suc i) xs))"
  by (subst (1) id_take_nth_drop [of i xs]) simp_all

lemma layout_at:
  assumes "i < length fs"
  shows "layout m (map fb_region fs @ rs) \<longleftrightarrow>
    layout m (fb_region (fs ! i) # map fb_region (take i fs @ drop (Suc i) fs) @ rs)"
proof -
  have "mset (map fb_region fs @ rs) =
      mset (fb_region (fs ! i) # map fb_region (take i fs @ drop (Suc i) fs) @ rs)"
    using mset_take_drop [OF assms] by (simp add: mset_map)
  then show ?thesis by (metis layout_mset)
qed

lemma take_drop_update:
  "i < length xs \<Longrightarrow> take i (xs[i := v]) @ drop (Suc i) (xs[i := v]) = take i xs @ drop (Suc i) xs"
  by simp

lemma layout_take_whole:
  assumes "layout m (map fb_region fs @ rs)" and "i < length fs"
    and "0 < n" and "n \<le> fb_size (fs ! i)"
  shows "layout m (map fb_region (take i fs @ drop (Suc i) fs) @ (fb_start_addr (fs ! i), n) # rs)"
proof -
  have "layout m ((fb_start_addr (fs ! i), n) # map fb_region (take i fs @ drop (Suc i) fs) @ rs)"
    by (rule layout_shrink [OF assms(1) [unfolded layout_at [OF assms(2)] fb_region_def [of "fs ! i"]]])
      (use assms in simp_all)
  then show ?thesis by (rule layout_mset [rotated]) simp
qed

lemma layout_take_part:
  assumes "layout m (map fb_region fs @ rs)" and "i < length fs"
    and "0 < n" and "n < fb_size (fs ! i)"
  shows "layout m (map fb_region (fs[i := (fs ! i)\<lparr>fb_size := fb_size (fs ! i) - n,
      fb_start_addr := fb_start_addr (fs ! i) + n\<rparr>]) @ (fb_start_addr (fs ! i), n) # rs)"
proof -
  let ?b = "fs ! i"
  have "layout m ((fb_start_addr ?b + n, fb_size ?b - n) # (fb_start_addr ?b, n) #
      map fb_region (take i fs @ drop (Suc i) fs) @ rs)"
    by (rule layout_cut [OF assms(1) [unfolded layout_at [OF assms(2)] fb_region_def [of ?b]]])
      (use assms in simp_all)
  then show ?thesis
    using assms(2)
    by (subst layout_at [of i]) (auto simp: fb_region_def intro: layout_mset [rotated])
qed

lemma layout_nth:
  assumes "layout m (map fb_region fs @ rs)" and "j < length fs" and "k < length fs" and "j \<noteq> k"
  shows "apart (fb_region (fs ! j)) (fb_region (fs ! k))"
proof -
  have "sorted_wrt apart (map fb_region fs)"
    using assms(1) by (simp add: layout_def sorted_wrt_append)
  then have "\<forall>i j. i < j \<longrightarrow> j < length fs \<longrightarrow> apart (fb_region (fs ! i)) (fb_region (fs ! j))"
    by (simp add: sorted_wrt_iff_nth_less)
  with assms show ?thesis by (metis apart_sym linorder_neqE_nat)
qed

lemma layout_size:
  "layout m (map fb_region fs @ rs) \<Longrightarrow> b \<in> set fs \<Longrightarrow> within m (fb_region b)"
  by (auto simp: layout_append layout_def)

lemma shrink_ordered_FF:
  assumes l: "layout m (map fb_region fs @ rs)" and i: "i < length fs"
    and n: "0 < n" "n < fb_size (fs ! i)"
    and ord: "sorted_wrt (\<lambda>a b. fb_start_addr a \<le> fb_start_addr b) fs"
  shows "sorted_wrt (\<lambda>a b. fb_start_addr a \<le> fb_start_addr b)
    (fs[i := (fs ! i)\<lparr>fb_size := fb_size (fs ! i) - n, fb_start_addr := fb_start_addr (fs ! i) + n\<rparr>])"
  unfolding sorted_wrt_iff_nth_less
proof (intro allI impI)
  fix j k assume jk: "j < k" "k < length (fs[i := (fs ! i)\<lparr>fb_size := fb_size (fs ! i) - n,
    fb_start_addr := fb_start_addr (fs ! i) + n\<rparr>])"
  have le: "fb_start_addr (fs ! j) \<le> fb_start_addr (fs ! k)"
    using ord jk by (simp add: sorted_wrt_iff_nth_less)
  have "apart (fb_region (fs ! j)) (fb_region (fs ! k))"
    by (rule layout_nth [OF l]) (use jk in auto)
  moreover have "0 < fb_size (fs ! k)"
    using layout_size [OF l, of "fs ! k"] jk by (simp add: within_def)
  ultimately have "fb_start_addr (fs ! j) + fb_size (fs ! j) \<le> fb_start_addr (fs ! k)"
    using le by (auto simp: apart_def)
  with le n jk i show "fb_start_addr (fs[i := (fs ! i)\<lparr>fb_size := fb_size (fs ! i) - n,
      fb_start_addr := fb_start_addr (fs ! i) + n\<rparr>] ! j)
    \<le> fb_start_addr (fs[i := (fs ! i)\<lparr>fb_size := fb_size (fs ! i) - n,
      fb_start_addr := fb_start_addr (fs ! i) + n\<rparr>] ! k)"
    by (auto simp: nth_list_update)
qed

lemma shrink_coalesced:
  assumes l: "layout m (map fb_region fs @ rs)" and i: "i < length fs"
    and n: "0 < n" "n < fb_size (fs ! i)" and c: "coalesced fs"
  shows "coalesced (fs[i := (fs ! i)\<lparr>fb_size := fb_size (fs ! i) - n,
    fb_start_addr := fb_start_addr (fs ! i) + n\<rparr>])"
  unfolding coalesced_def
proof (intro ballI)
  let ?f' = "fs[i := (fs ! i)\<lparr>fb_size := fb_size (fs ! i) - n, fb_start_addr := fb_start_addr (fs ! i) + n\<rparr>]"
  fix a b assume "a \<in> set ?f'" "b \<in> set ?f'"
  then obtain j k where jk: "j < length fs" "k < length fs" "a = ?f' ! j" "b = ?f' ! k"
    by (auto simp: in_set_conv_nth)
  have ne: "fb_start_addr (fs ! j) + fb_size (fs ! j) \<noteq> fb_start_addr (fs ! k)"
    using c jk by (auto simp: coalesced_def)
  show "fb_start_addr a + fb_size a \<noteq> fb_start_addr b"
  proof (cases "j = k")
    case True
    with jk ne n i show ?thesis by (auto simp: nth_list_update)
  next
    case False
    then have "apart (fb_region (fs ! j)) (fb_region (fs ! k))" by (intro layout_nth [OF l] jk)
    moreover have "0 < fb_size (fs ! j)" "0 < fb_size (fs ! k)"
      using layout_size [OF l] jk by (auto simp: within_def)
    ultimately show ?thesis using jk ne n i by (auto simp: nth_list_update apart_def)
  qed
qed

text \<open>The branch that keeps the rest of the block, with its sorting for best and worst fit.\<close>

definition cut_list :: "allocated_block \<Rightarrow> nat \<Rightarrow> free_block_type \<Rightarrow> mem_state \<Rightarrow> free_block_type list" where
  "cut_list ab i b s = (free_block s)[i := b\<lparr>fb_size := fb_size b - ab_size ab,
     fb_start_addr := fb_start_addr b + ab_size ab\<rparr>]"

lemma take_block_part:
  assumes "free_block_len s = int (length (free_block s))"
    and "\<not> fb_size b - ab_size ab \<le> MIN_SLICE" and "take_block ab i b s = Some (r, ab', s')"
  shows "r = 1 \<and> ab' = ab\<lparr>ab_start_addr := fb_start_addr b\<rparr> \<and>
    (\<exists>ms. s' = s\<lparr>free_block :=
       (if ma_algorithm s \<in> {MA_BF, MA_WF} then qsort (policy_cmp (ma_algorithm s)) (cut_list ab i b s)
        else cut_list ab i b s), mallocs := ms\<rparr>)"
proof -
  have len: "free_block_len (s\<lparr>free_block := cut_list ab i b s\<rparr>) =
      int (length (free_block (s\<lparr>free_block := cut_list ab i b s\<rparr>)))"
    using assms(1) by (simp add: cut_list_def)
  have ne: "MA_BF \<noteq> MA_WF" by (simp add: MA_BF_def MA_WF_def)
  have self: "\<exists>ms. t = t\<lparr>mallocs := ms\<rparr>" for t :: mem_state by simp
  from assms(2,3) show ?thesis
    using rearrange_by_Some [OF _ len] ne self
    by (auto simp: take_block_def Let_def policy_cmp_def bind_eq_Some_conv simp flip: cut_list_def
      split: if_splits)
qed

lemma cut_list_presorted:
  assumes inv: "mem_inv s" and i: "i < length (free_block s)" and b: "free_block s ! i = b"
    and n: "0 < ab_size ab" "ab_size ab < fb_size b"
  shows "mem_presorted (s\<lparr>free_block := cut_list ab i b s,
    allocated_blocks := ab\<lparr>ab_start_addr := fb_start_addr b\<rparr> # allocated_blocks s\<rparr>)"
proof -
  have lay: "layout (mem_size s) (map fb_region (free_block s) @ map ab_region (allocated_blocks s))"
    using inv by (simp add: mem_inv_def mem_regions_def)
  show ?thesis
    using layout_take_part [OF lay i n(1)] shrink_coalesced [OF lay i n(1)] n inv b
    by (simp add: mem_presorted_def mem_inv_def mem_regions_def cut_list_def ab_region_def)
qed

text \<open>The whole result of a successful search: the request sits at the start of the free
  block found, the invariant holds with the new block in the list of allocated blocks,
  and of the other blocks none has moved.\<close>

lemma take_block_inv:
  assumes inv: "mem_inv s" and i: "i < length (free_block s)" and b: "free_block s ! i = b"
    and n: "0 < ab_size ab" "ab_size ab \<le> fb_size b"
    and tb: "take_block ab i b s = Some (r, ab', s')"
  shows "r = 1 \<and> ab' = ab\<lparr>ab_start_addr := fb_start_addr b\<rparr> \<and>
    (\<exists>fs len ms. s' = s\<lparr>free_block := fs, free_block_len := len, mallocs := ms\<rparr>) \<and>
    mem_inv (s'\<lparr>allocated_blocks := ab' # allocated_blocks s'\<rparr>)"
proof (cases "fb_size b - ab_size ab \<le> MIN_SLICE")
  case True
  with tb have eq: "r = 1" "ab' = ab\<lparr>ab_start_addr := fb_start_addr b\<rparr>" "s' = delete_free_block i s"
    by (simp_all add: take_block_def)
  have "layout (mem_size s) (map fb_region (take i (free_block s) @ drop (Suc i) (free_block s)) @
      (fb_start_addr b, ab_size ab) # map ab_region (allocated_blocks s))"
    using layout_take_whole [of "mem_size s" "free_block s" _ i "ab_size ab"] inv i b n
    by (simp add: mem_inv_def mem_regions_def)
  moreover have "coalesced (take i (free_block s) @ drop (Suc i) (free_block s))"
    using inv by (auto simp: mem_inv_def coalesced_def dest: in_set_takeD in_set_dropD)
  moreover have "free_ordered (delete_free_block i s)"
    using inv sorted_wrt_sub [of _ "take i (free_block s)" "[free_block s ! i]" "drop (Suc i) (free_block s)"] i
    by (simp add: mem_inv_def free_ordered_def delete_free_block_def Cons_nth_drop_Suc)
  moreover have "\<exists>fs len ms. delete_free_block i s = s\<lparr>free_block := fs, free_block_len := len, mallocs := ms\<rparr>"
    by (rule exI [of _ "free_block (delete_free_block i s)"], rule exI [of _ "free_block_len s - 1"],
      rule exI [of _ "mallocs s"]) (simp add: delete_free_block_def)
  ultimately show ?thesis using inv i eq
    by (simp add: mem_inv_def mem_regions_def delete_free_block_def free_ordered_def ab_region_def)
next
  case False
  let ?cut = "s\<lparr>free_block := cut_list ab i b s,
    allocated_blocks := ab\<lparr>ab_start_addr := fb_start_addr b\<rparr> # allocated_blocks s\<rparr>"
  have lt: "ab_size ab < fb_size b" using False n by (simp add: MIN_SLICE_def)
  have pre: "mem_presorted ?cut" by (rule cut_list_presorted [OF inv i b n(1) lt])
  from take_block_part [OF _ False tb] inv obtain ms where
    res: "r = 1" "ab' = ab\<lparr>ab_start_addr := fb_start_addr b\<rparr>"
    and s': "s' = s\<lparr>free_block :=
       (if ma_algorithm s \<in> {MA_BF, MA_WF} then qsort (policy_cmp (ma_algorithm s)) (cut_list ab i b s)
        else cut_list ab i b s), mallocs := ms\<rparr>"
    by (auto simp: mem_inv_def)
  have "mem_inv (s'\<lparr>allocated_blocks := ab' # allocated_blocks s', mallocs := mallocs s\<rparr>)"
  proof (cases "ma_algorithm s \<in> {MA_BF, MA_WF}")
    case True
    then have "s'\<lparr>allocated_blocks := ab' # allocated_blocks s', mallocs := mallocs s\<rparr> =
        ?cut\<lparr>free_block := qsort (policy_cmp (ma_algorithm ?cut)) (free_block ?cut)\<rparr>"
      using s' res by simp
    then show ?thesis using mem_inv_sorted [OF pre] by simp
  next
    case F: False
    have "free_ordered ?cut"
      using inv F shrink_ordered_FF [OF _ i n(1), of "mem_size s" "map ab_region (allocated_blocks s)"] lt b
      by (simp add: mem_inv_def free_ordered_def cut_list_def mem_regions_def policy_cmp_def)
    moreover have "s'\<lparr>allocated_blocks := ab' # allocated_blocks s', mallocs := mallocs s\<rparr> = ?cut"
      using F s' res by simp
    ultimately show ?thesis using pre by (simp add: mem_inv_presorted)
  qed
  then have "mem_inv (s'\<lparr>allocated_blocks := ab' # allocated_blocks s'\<rparr>)"
    by simp
  moreover have "\<exists>fs len ms. s' = s\<lparr>free_block := fs, free_block_len := len, mallocs := ms\<rparr>"
    unfolding s' by (intro exI [of _ ms] exI [of _ "free_block_len s"] exI) auto
  ultimately show ?thesis using res by blast
qed

section \<open>Compaction lays the blocks end to end\<close>

lemma relocate_spec:
  assumes "distinct arr" and "set arr \<subseteq> {..<length blocks}"
    and "relocate arr blocks a = (blocks', e)"
  shows "length blocks' = length blocks \<and> e = a + sum_list (map (\<lambda>i. ab_size (blocks ! i)) arr) \<and>
    (\<forall>i. i \<notin> set arr \<longrightarrow> blocks' ! i = blocks ! i) \<and>
    (\<forall>i < length blocks. blocks' ! i = (blocks ! i)\<lparr>ab_start_addr := ab_start_addr (blocks' ! i)\<rparr>) \<and>
    map (\<lambda>i. ab_region (blocks' ! i)) arr = chain a (map (\<lambda>i. ab_size (blocks ! i)) arr)"
  using assms
proof (induction arr arbitrary: blocks a)
  case Nil
  then show ?case by simp
next
  case (Cons k arr)
  let ?b1 = "blocks[k := (blocks ! k)\<lparr>ab_start_addr := a\<rparr>]"
  have k: "k < length blocks" "k \<notin> set arr" using Cons.prems by auto
  have same: "map (\<lambda>i. ab_size (?b1 ! i)) arr = map (\<lambda>i. ab_size (blocks ! i)) arr"
    using k by (intro map_cong) (auto simp: nth_list_update)
  from Cons.prems have r: "relocate arr ?b1 (a + ab_size (blocks ! k)) = (blocks', e)" by simp
  have IH: "length blocks' = length ?b1 \<and>
    e = a + ab_size (blocks ! k) + sum_list (map (\<lambda>i. ab_size (?b1 ! i)) arr) \<and>
    (\<forall>i. i \<notin> set arr \<longrightarrow> blocks' ! i = ?b1 ! i) \<and>
    (\<forall>i < length ?b1. blocks' ! i = (?b1 ! i)\<lparr>ab_start_addr := ab_start_addr (blocks' ! i)\<rparr>) \<and>
    map (\<lambda>i. ab_region (blocks' ! i)) arr = chain (a + ab_size (blocks ! k)) (map (\<lambda>i. ab_size (?b1 ! i)) arr)"
    by (rule Cons.IH [OF _ _ r]) (use Cons.prems in auto)
  have at_k: "blocks' ! k = (blocks ! k)\<lparr>ab_start_addr := a\<rparr>" using IH k by simp
  have field: "blocks' ! i = (blocks ! i)\<lparr>ab_start_addr := ab_start_addr (blocks' ! i)\<rparr>"
    if "i < length blocks" for i
  proof (cases "i = k")
    case False
    have "i < length ?b1" using that by simp
    with IH have "blocks' ! i = (?b1 ! i)\<lparr>ab_start_addr := ab_start_addr (blocks' ! i)\<rparr>" by blast
    with False show ?thesis by (metis nth_list_update_neq)
  qed (simp add: at_k)
  from IH have chained: "map (\<lambda>i. ab_region (blocks' ! i)) (k # arr) =
      chain a (map (\<lambda>i. ab_size (blocks ! i)) (k # arr))"
    using at_k same by (simp add: ab_region_def)
  from IH have rest: "length blocks' = length blocks"
    "e = a + sum_list (map (\<lambda>i. ab_size (blocks ! i)) (k # arr))"
    "\<forall>i. i \<notin> set (k # arr) \<longrightarrow> blocks' ! i = blocks ! i"
    by (simp_all add: same)
  show ?case using chained rest field by blast
qed

text \<open>The blocks after compaction: nothing but the addresses has changed, and in the
  order of the old addresses they lie end to end from the start of the memory.\<close>

definition compacted :: "allocated_block list \<Rightarrow> allocated_block list \<Rightarrow> bool" where
  "compacted blocks blocks' \<longleftrightarrow>
     length blocks' = length blocks \<and>
     (\<forall>i < length blocks. blocks' ! i = (blocks ! i)\<lparr>ab_start_addr := ab_start_addr (blocks' ! i)\<rparr>) \<and>
     (\<exists>arr. mset arr = mset [0..<length blocks] \<and>
        sorted_wrt (\<lambda>i j. ab_start_addr (blocks ! i) \<le> ab_start_addr (blocks ! j)) arr \<and>
        map (\<lambda>i. ab_region (blocks' ! i)) arr = chain 0 (map (\<lambda>i. ab_size (blocks ! i)) arr))"

lemma relocate_compacted:
  assumes "relocate (qsort (cmp_alloc_by_addr blocks) [0..<length blocks]) blocks 0 = (blocks', e)"
  shows "compacted blocks blocks'" and "e = sum_list (map ab_size blocks)"
proof -
  let ?arr = "qsort (cmp_alloc_by_addr blocks) [0..<length blocks]"
  have d: "distinct ?arr" by (metis distinct_upt mset_qsort mset_eq_imp_distinct_iff)
  have spec: "length blocks' = length blocks \<and> e = 0 + sum_list (map (\<lambda>i. ab_size (blocks ! i)) ?arr) \<and>
    (\<forall>i. i \<notin> set ?arr \<longrightarrow> blocks' ! i = blocks ! i) \<and>
    (\<forall>i < length blocks. blocks' ! i = (blocks ! i)\<lparr>ab_start_addr := ab_start_addr (blocks' ! i)\<rparr>) \<and>
    map (\<lambda>i. ab_region (blocks' ! i)) ?arr = chain 0 (map (\<lambda>i. ab_size (blocks ! i)) ?arr)"
    by (rule relocate_spec [OF d _ assms]) auto
  moreover have "sorted_wrt (\<lambda>i j. ab_start_addr (blocks ! i) \<le> ab_start_addr (blocks ! j)) ?arr"
    using by_addr.sorted_qsort [of blocks "[0..<length blocks]"] by simp
  ultimately show "compacted blocks blocks'"
    unfolding compacted_def by (intro conjI exI [of _ ?arr]) simp_all
  have "map (\<lambda>i. ab_size (blocks ! i)) [0..<length blocks] = map ab_size blocks"
    by (rule nth_equalityI) simp_all
  with spec show "e = sum_list (map ab_size blocks)" by simp
qed

lemma mset_map_nth:
  assumes "mset arr = mset [0..<length xs]"
  shows "mset (map (\<lambda>i. f (xs ! i)) arr) = mset (map f xs)"
proof -
  have "mset (map (\<lambda>i. f (xs ! i)) arr) = mset (map (\<lambda>i. f (xs ! i)) [0..<length xs])"
    using assms by (simp only: mset_map)
  also have "map (\<lambda>i. f (xs ! i)) [0..<length xs] = map f xs" by (rule nth_equalityI) simp_all
  finally show ?thesis .
qed

lemma compacted_same:
  assumes "compacted blocks blocks'"
  shows "map ab_size blocks' = map ab_size blocks" and "map ab_pid blocks' = map ab_pid blocks"
    and "map process_name blocks' = map process_name blocks"
proof -
  have l: "length blocks' = length blocks" using assms by (simp add: compacted_def)
  have "ab_size (blocks' ! i) = ab_size (blocks ! i) \<and> ab_pid (blocks' ! i) = ab_pid (blocks ! i) \<and>
      process_name (blocks' ! i) = process_name (blocks ! i)" if "i < length blocks" for i
  proof -
    have "blocks' ! i = (blocks ! i)\<lparr>ab_start_addr := ab_start_addr (blocks' ! i)\<rparr>"
      using assms that by (simp add: compacted_def)
    then show ?thesis by (cases "blocks' ! i"; cases "blocks ! i") simp
  qed
  then show "map ab_size blocks' = map ab_size blocks" "map ab_pid blocks' = map ab_pid blocks"
    "map process_name blocks' = map process_name blocks"
    using l by (auto intro: nth_equalityI)
qed

lemma compacted_layout:
  assumes "compacted blocks blocks'" and "\<forall>a \<in> set blocks. 0 < ab_size a"
    and "sum_list (map ab_size blocks) \<le> m"
  shows "layout m ((if sum_list (map ab_size blocks) < m
    then [(sum_list (map ab_size blocks), m - sum_list (map ab_size blocks))] else []) @ map ab_region blocks')"
proof -
  let ?sum = "sum_list (map ab_size blocks)"
  from assms(1) obtain arr where arr: "mset arr = mset [0..<length blocks]"
    and ch: "map (\<lambda>i. ab_region (blocks' ! i)) arr = chain 0 (map (\<lambda>i. ab_size (blocks ! i)) arr)"
    and l: "length blocks' = length blocks"
    by (auto simp: compacted_def)
  let ?ns = "map (\<lambda>i. ab_size (blocks ! i)) arr @ (if ?sum < m then [m - ?sum] else [])"
  have ms: "mset (map (\<lambda>i. ab_size (blocks ! i)) arr) = mset (map ab_size blocks)"
    by (rule mset_map_nth [OF arr])
  then have sum: "sum_list (map (\<lambda>i. ab_size (blocks ! i)) arr) = ?sum"
    by (metis sum_mset_sum_list)
  have pos: "\<forall>n \<in> set (map (\<lambda>i. ab_size (blocks ! i)) arr). 0 < n"
    using assms(2) ms by (metis (mono_tags) image_iff list.set_map set_mset_mset)
  have "layout m (chain 0 ?ns)"
    by (rule layout_chain) (use pos sum assms(3) in \<open>auto split: if_splits\<close>)
  moreover have "chain 0 ?ns = map (\<lambda>i. ab_region (blocks' ! i)) arr @
      (if ?sum < m then [(?sum, m - ?sum)] else [])"
    using ch sum by (simp add: chain_snoc)
  moreover have "mset (map (\<lambda>i. ab_region (blocks' ! i)) arr) = mset (map ab_region blocks')"
    by (rule mset_map_nth) (use arr l in simp)
  ultimately show ?thesis by (auto elim!: layout_mset [rotated])
qed

text \<open>The globals that allocation, release and compaction leave alone.\<close>

definition same_globals :: "mem_state \<Rightarrow> mem_state \<Rightarrow> bool" where
  "same_globals s s' \<longleftrightarrow> mem_size s' = mem_size s \<and> ma_algorithm s' = ma_algorithm s \<and>
     last_pid s' = last_pid s \<and> mem_flag s' = mem_flag s"

lemma same_globals_refl [simp]: "same_globals s s"
  and same_globals_trans: "same_globals s t \<Longrightarrow> same_globals t u \<Longrightarrow> same_globals s u"
  by (simp_all add: same_globals_def)

lemma mem_inv_sum:
  assumes "mem_inv s"
  shows "total_free (free_block s) + sum_list (map ab_size (allocated_blocks s)) \<le> mem_size s"
  using layout_sum [of "mem_size s" "mem_regions s"] assms
  by (simp add: mem_inv_def mem_regions_def total_free_sum o_def)

lemma mem_inv_alloc_within:
  "mem_inv s \<Longrightarrow> a \<in> set (allocated_blocks s) \<Longrightarrow> within (mem_size s) (ab_region a)"
  by (simp add: mem_inv_def mem_regions_def layout_def)

lemma mem_inv_free_within:
  "mem_inv s \<Longrightarrow> b \<in> set (free_block s) \<Longrightarrow> within (mem_size s) (fb_region b)"
  by (simp add: mem_inv_def mem_regions_def layout_def)

lemma mem_inv_alloc_pos: "mem_inv s \<Longrightarrow> a \<in> set (allocated_blocks s) \<Longrightarrow> 0 < ab_size a"
  using mem_inv_alloc_within by (fastforce simp: within_def)

lemma mem_inv_free_pos: "mem_inv s \<Longrightarrow> b \<in> set (free_block s) \<Longrightarrow> 0 < fb_size b"
  using mem_inv_free_within by (fastforce simp: within_def)

lemma total_free_nonneg: "mem_inv s \<Longrightarrow> 0 \<le> total_free (free_block s)"
  unfolding total_free_sum by (rule sum_list_nonneg) (auto dest: mem_inv_free_pos less_imp_le)

text \<open>A state whose free list is empty or one block needs no order.\<close>

lemma mem_inv_single:
  assumes "0 < mem_size t" and "ma_algorithm t \<in> {MA_FF, MA_BF, MA_WF}"
    and "layout (mem_size t) (mem_regions t)"
    and "free_block t = [] \<or> (\<exists>f. free_block t = [f])"
    and "free_block_len t = int (length (free_block t))"
  shows "mem_inv t"
  using assms
  by (auto simp: mem_inv_def mem_regions_def free_ordered_def coalesced_def layout_Cons within_def)

lemma compact_memory_spec:
  assumes inv: "mem_inv s" and ne: "allocated_blocks s \<noteq> []" and c: "compact_memory s = (r, s')"
  defines "used \<equiv> sum_list (map ab_size (allocated_blocks s))"
  shows "mem_inv s' \<and> same_globals s s' \<and>
    (r = 1 \<longrightarrow> compacted (allocated_blocks s) (allocated_blocks s') \<and>
       free_block s' = (if used < mem_size s
         then [\<lparr>fb_size = mem_size s - used, fb_start_addr = used\<rparr>] else [])) \<and>
    (r \<noteq> 1 \<longrightarrow> r = -1 \<and> (allocated_blocks s' = allocated_blocks s \<and> free_block s' = free_block s \<or>
       compacted (allocated_blocks s) (allocated_blocks s') \<and> free_block s' = []))"
proof -
  obtain ok s1 where m: "malloc s = (ok, s1)" by (cases "malloc s")
  then obtain ms where s1: "s1 = s\<lparr>mallocs := ms\<rparr>" using malloc_snd by blast
  obtain blocks e where rel: "relocate (qsort (cmp_alloc_by_addr (allocated_blocks s))
      [0..<length (allocated_blocks s)]) (allocated_blocks s) 0 = (blocks, e)" by fastforce
  from relocate_compacted [OF rel] have comp: "compacted (allocated_blocks s) blocks" and e: "e = used"
    by (simp_all add: used_def)
  obtain ok2 s3 where m2: "malloc (s1\<lparr>allocated_blocks := blocks, free_block := [], free_block_len := 0\<rparr>)
      = (ok2, s3)" by fastforce
  then obtain ms2 where
    s3: "s3 = s1\<lparr>allocated_blocks := blocks, free_block := [], free_block_len := 0, mallocs := ms2\<rparr>"
    using malloc_snd by blast
  have sum: "used \<le> mem_size s"
    using mem_inv_sum [OF inv] total_free_nonneg [OF inv] by (simp add: used_def)
  have lay: "layout (mem_size s) ((if used < mem_size s then [(used, mem_size s - used)] else []) @
      map ab_region blocks)"
    unfolding used_def
    by (rule compacted_layout [OF comp]) (use mem_inv_alloc_pos [OF inv] sum in \<open>auto simp: used_def\<close>)
  have empty: "mem_inv t" if "same_globals s t" "allocated_blocks t = blocks" "free_block t = []"
    "free_block_len t = 0" for t
    by (rule mem_inv_single) (use inv lay that in \<open>auto simp: mem_inv_def same_globals_def
      mem_regions_def layout_append\<close>)
  have single: "mem_inv t" if "used < mem_size s" "same_globals s t" "allocated_blocks t = blocks"
    "free_block t = [\<lparr>fb_size = mem_size s - used, fb_start_addr = used\<rparr>]" "free_block_len t = 1" for t
    by (rule mem_inv_single) (use inv lay that in \<open>auto simp: mem_inv_def same_globals_def
      mem_regions_def fb_region_def\<close>)
  from c ne m rel m2 s1 s3 show ?thesis
    using inv comp e empty single
    by (auto simp: compact_memory_def DEFAULT_MEM_START_def same_globals_def split: if_splits)
qed

section \<open>What allocation does\<close>

lemma allocate_mem_fit:
  "find_fit (ab_size ab) 0 (free_block s) = Some (i, b) \<Longrightarrow> allocate_mem ab s = take_block ab i b s"
  by (simp add: allocate_mem.simps)

lemma allocate_mem_short:
  "find_fit (ab_size ab) 0 (free_block s) = None \<Longrightarrow> total_free (free_block s) < ab_size ab \<Longrightarrow>
   allocate_mem ab s = Some (-1, ab, s)"
  by (simp add: allocate_mem.simps)

text \<open>Where compaction is called and there is a block to move, the request fits afterwards.\<close>

lemma allocate_mem_compact:
  assumes inv: "mem_inv s" and pos: "0 < ab_size ab" and ne: "allocated_blocks s \<noteq> []"
    and nofit: "find_fit (ab_size ab) 0 (free_block s) = None"
    and total: "ab_size ab \<le> total_free (free_block s)"
    and c: "compact_memory s = (1, s1)"
  shows "\<exists>b. free_block s1 = [b] \<and> ab_size ab \<le> fb_size b \<and>
    allocate_mem ab s = Option.bind (take_block ab 0 b s1) (\<lambda>(_, ab', s2). Some (-1, ab', s2))"
proof -
  let ?used = "sum_list (map ab_size (allocated_blocks s))"
  from mem_inv_sum [OF inv] total pos have lt: "?used < mem_size s" and le: "ab_size ab \<le> mem_size s - ?used"
    by simp_all
  with compact_memory_spec [OF inv ne c] have
    fb: "free_block s1 = [\<lparr>fb_size = mem_size s - ?used, fb_start_addr = ?used\<rparr>]" by simp
  with le have "allocate_mem ab s1 = take_block ab 0 \<lparr>fb_size = mem_size s - ?used, fb_start_addr = ?used\<rparr> s1"
    by (intro allocate_mem_fit) simp
  with fb le nofit total c show ?thesis by (subst allocate_mem.simps) simp
qed

text \<open>Where there is no block to move, \<open>compact_memory\<close> reports success and changes nothing,
  and the recursion never ends.\<close>

lemma allocate_mem_returns_only_if:
  assumes "allocate_mem ab s = Some res"
  shows "find_fit (ab_size ab) 0 (free_block s) \<noteq> None \<or> total_free (free_block s) < ab_size ab \<or>
    allocated_blocks s \<noteq> []"
proof (rule allocate_mem.raw_induct [where P = "\<lambda>ab s _. find_fit (ab_size ab) 0 (free_block s) \<noteq> None \<or>
    total_free (free_block s) < ab_size ab \<or> allocated_blocks s \<noteq> []", OF _ assms])
  fix f ab s res
  assume IH: "\<And>ab s res. f ab s = Some res \<Longrightarrow> find_fit (ab_size ab) 0 (free_block s) \<noteq> None \<or>
    total_free (free_block s) < ab_size ab \<or> allocated_blocks s \<noteq> []"
    and eq: "(case find_fit (ab_size ab) 0 (free_block s) of
        None \<Rightarrow>
          if ab_size ab \<le> total_free (free_block s) then
            (case compact_memory s of (r, s1) \<Rightarrow>
               if r \<noteq> 1 then Some (-1, ab, s1)
               else Option.bind (f ab s1) (\<lambda>(_, ab', s2). Some (-1, ab', s2)))
          else Some (-1, ab, s)
      | Some (i, fbt) \<Rightarrow> take_block ab i fbt s) = Some res"
  show "find_fit (ab_size ab) 0 (free_block s) \<noteq> None \<or>
    total_free (free_block s) < ab_size ab \<or> allocated_blocks s \<noteq> []"
  proof (rule ccontr)
    assume "\<not> ?thesis"
    then have "find_fit (ab_size ab) 0 (free_block s) = None"
      "ab_size ab \<le> total_free (free_block s)" "allocated_blocks s = []"
      by (simp_all del: not_None_eq)
    moreover from this have "compact_memory s = (1, s)" by (simp add: compact_memory_def)
    ultimately show False using eq IH [of ab s] by (auto simp: bind_eq_Some_conv)
  qed
qed

text \<open>When \<open>allocate_mem\<close> gets as far as calling itself, and in which state it does.\<close>

definition recursive_call :: "allocated_block \<Rightarrow> mem_state \<Rightarrow> mem_state \<Rightarrow> bool" where
  "recursive_call ab s s1 \<longleftrightarrow>
     find_fit (ab_size ab) 0 (free_block s) = None \<and> total_free (free_block s) \<ge> ab_size ab \<and>
     compact_memory s = (1, s1)"

lemma allocate_mem_recursive:
  "recursive_call ab s s1 \<Longrightarrow>
   allocate_mem ab s = Option.bind (allocate_mem ab s1) (\<lambda>(_, ab', s2). Some (-1, ab', s2))"
  by (subst allocate_mem.simps) (simp add: recursive_call_def)

lemma allocate_mem_self_call: "recursive_call ab s s \<Longrightarrow> allocated_blocks s = [] \<Longrightarrow> allocate_mem ab s = None"
  using allocate_mem_returns_only_if [of ab s]
  by (cases "allocate_mem ab s") (auto simp: recursive_call_def)

lemma mem_inv_drop:
  assumes "mem_inv (s\<lparr>allocated_blocks := a # blocks\<rparr>)"
  shows "mem_inv (s\<lparr>allocated_blocks := blocks\<rparr>)"
  using assms by (auto simp: mem_inv_def mem_regions_def free_ordered_def layout_append layout_Cons)

text \<open>Every way the call can return on a request of positive size.\<close>

lemma allocate_mem_inv:
  assumes inv: "mem_inv s" and pos: "0 < ab_size ab" and res: "allocate_mem ab s = Some (r, ab', s')"
  shows "same_globals s s' \<and>
    (r = 1 \<and> allocated_blocks s' = allocated_blocks s \<and>
       mem_inv (s'\<lparr>allocated_blocks := ab' # allocated_blocks s'\<rparr>) \<and>
       (\<exists>start. ab' = ab\<lparr>ab_start_addr := start\<rparr>) \<or>
     r = -1 \<and> mem_inv s' \<and>
       (allocated_blocks s' = allocated_blocks s \<or> compacted (allocated_blocks s) (allocated_blocks s')))"
proof (cases "find_fit (ab_size ab) 0 (free_block s)")
  case (Some ib)
  obtain i b where ib: "ib = (i, b)" by force
  with Some find_fit_Some [of "ab_size ab" 0 "free_block s" i b] have
    i: "i < length (free_block s)" "free_block s ! i = b" "ab_size ab \<le> fb_size b" by auto
  from res Some ib have tb: "take_block ab i b s = Some (r, ab', s')" by (simp add: allocate_mem_fit)
  from take_block_inv [OF inv i(1,2) pos i(3) tb] show ?thesis by (auto simp: same_globals_def)
next
  case None
  show ?thesis
  proof (cases "total_free (free_block s) < ab_size ab")
    case True
    with None res inv show ?thesis by (simp add: allocate_mem_short)
  next
    case False
    with None allocate_mem_returns_only_if [OF res] have ne: "allocated_blocks s \<noteq> []" by simp
    obtain q s1 where c: "compact_memory s = (q, s1)" by fastforce
    note spec = compact_memory_spec [OF inv ne c]
    show ?thesis
    proof (cases "q = 1")
      case True
      with False allocate_mem_compact [OF inv pos ne None] c obtain b where
        fb: "free_block s1 = [b]" "ab_size ab \<le> fb_size b"
        and "allocate_mem ab s = Option.bind (take_block ab 0 b s1) (\<lambda>(_, ab', s2). Some (-1, ab', s2))"
        by auto
      with res obtain r2 where r: "r = -1" and tb: "take_block ab 0 b s1 = Some (r2, ab', s')"
        by (auto simp: bind_eq_Some_conv)
      have inv1: "mem_inv s1" using spec by simp
      have "0 < length (free_block s1)" "free_block s1 ! 0 = b" using fb by simp_all
      from take_block_inv [OF inv1 this pos fb(2) tb] spec True r show ?thesis
        using mem_inv_drop [of ab' "allocated_blocks s'" s'] by (auto simp: same_globals_def)
    next
      case q: False
      with None False c res have "r = -1" "s' = s1" by (simp_all add: allocate_mem.simps)
      with q spec show ?thesis by auto
    qed
  qed
qed

lemma allocate_mem_no_fit:
  assumes inv: "mem_inv s" and pos: "0 < ab_size ab" and res: "allocate_mem ab s = Some (r, ab', s')"
    and nofit: "find_fit (ab_size ab) 0 (free_block s) = None"
  shows "r = -1"
proof (cases "total_free (free_block s) < ab_size ab")
  case True
  with nofit res show ?thesis by (simp add: allocate_mem_short)
next
  case False
  with nofit res show ?thesis
    by (subst (asm) allocate_mem.simps) (auto simp: bind_eq_Some_conv split: prod.splits if_splits)
qed

section \<open>What release does\<close>

definition gapped :: "free_block_type list \<Rightarrow> bool" where
  "gapped fs \<longleftrightarrow> sorted_wrt (\<lambda>a b. fb_start_addr a + fb_size a < fb_start_addr b) fs"

lemma addrs_join: "0 < n \<Longrightarrow> 0 < k \<Longrightarrow> addrs (a, n + k) = addrs (a, n) \<union> addrs (a + n, k)"
  by (auto simp: addrs_def)

lemma merge_free_spec:
  assumes "merge_free pre rest len = (nodes, len')"
    and "sorted_wrt (\<lambda>a b. fb_start_addr a \<le> fb_start_addr b) (pre # rest)"
    and "layout m (map fb_region (pre # rest) @ rs)"
  shows "layout m (map fb_region nodes @ rs) \<and> gapped nodes \<and>
    (\<forall>b \<in> set nodes. fb_start_addr pre \<le> fb_start_addr b) \<and>
    \<Union> (addrs ` fb_region ` set nodes) = \<Union> (addrs ` fb_region ` set (pre # rest)) \<and>
    len' - int (length nodes) = len - int (length (pre # rest))"
  using assms
proof (induction pre rest len arbitrary: rs nodes len' rule: merge_free.induct)
  case (1 pre len)
  then show ?case by (auto simp: gapped_def)
next
  case (2 pre fbt rest len)
  have w: "within m (fb_region pre)" "within m (fb_region fbt)" and ap: "apart (fb_region pre) (fb_region fbt)"
    using "2.prems"(3) by (simp_all add: layout_Cons)
  show ?case
  proof (cases "fb_start_addr pre + fb_size pre = fb_start_addr fbt")
    case True
    let ?p = "pre\<lparr>fb_size := fb_size pre + fb_size fbt\<rparr>"
    have reg: "fb_region pre = (fb_start_addr pre, fb_size pre)"
      "fb_region fbt = (fb_start_addr pre + fb_size pre, fb_size fbt)"
      "fb_region ?p = (fb_start_addr pre, fb_size pre + fb_size fbt)"
      using True by (simp_all add: fb_region_def)
    have "layout m (map fb_region (?p # rest) @ rs)"
      using layout_join [of m "fb_start_addr pre" "fb_size pre" "fb_size fbt" "map fb_region rest @ rs"]
        "2.prems"(3) by (simp add: reg)
    moreover have "addrs (fb_region ?p) = addrs (fb_region pre) \<union> addrs (fb_region fbt)"
      using w unfolding reg by (intro addrs_join) (simp_all add: within_def)
    ultimately show ?thesis using "2.IH"(1) [OF True, of nodes len' rs] "2.prems" True by auto
  next
    case False
    with "2.prems"(1) obtain ns where ns: "merge_free fbt rest len = (ns, len')" "nodes = pre # ns"
      by (auto split: prod.splits)
    have "layout m (map fb_region (fbt # rest) @ fb_region pre # rs)"
      using "2.prems"(3) by (rule layout_mset [rotated]) simp
    from "2.IH"(2) [OF False ns(1) _ this] "2.prems"(2) have
      IH: "layout m (map fb_region ns @ fb_region pre # rs)" "gapped ns"
        "\<forall>b \<in> set ns. fb_start_addr fbt \<le> fb_start_addr b"
        "\<Union> (addrs ` fb_region ` set ns) = \<Union> (addrs ` fb_region ` set (fbt # rest))"
        "len' - int (length ns) = len - int (length (fbt # rest))"
      by simp_all
    from IH(1) have "layout m (map fb_region nodes @ rs)"
      by (rule layout_mset [rotated]) (simp add: ns)
    moreover have "fb_start_addr pre + fb_size pre < fb_start_addr fbt"
      using ap w False "2.prems"(2) by (auto simp: apart_def within_def)
    then have "gapped nodes" "\<forall>b \<in> set nodes. fb_start_addr pre \<le> fb_start_addr b"
      using IH(2,3) w ns "2.prems"(2) by (fastforce simp: gapped_def within_def)+
    ultimately show ?thesis using IH ns by simp
  qed
qed

lemma gapped_coalesced:
  assumes "gapped fs" and "\<forall>b \<in> set fs. 0 < fb_size b"
  shows "coalesced fs" and "sorted_wrt (\<lambda>a b. fb_start_addr a \<le> fb_start_addr b) fs"
  using assms
proof (induction fs)
  case (Cons f fs)
  { case 1 with Cons show ?case by (fastforce simp: gapped_def coalesced_def) }
  { case 2 with Cons show ?case by (fastforce simp: gapped_def) }
qed (simp_all add: coalesced_def)

lemma merge_list_spec:
  assumes s: "free_block s = qsort cmpFF fs" and len: "free_block_len s = int (length fs)"
    and lay: "layout m (map fb_region fs @ rs)"
  shows "\<exists>nodes. merge_list s = s\<lparr>free_block := nodes, free_block_len := int (length nodes)\<rparr> \<and>
    layout m (map fb_region nodes @ rs) \<and> coalesced nodes \<and>
    sorted_wrt (\<lambda>a b. fb_start_addr a \<le> fb_start_addr b) nodes \<and>
    \<Union> (addrs ` fb_region ` set nodes) = \<Union> (addrs ` fb_region ` set fs)"
proof (cases "free_block s")
  case Nil
  then have "fs = []" using s by simp
  then show ?thesis using s len lay
    by (intro exI [of _ "[]"]) (simp add: merge_list_def coalesced_def)
next
  case (Cons f rest)
  obtain nodes len' where m: "merge_free f rest (free_block_len s) = (nodes, len')" by fastforce
  have eq: "f # rest = qsort cmpFF fs" using s Cons by simp
  have sorted: "sorted_wrt (\<lambda>a b. fb_start_addr a \<le> fb_start_addr b) (f # rest)"
    using ff.sorted_qsort [of fs] by (simp only: eq cmpFF_le)
  have "layout m (map fb_region (f # rest) @ rs)"
    using lay by (simp only: eq layout_qsort)
  note merged = merge_free_spec [OF m sorted this]
  then have spec: "layout m (map fb_region nodes @ rs)" "gapped nodes"
    "\<Union> (addrs ` fb_region ` set nodes) = \<Union> (addrs ` fb_region ` set (f # rest))"
    "len' - int (length nodes) = free_block_len s - int (length (f # rest))"
    by (simp_all only: HOL.simp_thms)
  have "length (f # rest) = length fs" "set (f # rest) = set fs"
    by (simp_all only: eq length_qsort set_qsort)
  moreover have "\<forall>b \<in> set nodes. 0 < fb_size b"
    using layout_size [OF spec(1)] by (auto simp: within_def)
  ultimately show ?thesis using spec m Cons len gapped_coalesced [OF spec(2)]
    by (intro exI [of _ nodes]) (simp add: merge_list_def)
qed

lemma layout_give_back:
  assumes "layout m (map fb_region fs @ map ab_region (as1 @ a # as2))"
  shows "layout m (map fb_region (\<lparr>fb_size = ab_size a, fb_start_addr = ab_start_addr a\<rparr> # fs) @
    map ab_region (as1 @ as2))"
  using assms by (rule layout_mset [rotated]) (simp add: fb_region_def ab_region_def)

text \<open>Sorting by the policy after the merge, as the last step of \<open>free_mem\<close> does it. The
  address order the merge leaves is that of first fit already.\<close>

lemma resort_policy:
  assumes "(if ma_algorithm s = 2 then rearrange_by cmpBF s
     else if ma_algorithm s = 3 then rearrange_by cmpWF s else Some s) = Some s'"
    and "mem_presorted (s\<lparr>allocated_blocks := blocks\<rparr>)"
    and "sorted_wrt (\<lambda>a b. fb_start_addr a \<le> fb_start_addr b) (free_block s)"
  shows "mem_inv (s'\<lparr>allocated_blocks := blocks\<rparr>) \<and> set (free_block s') = set (free_block s) \<and>
    allocated_blocks s' = allocated_blocks s \<and> same_globals s s'"
proof (cases "ma_algorithm s \<in> {2, 3}")
  case True
  then have "rearrange_by (policy_cmp (ma_algorithm s)) s = Some s'"
    using assms(1) by (auto simp: policy_cmp_def MA_BF_def MA_WF_def)
  moreover have "free_block_len s = int (length (free_block s))"
    using assms(2) by (simp add: mem_presorted_def)
  ultimately obtain ms where
    s': "s' = s\<lparr>free_block := qsort (policy_cmp (ma_algorithm s)) (free_block s), mallocs := ms\<rparr>"
    using rearrange_by_Some by blast
  have "mem_inv (s\<lparr>allocated_blocks := blocks,
      free_block := qsort (policy_cmp (ma_algorithm s)) (free_block s)\<rparr>)"
    using mem_inv_sorted [OF assms(2)] by simp
  then show ?thesis
    by (simp add: s' same_globals_def mem_inv_def mem_regions_def free_ordered_def)
next
  case False
  then have "s' = s" using assms(1) by simp
  moreover have "free_ordered (s\<lparr>allocated_blocks := blocks\<rparr>)"
    using False assms(3) by (simp add: free_ordered_def policy_cmp_def MA_BF_def MA_WF_def)
  ultimately show ?thesis using assms(2) by (simp add: mem_inv_presorted)
qed

lemma free_mem_spec:
  assumes inv: "mem_inv s" and a: "allocated_blocks s = as1 @ a # as2"
    and res: "free_mem a s = Some (r, s')"
  shows "allocated_blocks s' = allocated_blocks s \<and> same_globals s s' \<and>
    (r = 1 \<and> mem_inv (s'\<lparr>allocated_blocks := as1 @ as2\<rparr>) \<and>
       free_addrs s' = free_addrs s \<union> addrs (ab_region a) \<or>
     r = -1 \<and> free_block s' = free_block s \<and> mem_inv s')"
proof -
  obtain ok s1 where m: "malloc s = (ok, s1)" by fastforce
  then obtain ms where s1: "s1 = s\<lparr>mallocs := ms\<rparr>" using malloc_snd by blast
  show ?thesis
  proof (cases ok)
    case False
    with res m have "r = -1" "s' = s\<lparr>mallocs := ms\<rparr>" by (simp_all add: free_mem_def s1)
    with inv show ?thesis by (simp add: same_globals_def)
  next
    case True
    let ?fb = "\<lparr>fb_size = ab_size a, fb_start_addr = ab_start_addr a\<rparr>"
    let ?i = "insert_free_block 0 ?fb s1"
    from res m True obtain s2 where s2: "rearrange_by cmpFF ?i = Some s2" and r: "r = 1"
      and s4: "(if ma_algorithm s = 2 then rearrange_by cmpBF (merge_list s2)
        else if ma_algorithm s = 3 then rearrange_by cmpWF (merge_list s2) else Some (merge_list s2)) = Some s'"
      by (auto simp: free_mem_def Let_def bind_eq_Some_conv)
    have len: "free_block_len ?i = int (length (free_block ?i))"
      using inv s1 by (simp add: insert_free_block_def mem_inv_def)
    obtain ms2 where s2': "s2 = ?i\<lparr>free_block := qsort cmpFF (?fb # free_block s), mallocs := ms2\<rparr>"
      using rearrange_by_Some [OF s2 len] s1 by (auto simp: insert_free_block_def)
    have "layout (mem_size s) (map fb_region (?fb # free_block s) @ map ab_region (as1 @ as2))"
      using inv a by (intro layout_give_back) (simp add: mem_inv_def mem_regions_def)
    from merge_list_spec [OF _ _ this, of s2] obtain nodes where
      ml: "merge_list s2 = s2\<lparr>free_block := nodes, free_block_len := int (length nodes)\<rparr>"
      and nodes: "layout (mem_size s) (map fb_region nodes @ map ab_region (as1 @ as2))" "coalesced nodes"
        "sorted_wrt (\<lambda>a b. fb_start_addr a \<le> fb_start_addr b) nodes"
        "\<Union> (addrs ` fb_region ` set nodes) = \<Union> (addrs ` fb_region ` set (?fb # free_block s))"
      using s2' s1 inv by (auto simp: insert_free_block_def mem_inv_def)
    have glob: "same_globals s (merge_list s2)" "allocated_blocks (merge_list s2) = allocated_blocks s"
      using ml s2' s1 by (simp_all add: same_globals_def insert_free_block_def)
    have "mem_presorted (merge_list s2\<lparr>allocated_blocks := as1 @ as2\<rparr>)"
      using glob nodes inv ml by (simp add: mem_presorted_def mem_inv_def same_globals_def mem_regions_def)
    moreover have alg: "ma_algorithm (merge_list s2) = ma_algorithm s"
      using glob by (simp add: same_globals_def)
    ultimately have
      "mem_inv (s'\<lparr>allocated_blocks := as1 @ as2\<rparr>) \<and> set (free_block s') = set nodes \<and>
       allocated_blocks s' = allocated_blocks s \<and> same_globals s s'"
      using resort_policy [of "merge_list s2" s' "as1 @ as2", unfolded alg, OF s4] glob nodes(3) ml
      by (simp add: same_globals_def)
    then show ?thesis using r nodes(4)
      by (auto simp: free_addrs_def fb_region_def ab_region_def)
  qed
qed

section \<open>The calls return when \<open>malloc\<close> does not fail\<close>

lemma take_block_enough:
  assumes "mallocs s = []" and "free_block_len s = int (length (free_block s))"
  shows "\<exists>s'. take_block ab i b s = Some (1, ab\<lparr>ab_start_addr := fb_start_addr b\<rparr>, s') \<and> mallocs s' = []"
  using assms by (auto simp: take_block_def Let_def rearrange_by_enough delete_free_block_def)

lemma compact_memory_enough:
  assumes "mallocs s = []"
  shows "fst (compact_memory s) = 1 \<and> mallocs (snd (compact_memory s)) = []"
  using assms by (simp add: compact_memory_def Let_def split: prod.split)

lemma merge_free_len:
  "merge_free pre rest len = (nodes, len') \<Longrightarrow> len' = len - int (length rest) + int (length nodes) - 1"
  by (induction pre rest len arbitrary: nodes len' rule: merge_free.induct)
    (auto split: if_splits prod.splits)

lemma merge_list_len:
  assumes "free_block_len s = int (length (free_block s))"
  shows "free_block_len (merge_list s) = int (length (free_block (merge_list s)))"
    and "mallocs (merge_list s) = mallocs s"
proof -
  show "free_block_len (merge_list s) = int (length (free_block (merge_list s)))"
  proof (cases "free_block s")
    case (Cons f rest)
    obtain nodes len where "merge_free f rest (free_block_len s) = (nodes, len)" by fastforce
    with Cons assms merge_free_len [OF this] show ?thesis by (simp add: merge_list_def)
  qed (use assms in \<open>simp add: merge_list_def\<close>)
  show "mallocs (merge_list s) = mallocs s"
    by (simp add: merge_list_def split: list.split prod.split)
qed

lemma free_mem_enough:
  assumes inv: "mem_inv s" and ms: "mallocs s = []"
  shows "\<exists>s'. free_mem a s = Some (1, s') \<and> mallocs s' = []"
proof -
  let ?i = "insert_free_block 0 \<lparr>fb_size = ab_size a, fb_start_addr = ab_start_addr a\<rparr> s"
  let ?s2 = "?i\<lparr>free_block := qsort cmpFF (free_block ?i)\<rparr>"
  have i: "mallocs ?i = []" "free_block_len ?i = int (length (free_block ?i))"
    using ms inv by (simp_all add: insert_free_block_def mem_inv_def)
  have s2: "rearrange_by cmpFF ?i = Some ?s2" by (rule rearrange_by_enough [OF i])
  have m: "mallocs (merge_list ?s2) = []"
    "free_block_len (merge_list ?s2) = int (length (free_block (merge_list ?s2)))"
    using merge_list_len [of ?s2] i by simp_all
  show ?thesis
    using s2 m ms rearrange_by_enough [OF m, of cmpBF] rearrange_by_enough [OF m, of cmpWF]
    by (auto simp: free_mem_def Let_def)
qed

text \<open>A request of positive size comes back unless it falls into the endless recursion.\<close>

lemma allocate_mem_enough:
  assumes inv: "mem_inv s" and pos: "0 < ab_size ab" and ms: "mallocs s = []"
  shows "allocate_mem ab s = None \<longleftrightarrow>
    find_fit (ab_size ab) 0 (free_block s) = None \<and> ab_size ab \<le> total_free (free_block s) \<and>
    allocated_blocks s = []"
proof
  assume none: "allocate_mem ab s = None"
  have nofit: "find_fit (ab_size ab) 0 (free_block s) = None"
  proof (rule ccontr)
    assume "find_fit (ab_size ab) 0 (free_block s) \<noteq> None"
    then obtain i b where "allocate_mem ab s = take_block ab i b s" using allocate_mem_fit by force
    moreover have "free_block_len s = int (length (free_block s))" using inv by (simp add: mem_inv_def)
    ultimately show False using none take_block_enough [OF ms, of ab i b] by auto
  qed
  moreover have total: "ab_size ab \<le> total_free (free_block s)"
    using none allocate_mem_short [OF nofit] by (cases "total_free (free_block s) < ab_size ab") auto
  moreover have "allocated_blocks s = []"
  proof (rule ccontr)
    assume ne: "allocated_blocks s \<noteq> []"
    obtain s1 where c: "compact_memory s = (1, s1)" and ms1: "mallocs s1 = []"
      using compact_memory_enough [OF ms] by (cases "compact_memory s") auto
    have len: "free_block_len s1 = int (length (free_block s1))"
      using compact_memory_spec [OF inv ne c] by (simp add: mem_inv_def)
    obtain b where "allocate_mem ab s =
        Option.bind (take_block ab 0 b s1) (\<lambda>(_, ab', s2). Some (-1, ab', s2))"
      using allocate_mem_compact [OF inv pos ne nofit total c] by blast
    with none take_block_enough [OF ms1 len, of ab 0 b] show False by auto
  qed
  ultimately show "find_fit (ab_size ab) 0 (free_block s) = None \<and>
      ab_size ab \<le> total_free (free_block s) \<and> allocated_blocks s = []" by simp
next
  assume "find_fit (ab_size ab) 0 (free_block s) = None \<and> ab_size ab \<le> total_free (free_block s) \<and>
    allocated_blocks s = []"
  then show "allocate_mem ab s = None"
    using allocate_mem_returns_only_if [of ab s] by (cases "allocate_mem ab s") auto
qed

section \<open>The free addresses after a block is taken\<close>

lemma set_delete_at:
  assumes "i < length xs"
  shows "set xs = insert (xs ! i) (set (take i xs @ drop (Suc i) xs))"
    and "set (xs[i := v]) = insert v (set (take i xs @ drop (Suc i) xs))"
  using assms id_take_nth_drop [OF assms, THEN arg_cong [where f = set]]
  by (simp_all add: upd_conv_take_nth_drop)

lemma free_addrs_at:
  assumes inv: "mem_inv s" and i: "i < length (free_block s)"
  defines "rest \<equiv> \<Union> (addrs ` fb_region ` set (take i (free_block s) @ drop (Suc i) (free_block s)))"
  shows "free_addrs s = addrs (fb_region (free_block s ! i)) \<union> rest"
    and "addrs (fb_region (free_block s ! i)) \<inter> rest = {}"
proof -
  show "free_addrs s = addrs (fb_region (free_block s ! i)) \<union> rest"
    unfolding free_addrs_def rest_def by (subst set_delete_at(1) [OF i]) auto
  have "layout (mem_size s) (fb_region (free_block s ! i) #
      map fb_region (take i (free_block s) @ drop (Suc i) (free_block s)) @ map ab_region (allocated_blocks s))"
    using inv layout_at [OF i] by (simp add: mem_inv_def mem_regions_def)
  then show "addrs (fb_region (free_block s ! i)) \<inter> rest = {}"
    by (force simp: rest_def layout_Cons layout_append layout_def within_def apart_addrs)
qed

lemma total_free_at:
  "i < length fs \<Longrightarrow> total_free fs = fb_size (fs ! i) + total_free (take i fs @ drop (Suc i) fs)"
  unfolding total_free_sum
  by (subst id_take_nth_drop [of i fs, THEN arg_cong [where f = "\<lambda>xs. sum_list (map fb_size xs)"]]) simp_all

lemma total_free_mset: "mset fs = mset gs \<Longrightarrow> total_free fs = total_free gs"
  unfolding total_free_sum by (metis mset_map sum_mset_sum_list)

lemma take_block_frees:
  assumes inv: "mem_inv s" and i: "i < length (free_block s)" and b: "free_block s ! i = b"
    and n: "0 < ab_size ab" "ab_size ab \<le> fb_size b"
    and tb: "take_block ab i b s = Some (r, ab', s')"
  defines "taken \<equiv> (if fb_size b - ab_size ab \<le> MIN_SLICE then fb_size b else ab_size ab)"
  shows "free_addrs s' = free_addrs s - addrs (fb_start_addr b, taken)"
    and "total_free (free_block s') = total_free (free_block s) - taken"
proof -
  let ?rest = "take i (free_block s) @ drop (Suc i) (free_block s)"
  let ?R = "\<Union> (addrs ` fb_region ` set ?rest)"
  note at = free_addrs_at [OF inv i] and total = total_free_at [OF i]
  have "free_addrs s' = free_addrs s - addrs (fb_start_addr b, taken) \<and>
    total_free (free_block s') = total_free (free_block s) - taken"
  proof (cases "fb_size b - ab_size ab \<le> MIN_SLICE")
    case True
    with tb have "free_block s' = ?rest" by (auto simp add: take_block_def delete_free_block_def)
    with True at total b show ?thesis
      by (auto simp: taken_def free_addrs_def fb_region_def)
  next
    case False
    let ?b = "b\<lparr>fb_size := fb_size b - ab_size ab, fb_start_addr := fb_start_addr b + ab_size ab\<rparr>"
    have "free_block_len s = int (length (free_block s))" using inv by (simp add: mem_inv_def)
    from take_block_part [OF this False tb] have m: "mset (free_block s') = mset ((free_block s)[i := ?b])"
      by (auto simp: cut_list_def split: if_splits)
    then have set: "set (free_block s') = insert ?b (set ?rest)"
      using set_delete_at(2) [OF i, of ?b] by (metis set_mset_mset)
    have "addrs (fb_region ?b) = addrs (fb_region b) - addrs (fb_start_addr b, ab_size ab)"
      using n False by (auto simp: addrs_def fb_region_def)
    moreover have "addrs (fb_start_addr b, ab_size ab) \<subseteq> addrs (fb_region b)"
      using n by (auto simp: addrs_def fb_region_def)
    ultimately have "free_addrs s' = free_addrs s - addrs (fb_start_addr b, ab_size ab)"
      using at b set by (auto simp: free_addrs_def)
    moreover have "total_free (free_block s') = total_free (free_block s) - ab_size ab"
      using total_free_mset [OF m] total_free_at [of i "(free_block s)[i := ?b]"] total i b by simp
    ultimately show ?thesis using False by (simp add: taken_def)
  qed
  then show "free_addrs s' = free_addrs s - addrs (fb_start_addr b, taken)"
    and "total_free (free_block s') = total_free (free_block s) - taken" by blast+
qed

end
