(* ===== verification/Mem_Menu.thy ===== *)
theory Mem_Menu
  imports Mem_Alloc
begin

text \<open>
  The processes and the menu of \<^verbatim>\<open>src/2lab/3/3-1.c\<close>: creating and killing processes, the
  settings, and the main loop. What \<open>scanf\<close> stored is an argument, and so is \<open>junk\<close>, the
  contents of a node fresh from \<open>malloc\<close>: \<open>new_process\<close> reads its \<open>size\<close> field when the
  number typed in is not positive.
\<close>

section \<open>Operations\<close>

definition set_mem_size :: "int \<Rightarrow> mem_state \<Rightarrow> (int \<times> mem_state) option" where
  "set_mem_size sz s =
     (if mem_flag s \<noteq> 0 then Some (0, s)
      else if sz > 0 then
        (case free_block s of
           [] \<Rightarrow> None
         | fb # rest \<Rightarrow>
             Some (1, s\<lparr>mem_size := sz, free_block := fb\<lparr>fb_size := sz\<rparr> # rest, mem_flag := 1\<rparr>))
      else Some (1, s\<lparr>mem_flag := 1\<rparr>))"

definition set_algorithm :: "int \<Rightarrow> mem_state \<Rightarrow> mem_state option" where
  "set_algorithm algorithm s =
     (let s1 = (if algorithm \<ge> 1 \<and> algorithm \<le> 3 then s\<lparr>ma_algorithm := algorithm\<rparr> else s)
      in rearrange (ma_algorithm s1) s1)"

definition process_label :: "int \<Rightarrow> string" where
  "process_label p = ''PROCESS-'' @ fmt_02d p"

definition new_process :: "int \<Rightarrow> allocated_block \<Rightarrow> mem_state \<Rightarrow> (int \<times> mem_state) control option" where
  "new_process sz junk s =
     (let (ok, s0) = malloc s in
      if \<not> ok then Some (Exit (-5) (0, s0))
      else
        let p = last_pid s0 + 1;
            s1 = s0\<lparr>last_pid := p\<rparr>;
            ab = junk\<lparr>process_name := process_label p, ab_pid := p\<rparr>;
            ab1 = (if sz > 0 then ab\<lparr>ab_size := sz\<rparr> else ab) in
        (case allocate_mem ab1 s1 of
           None \<Rightarrow> None
         | Some (ret, ab2, s2) \<Rightarrow>
             if ret = 1 \<and> allocated_blocks s2 = []
             then Some (Continue (1, s2\<lparr>allocated_blocks := [ab2]\<rparr>))
             else if ret = 1
             then Some (Continue (2, s2\<lparr>allocated_blocks := ab2 # allocated_blocks s2\<rparr>))
             else if ret = -1 then Some (Continue (-1, s2))
             else Some (Continue (3, s2))))"

text \<open>\<open>dispose\<close> is given a pointer into the list: a position. Its loop walks until it meets it.\<close>

fun unlink_at :: "nat \<Rightarrow> allocated_block list \<Rightarrow> allocated_block list option" where
  "unlink_at i [] = None"
| "unlink_at 0 (ab # rest) = Some rest"
| "unlink_at (Suc i) (ab # rest) = map_option ((#) ab) (unlink_at i rest)"

definition dispose :: "nat \<Rightarrow> mem_state \<Rightarrow> (int \<times> mem_state) option" where
  "dispose free_ab s =
     (case allocated_blocks s of
        [] \<Rightarrow> None
      | ab # rest \<Rightarrow>
          if free_ab = 0 then Some (1, s\<lparr>allocated_blocks := rest\<rparr>)
          else do { rest' \<leftarrow> unlink_at (free_ab - 1) rest;
                    Some (2, s\<lparr>allocated_blocks := ab # rest'\<rparr>) })"

fun find_process :: "int \<Rightarrow> allocated_block list \<Rightarrow> nat option" where
  "find_process p [] = None"
| "find_process p (ab # rest) =
     (if ab_pid ab = p then Some 0 else map_option Suc (find_process p rest))"

definition kill_process :: "int \<Rightarrow> mem_state \<Rightarrow> mem_state option" where
  "kill_process p s =
     (case find_process p (allocated_blocks s) of
        None \<Rightarrow> Some s
      | Some i \<Rightarrow> do {
          (_, s1) \<leftarrow> free_mem (allocated_blocks s ! i) s;
          (_, s2) \<leftarrow> dispose i s1;
          Some s2
        })"

datatype usage_line =
  FreeLine int int | LenLine int | UsedLine int string int int

definition display_mem_usage :: "mem_state \<Rightarrow> int \<times> usage_line list" where
  "display_mem_usage s =
     (if free_block s = [] then (-1, [])
      else (0, map (\<lambda>fbt. FreeLine (fb_start_addr fbt) (fb_size fbt)) (free_block s) @
               [LenLine (free_block_len s)] @
               map (\<lambda>ab. UsedLine (ab_pid ab) (process_name ab) (ab_start_addr ab) (ab_size ab))
                 (allocated_blocks s)))"

text \<open>The nodes \<open>do_exit\<close> hands to \<open>free\<close>, in order.\<close>

definition do_exit :: "mem_state \<Rightarrow> allocated_block list \<times> free_block_type list" where
  "do_exit s = (allocated_blocks s, free_block s)"

section \<open>The main loop\<close>

record menu_input =
  choice :: char
  number :: int
  fresh :: allocated_block

definition menu_step :: "menu_input \<Rightarrow> mem_state \<Rightarrow> mem_state control option" where
  "menu_step i s =
     (if choice i = CHR ''1'' then
        do { (_, s1) \<leftarrow> set_mem_size (number i) s; Some (Continue s1) }
      else if choice i = CHR ''2'' then
        do { s1 \<leftarrow> set_algorithm (number i) s; Some (Continue (s1\<lparr>mem_flag := 1\<rparr>)) }
      else if choice i = CHR ''3'' then
        do { c \<leftarrow> new_process (number i) (fresh i) s;
             (case c of
                Continue (_, s1) \<Rightarrow> Some (Continue (s1\<lparr>mem_flag := 1\<rparr>))
              | Exit code (_, s1) \<Rightarrow> Some (Exit code s1)) }
      else if choice i = CHR ''4'' then
        do { s1 \<leftarrow> kill_process (number i) s; Some (Continue (s1\<lparr>mem_flag := 1\<rparr>)) }
      else if choice i = CHR ''5'' then Some (Continue (s\<lparr>mem_flag := 1\<rparr>))
      else if choice i = CHR ''0'' then Some (Exit 0 s)
      else Some (Continue s))"

fun menu_loop :: "menu_input list \<Rightarrow> mem_state \<Rightarrow> mem_state control option" where
  "menu_loop [] s = Some (Continue s)"
| "menu_loop (i # input) s =
     do { c \<leftarrow> menu_step i s;
          (case c of Continue s1 \<Rightarrow> menu_loop input s1 | Exit code s1 \<Rightarrow> Some (Exit code s1)) }"

text \<open>The state in which the loop starts.\<close>

definition mem_main_start :: "bool list \<Rightarrow> mem_state" where
  "mem_main_start ms =
     (let s = (mem_start ms)\<lparr>last_pid := 0\<rparr>; (fb, s1) = init_free_block (mem_size s) s
      in s1\<lparr>free_block := fb\<rparr>)"

definition mem_main :: "bool list \<Rightarrow> menu_input list \<Rightarrow> mem_state control option" where
  "mem_main ms input = menu_loop input (mem_main_start ms)"

section \<open>The invariant of the program\<close>

text \<open>Before the first command the whole memory is one free block: \<open>set_mem_size\<close> relies on
  it. Process numbers are given out once.\<close>

definition proc_inv :: "mem_state \<Rightarrow> bool" where
  "proc_inv s \<longleftrightarrow>
     mem_inv s \<and>
     distinct (map ab_pid (allocated_blocks s)) \<and>
     (\<forall>a \<in> set (allocated_blocks s). 0 < ab_pid a \<and> ab_pid a \<le> last_pid s) \<and> 0 \<le> last_pid s \<and>
     (mem_flag s = 0 \<longrightarrow> allocated_blocks s = [] \<and>
        free_block s = [\<lparr>fb_size = mem_size s, fb_start_addr = 0\<rparr>])"

text \<open>When the very first \<open>malloc\<close> fails the program goes on without any memory, and with a
  count of one free block.\<close>

definition no_memory :: "mem_state \<Rightarrow> bool" where
  "no_memory s \<longleftrightarrow> free_block s = [] \<and> allocated_blocks s = [] \<and> free_block_len s = 1 \<and>
     0 < mem_size s \<and> 0 \<le> last_pid s \<and> ma_algorithm s \<in> {MA_FF, MA_BF, MA_WF}"

definition first_malloc_fails :: "bool list \<Rightarrow> bool" where
  "first_malloc_fails ms \<longleftrightarrow> ms \<noteq> [] \<and> \<not> hd ms"

definition mem_started :: "mem_state \<Rightarrow> bool" where
  "mem_started s \<longleftrightarrow> (\<exists>ms. \<not> first_malloc_fails ms \<and> s = mem_main_start ms)"

definition mem_unstarted :: "mem_state \<Rightarrow> bool" where
  "mem_unstarted s \<longleftrightarrow> (\<exists>ms. first_malloc_fails ms \<and> s = mem_main_start ms)"

text \<open>The size a new process asks for is the number typed in, when that is positive, and
  otherwise what the fresh node holds. A step is one command that asks for a positive size,
  if it asks for any.\<close>

definition positive_request :: "menu_input \<Rightarrow> bool" where
  "positive_request i \<longleftrightarrow> choice i = CHR ''3'' \<longrightarrow> 0 < number i \<or> 0 < ab_size (fresh i)"

definition mem_step :: "mem_state \<Rightarrow> mem_state \<Rightarrow> bool" where
  "mem_step s t \<longleftrightarrow> (\<exists>i. positive_request i \<and> menu_step i s = Some (Continue t))"

lemma mem_main_start_eq:
  "mem_main_start ms = \<lparr>mem_size = 1024, ma_algorithm = 1, last_pid = 0, mem_flag = 0,
     free_block = (if first_malloc_fails ms then [] else [\<lparr>fb_size = 1024, fb_start_addr = 0\<rparr>]),
     free_block_len = 1, allocated_blocks = [], mallocs = tl ms\<rparr>"
  by (cases ms) (auto simp: first_malloc_fails_def mem_main_start_def mem_start_def init_free_block_def
      malloc_def mem_defs)

lemma proc_inv_started: "mem_started s \<Longrightarrow> proc_inv s"
  by (auto simp: mem_started_def mem_main_start_eq proc_inv_def mem_inv_def mem_regions_def free_ordered_def
      coalesced_def layout_Cons within_def mem_defs)

lemma no_memory_unstarted: "mem_unstarted s \<Longrightarrow> no_memory s"
  by (auto simp: mem_unstarted_def mem_main_start_eq no_memory_def mem_defs)

lemma mem_main_cases:
  "if first_malloc_fails ms then no_memory (mem_main_start ms) else proc_inv (mem_main_start ms)"
  using proc_inv_started no_memory_unstarted by (auto simp: mem_started_def mem_unstarted_def)

lemma mem_inv_flag [simp]:
  "mem_inv (s\<lparr>mem_flag := x\<rparr>) = mem_inv s" "mem_inv (s\<lparr>last_pid := y\<rparr>) = mem_inv s"
  by (simp_all add: mem_inv_def mem_regions_def free_ordered_def)

lemma proc_inv_flag: "proc_inv s \<Longrightarrow> proc_inv (s\<lparr>mem_flag := 1\<rparr>)"
  by (simp add: proc_inv_def)

subsection \<open>Settings\<close>

lemma set_mem_size_inv:
  assumes "proc_inv s" and "set_mem_size sz s = Some (r, s')"
  shows "proc_inv s'"
  using assms
  by (auto simp: set_mem_size_def proc_inv_def mem_inv_def mem_regions_def free_ordered_def
      coalesced_def layout_Cons within_def split: if_splits list.splits)

lemma rearrange_policy_cmp:
  "alg \<in> {MA_FF, MA_BF, MA_WF} \<Longrightarrow> rearrange alg s = rearrange_by (policy_cmp alg) s"
  by (auto simp: rearrange_def policy_cmp_def mem_defs)

lemma set_algorithm_spec:
  assumes "proc_inv s" and "set_algorithm alg s = Some s'"
  shows "mem_inv s' \<and> allocated_blocks s' = allocated_blocks s \<and> mem_size s' = mem_size s \<and>
    last_pid s' = last_pid s \<and> mset (free_block s') = mset (free_block s) \<and>
    ma_algorithm s' = (if 1 \<le> alg \<and> alg \<le> 3 then alg else ma_algorithm s)"
proof -
  define s1 where "s1 = (if 1 \<le> alg \<and> alg \<le> 3 then s\<lparr>ma_algorithm := alg\<rparr> else s)"
  have pre: "mem_presorted s1"
    using assms(1) by (auto simp: s1_def proc_inv_def mem_inv_def mem_presorted_def mem_regions_def mem_defs)
  then have "ma_algorithm s1 \<in> {MA_FF, MA_BF, MA_WF}" by (simp add: mem_presorted_def)
  then have r: "rearrange_by (policy_cmp (ma_algorithm s1)) s1 = Some s'"
    using assms(2) rearrange_policy_cmp by (simp add: set_algorithm_def s1_def Let_def)
  have "free_block_len s1 = int (length (free_block s1))" using pre by (simp add: mem_presorted_def)
  with r obtain ms where
    "s' = s1\<lparr>free_block := qsort (policy_cmp (ma_algorithm s1)) (free_block s1), mallocs := ms\<rparr>"
    using rearrange_by_Some by blast
  with rearrange_policy [OF r pre] show ?thesis by (simp add: s1_def)
qed

subsection \<open>Processes\<close>

lemma find_process_Some:
  "find_process p blocks = Some i \<Longrightarrow> i < length blocks \<and> ab_pid (blocks ! i) = p"
  by (induction blocks arbitrary: i) (auto split: if_splits)

lemma find_process_None: "find_process p blocks = None \<longleftrightarrow> p \<notin> ab_pid ` set blocks"
  by (induction blocks) auto

lemma unlink_at_drop: "i < length blocks \<Longrightarrow> unlink_at i blocks = Some (take i blocks @ drop (Suc i) blocks)"
  by (induction i blocks rule: unlink_at.induct) auto

lemma dispose_drop:
  assumes "i < length (allocated_blocks s)"
  shows "\<exists>r. dispose i s = Some (r, s\<lparr>allocated_blocks :=
    take i (allocated_blocks s) @ drop (Suc i) (allocated_blocks s)\<rparr>)"
proof (cases "allocated_blocks s")
  case (Cons ab rest)
  with assms show ?thesis
    by (cases i) (auto simp: dispose_def unlink_at_drop)
qed (use assms in simp)

lemma mem_inv_remove:
  assumes "mem_inv s" and "allocated_blocks s = as1 @ a # as2"
  shows "mem_inv (s\<lparr>allocated_blocks := as1 @ as2\<rparr>)"
  using assms
  by (auto simp: mem_inv_def mem_regions_def free_ordered_def layout_append layout_Cons)

lemma kill_process_spec:
  assumes inv: "proc_inv s" and k: "kill_process p s = Some s'"
    and i: "find_process p (allocated_blocks s) = Some i"
  shows "mem_inv s' \<and> same_globals s s' \<and>
    allocated_blocks s' = take i (allocated_blocks s) @ drop (Suc i) (allocated_blocks s) \<and>
    (free_addrs s' = free_addrs s \<union> addrs (ab_region (allocated_blocks s ! i)) \<or>
     (\<exists>s1. malloc s = (False, s1)) \<and> free_block s' = free_block s)"
proof -
  let ?bs = "allocated_blocks s"
  from find_process_Some [OF i] have len: "i < length ?bs" by simp
  then have split: "?bs = take i ?bs @ ?bs ! i # drop (Suc i) ?bs" by (rule delete_at_append)
  have minv: "mem_inv s" using inv by (simp add: proc_inv_def)
  from k i obtain r s1 where f: "free_mem (?bs ! i) s = Some (r, s1)"
    and d: "Option.bind (dispose i s1) (\<lambda>(_, s2). Some s2) = Some s'"
    by (auto simp: kill_process_def bind_eq_Some_conv)
  note spec = free_mem_spec [OF minv split f]
  then have "i < length (allocated_blocks s1)" using len by simp
  from dispose_drop [OF this] d spec have
    s': "s' = s1\<lparr>allocated_blocks := take i ?bs @ drop (Suc i) ?bs\<rparr>" by auto
  have "r = -1 \<Longrightarrow> \<exists>s1. malloc s = (False, s1)"
    using f by (cases "malloc s") (auto simp: free_mem_def Let_def bind_eq_Some_conv split: if_splits)
  moreover have "r = -1 \<Longrightarrow> mem_inv s1 \<Longrightarrow> mem_inv s'"
    unfolding s' using spec split mem_inv_remove by metis
  ultimately show ?thesis using spec s' by (auto simp: same_globals_def free_addrs_def)
qed

lemma kill_process_inv:
  assumes inv: "proc_inv s" and k: "kill_process p s = Some s'"
  shows "proc_inv (s'\<lparr>mem_flag := 1\<rparr>)"
proof (cases "find_process p (allocated_blocks s)")
  case None
  with k inv show ?thesis by (simp add: kill_process_def proc_inv_flag)
next
  case (Some i)
  note spec = kill_process_spec [OF inv k Some]
  have "distinct (map ab_pid (take i (allocated_blocks s) @ drop (Suc i) (allocated_blocks s)))"
    using inv distinct_delete_at [of "map ab_pid (allocated_blocks s)" i]
    by (simp add: proc_inv_def take_map drop_map)
  moreover have "set (allocated_blocks s') \<subseteq> set (allocated_blocks s)"
    using spec by (auto dest: in_set_takeD in_set_dropD)
  ultimately show ?thesis using spec inv by (auto simp: proc_inv_def same_globals_def)
qed

text \<open>The node \<open>new_process\<close> hands to \<open>allocate_mem\<close>, and the state in which it does.\<close>

definition request :: "int \<Rightarrow> allocated_block \<Rightarrow> int \<Rightarrow> allocated_block" where
  "request sz junk p =
     (let ab = junk\<lparr>process_name := process_label p, ab_pid := p\<rparr>
      in if sz > 0 then ab\<lparr>ab_size := sz\<rparr> else ab)"

lemma request_sel [simp]:
  "ab_pid (request sz junk p) = p" "0 < sz \<Longrightarrow> ab_size (request sz junk p) = sz"
  "sz \<le> 0 \<Longrightarrow> ab_size (request sz junk p) = ab_size junk"
  "process_name (request sz junk p) = process_label p"
  by (simp_all add: request_def Let_def)

lemma request_pos: "0 < ab_size (request sz junk p) \<longleftrightarrow> 0 < sz \<or> 0 < ab_size junk"
  by (cases "0 < sz") auto

lemma new_process_Continue:
  assumes "new_process sz junk s = Some (Continue (r, s'))"
  shows "\<exists>ms ret ab s2.
    allocate_mem (request sz junk (last_pid s + 1)) (s\<lparr>mallocs := ms, last_pid := last_pid s + 1\<rparr>) = Some (ret, ab, s2) \<and>
    s' = (if ret = 1 then s2\<lparr>allocated_blocks := ab # allocated_blocks s2\<rparr> else s2) \<and>
    (mallocs s = [] \<longrightarrow> ms = []) \<and>
    r = (if ret = 1 then (if allocated_blocks s2 = [] then 1 else 2) else if ret = -1 then -1 else 3)"
proof -
  obtain ok s0 where m: "malloc s = (ok, s0)" by fastforce
  then obtain ms where s0: "s0 = s\<lparr>mallocs := ms\<rparr>" "mallocs s = [] \<longrightarrow> ms = []" using malloc_snd by blast
  have ok: ok using assms m by (auto simp: new_process_def split: if_splits)
  note np = assms [unfolded new_process_def m Let_def prod.case, folded request_def [unfolded Let_def]]
  from np ok s0 obtain ret ab s2 where
    a: "allocate_mem (request sz junk (last_pid s + 1)) (s\<lparr>mallocs := ms, last_pid := last_pid s + 1\<rparr>)
      = Some (ret, ab, s2)"
    by (auto split: option.splits)
  with np ok s0 have
    "s' = (if ret = 1 then s2\<lparr>allocated_blocks := ab # allocated_blocks s2\<rparr> else s2)"
    "r = (if ret = 1 then (if allocated_blocks s2 = [] then 1 else 2) else if ret = -1 then -1 else 3)"
    by (auto split: if_splits)
  with a s0 show ?thesis by blast
qed

lemma new_process_inv:
  assumes inv: "proc_inv s" and sz: "0 < sz \<or> 0 < ab_size junk"
    and n: "new_process sz junk s = Some (Continue (r, s'))"
  shows "proc_inv (s'\<lparr>mem_flag := 1\<rparr>) \<and> (r = 1 \<or> r = 2 \<or> r = -1) \<and>
    last_pid s' = last_pid s + 1 \<and> mem_size s' = mem_size s"
proof -
  from new_process_Continue [OF n] obtain ms ret ab s2 where
    a: "allocate_mem (request sz junk (last_pid s + 1)) (s\<lparr>mallocs := ms, last_pid := last_pid s + 1\<rparr>)
      = Some (ret, ab, s2)"
    and s': "s' = (if ret = 1 then s2\<lparr>allocated_blocks := ab # allocated_blocks s2\<rparr> else s2)"
    and r: "r = (if ret = 1 then (if allocated_blocks s2 = [] then 1 else 2) else if ret = -1 then -1 else 3)"
    by blast
  have minv: "mem_inv (s\<lparr>mallocs := ms, last_pid := last_pid s + 1\<rparr>)" using inv by (simp add: proc_inv_def)
  have "0 < ab_size (request sz junk (last_pid s + 1))" using sz by (simp add: request_pos)
  note res = allocate_mem_inv [OF minv this a]
  have pids: "distinct (map ab_pid (allocated_blocks s))" "0 \<le> last_pid s"
    "\<forall>a \<in> set (allocated_blocks s). 0 < ab_pid a \<and> ab_pid a \<le> last_pid s"
    using inv by (simp_all add: proc_inv_def)
  have glob: "last_pid s2 = last_pid s + 1" "mem_size s2 = mem_size s" using res by (simp_all add: same_globals_def)
  show ?thesis
  proof (cases "ret = 1")
    case True
    with res pids glob s' r show ?thesis by (fastforce simp: proc_inv_def)
  next
    case False
    with res have inv2: "mem_inv s2" "ret = -1" and
      "allocated_blocks s2 = allocated_blocks s \<or> compacted (allocated_blocks s) (allocated_blocks s2)"
      by auto
    then have "map ab_pid (allocated_blocks s2) = map ab_pid (allocated_blocks s)"
      using compacted_same(2) by auto
    moreover from this have "ab_pid ` set (allocated_blocks s2) = ab_pid ` set (allocated_blocks s)"
      by (metis set_map)
    then have "\<forall>x \<in> ab_pid ` set (allocated_blocks s2). 0 < x \<and> x \<le> last_pid s" using pids(3) by simp
    ultimately show ?thesis using pids glob s' r False inv2
      by (auto simp: proc_inv_def)
  qed
qed

text \<open>One command: it keeps the invariant, gives out at most one process number, and the size
  of the memory is what it was or the number typed in; once the flag is set it stays.\<close>

lemma menu_step_spec:
  assumes inv: "proc_inv s" and pos: "positive_request i" and step: "menu_step i s = Some (Continue t)"
  shows "proc_inv t \<and> last_pid t \<le> last_pid s + 1 \<and> (mem_size t = mem_size s \<or> mem_flag s = 0 \<and> mem_size t = number i)"
proof -
  have alg: "proc_inv (s'\<lparr>mem_flag := 1\<rparr>) \<and> last_pid s' = last_pid s \<and> mem_size s' = mem_size s"
    if "set_algorithm n s = Some s'" for n s'
    using set_algorithm_spec [OF inv that] inv by (auto simp: proc_inv_def)
  have kill: "last_pid u = last_pid s \<and> mem_size u = mem_size s" if "kill_process p s = Some u" for p u
    using that kill_process_spec [OF inv that]
    by (cases "find_process p (allocated_blocks s)") (auto simp: kill_process_def same_globals_def)
  have size: "last_pid u = last_pid s" "mem_size u \<noteq> mem_size s \<Longrightarrow> mem_flag s = 0"
    "mem_size u \<noteq> mem_size s \<Longrightarrow> mem_size u = n" if "set_mem_size n s = Some (r, u)" for n r u
    using that by (auto simp: set_mem_size_def split: if_splits list.splits)
  show ?thesis
  proof (cases "choice i = CHR ''3''")
    case True
    then obtain r s1 where n: "new_process (number i) (fresh i) s = Some (Continue (r, s1))"
      and t: "t = s1\<lparr>mem_flag := 1\<rparr>"
      using step by (cases "new_process (number i) (fresh i) s"; cases "the (new_process (number i) (fresh i) s)")
        (auto simp: menu_step_def)
    have "0 < number i \<or> 0 < ab_size (fresh i)" using pos True by (simp add: positive_request_def)
    from new_process_inv [OF inv this n] t show ?thesis by simp
  next
    case False
    then show ?thesis
      using step set_mem_size_inv [OF inv] alg kill_process_inv [OF inv] proc_inv_flag [OF inv] inv kill size
      by (auto simp: menu_step_def bind_eq_Some_conv split: if_splits)
  qed
qed

lemma menu_step_no_memory:
  assumes inv: "no_memory s" and pos: "positive_request i" and step: "menu_step i s = Some (Continue t)"
  shows "no_memory t \<and> last_pid t \<le> last_pid s + 1 \<and> mem_size t = mem_size s"
proof (cases "choice i = CHR ''3''")
  case True
  then obtain r s1 where n: "new_process (number i) (fresh i) s = Some (Continue (r, s1))"
    and t: "t = s1\<lparr>mem_flag := 1\<rparr>"
    using step by (cases "new_process (number i) (fresh i) s"; cases "the (new_process (number i) (fresh i) s)")
      (auto simp: menu_step_def)
  let ?req = "request (number i) (fresh i) (last_pid s + 1)"
  have "0 < ab_size ?req" using pos True by (simp add: positive_request_def request_pos)
  then have "allocate_mem ?req (s\<lparr>mallocs := ms, last_pid := last_pid s + 1\<rparr>) =
      Some (-1, ?req, s\<lparr>mallocs := ms, last_pid := last_pid s + 1\<rparr>)" for ms
    using inv by (intro allocate_mem_short) (simp_all add: no_memory_def)
  with new_process_Continue [OF n] t inv show ?thesis by (auto simp: no_memory_def)
next
  case False
  have lost: "rearrange_by cmp u = None" if "free_block u = []" "free_block_len u = 1" for cmp u
    using that by (cases "malloc u") (simp add: rearrange_by_def)
  have "set_algorithm n s = None" for n
    using inv by (auto simp: set_algorithm_def rearrange_def lost no_memory_def mem_defs Let_def)
  with False step inv show ?thesis
    by (auto simp: menu_step_def no_memory_def set_mem_size_def kill_process_def bind_eq_Some_conv split: if_splits)
qed

interpretation allocator: step_invariant mem_started mem_step proc_inv
  by unfold_locales (use menu_step_spec in \<open>auto intro: proc_inv_started simp: mem_step_def\<close>)

interpretation without_memory: step_invariant mem_unstarted mem_step no_memory
  by unfold_locales (use menu_step_no_memory in \<open>auto intro: no_memory_unstarted simp: mem_step_def\<close>)

lemma menu_loop_ConsE:
  assumes "menu_loop (i # input) s = Some (Continue t)"
  obtains u where "menu_step i s = Some (Continue u)" and "menu_loop input u = Some (Continue t)"
proof -
  from assms obtain c where c: "menu_step i s = Some c"
    and rest: "(case c of Continue s1 \<Rightarrow> menu_loop input s1 | Exit code s1 \<Rightarrow> Some (Exit code s1)) = Some (Continue t)"
    by (auto simp: bind_eq_Some_conv)
  with that show thesis by (cases c) simp_all
qed

lemma menu_loop_steps:
  "menu_loop input s = Some (Continue t) \<Longrightarrow> \<forall>i \<in> set input. positive_request i \<Longrightarrow> mem_step\<^sup>*\<^sup>* s t"
proof (induction input arbitrary: s)
  case (Cons i input)
  from Cons.prems(1) obtain u where "menu_step i s = Some (Continue u)" "menu_loop input u = Some (Continue t)"
    by (elim menu_loop_ConsE)
  moreover from this Cons.prems have "mem_step s u" by (auto simp: mem_step_def)
  ultimately show ?case using Cons by (auto intro: converse_rtranclp_into_rtranclp)
qed simp

text \<open>The states between the commands of a run of the program.\<close>

lemma mem_main_inv:
  assumes "mem_main ms input = Some (Continue s)" and "\<forall>i \<in> set input. positive_request i"
  shows "if first_malloc_fails ms then no_memory s else proc_inv s"
  using menu_loop_steps [OF assms(1) [unfolded mem_main_def] assms(2)]
    allocator.inv_reachable [of "mem_main_start ms" s] without_memory.inv_reachable [of "mem_main_start ms" s]
  by (auto simp: mem_started_def mem_unstarted_def)

lemma menu_loop_bounds:
  assumes "menu_loop input s = Some (Continue t)" and "\<forall>i \<in> set input. positive_request i"
    and "proc_inv s \<or> no_memory s"
  shows "last_pid t \<le> last_pid s + int (length input) \<and> (mem_size t = mem_size s \<or> mem_size t \<in> number ` set input)"
  using assms
proof (induction input arbitrary: s)
  case (Cons i input)
  from Cons.prems(1) obtain u where i: "menu_step i s = Some (Continue u)" and u: "menu_loop input u = Some (Continue t)"
    by (elim menu_loop_ConsE)
  have "(proc_inv u \<or> no_memory u) \<and> last_pid u \<le> last_pid s + 1 \<and> (mem_size u = mem_size s \<or> mem_size u = number i)"
    using Cons.prems(2,3) menu_step_spec [OF _ _ i] menu_step_no_memory [OF _ _ i] by auto
  with Cons.IH [OF u] Cons.prems(2) show ?case by auto
qed simp

lemma mem_main_bounds:
  assumes "mem_main ms input = Some (Continue s)" and "\<forall>i \<in> set input. positive_request i"
  shows "last_pid s \<le> int (length input)" and "mem_size s = DEFAULT_MEM_SIZE \<or> mem_size s \<in> number ` set input"
proof -
  have "proc_inv (mem_main_start ms) \<or> no_memory (mem_main_start ms)"
    using mem_main_cases [of ms] by (auto split: if_splits)
  moreover have "last_pid (mem_main_start ms) = 0" "mem_size (mem_main_start ms) = DEFAULT_MEM_SIZE"
    by (simp_all add: mem_main_start_eq mem_defs)
  ultimately show "last_pid s \<le> int (length input)"
    and "mem_size s = DEFAULT_MEM_SIZE \<or> mem_size s \<in> number ` set input"
    using menu_loop_bounds [OF assms(1) [unfolded mem_main_def] assms(2)] by auto
qed

lemma menu_loop_append:
  "menu_loop (xs @ ys) s =
     Option.bind (menu_loop xs s)
       (\<lambda>r. case r of Continue t \<Rightarrow> menu_loop ys t | Exit code t \<Rightarrow> Some (Exit code t))"
proof (induction xs arbitrary: s)
  case (Cons i xs)
  show ?case
  proof (cases "menu_step i s")
    case (Some c)
    with Cons show ?thesis by (cases c) simp_all
  qed simp
qed simp

end
