(* ===== verification/Mem_Props.thy ===== *)
theory Mem_Props
  imports Mem_Menu
begin

text \<open>
  The properties of the partition allocator of \<^verbatim>\<open>src/2lab/3/3-1.c\<close>, with their witnesses.
\<close>

section \<open>Lemmas the properties share\<close>

text \<open>The block the search loop finds is the best one by the policy in force.\<close>

lemma find_fit_policy:
  assumes inv: "mem_inv s" and f: "find_fit n 0 (free_block s) = Some (i, b)"
    and c: "c \<in> set (free_block s)" "n \<le> fb_size c"
  shows "policy_cmp (ma_algorithm s) b c \<le> 0"
proof -
  from find_fit_Some [OF f] have i: "i < length (free_block s)" "free_block s ! i = b"
    and early: "\<forall>l < i. fb_size (free_block s ! l) < n" by auto
  from c(1) obtain k where k: "k < length (free_block s)" "free_block s ! k = c"
    by (auto simp: in_set_conv_nth)
  with c(2) early have "i \<le> k" by (metis linorder_not_less)
  moreover have "policy_cmp alg c c \<le> 0" for alg
    by (simp add: policy_cmp_def)
  moreover have "sorted_wrt (\<lambda>a b. policy_cmp (ma_algorithm s) a b \<le> 0) (free_block s)"
    using inv by (simp add: mem_inv_def free_ordered_def)
  ultimately show ?thesis using i k
    by (cases "i = k") (auto simp: sorted_wrt_iff_nth_less)
qed

lemma allocate_mem_fits:
  assumes "mem_inv s" and "0 < ab_size ab" and "allocate_mem ab s = Some (r, ab', s')"
    and "c \<in> set (free_block s)" and "ab_size ab \<le> fb_size c"
  obtains i b where "find_fit (ab_size ab) 0 (free_block s) = Some (i, b)"
    and "i < length (free_block s)" and "free_block s ! i = b" and "ab_size ab \<le> fb_size b"
    and "take_block ab i b s = Some (r, ab', s')"
proof -
  have "find_fit (ab_size ab) 0 (free_block s) \<noteq> None"
    using assms(4,5) by (auto simp: find_fit_None not_less simp del: not_None_eq)
  then obtain i b where f: "find_fit (ab_size ab) 0 (free_block s) = Some (i, b)" by auto
  with find_fit_Some [OF f] assms(3) show thesis
    by (intro that [of i b]) (auto simp: allocate_mem_fit)
qed

lemma allocate_mem_refines_aux:
  assumes "mem_inv s" and "0 < ab_size ab" and "allocate_mem ab s = Some (1, ab', s')"
  shows "\<exists>b taken. b \<in> set (free_block s) \<and> ab_size ab \<le> fb_size b \<and>
    taken = (if fb_size b - ab_size ab \<le> MIN_SLICE then fb_size b else ab_size ab) \<and>
    ab' = ab\<lparr>ab_start_addr := fb_start_addr b\<rparr> \<and>
    addrs (fb_start_addr b, taken) \<subseteq> free_addrs s \<and>
    free_addrs s' = free_addrs s - addrs (fb_start_addr b, taken) \<and>
    total_free (free_block s') = total_free (free_block s) - taken \<and>
    allocated_blocks s' = allocated_blocks s \<and>
    mem_inv (s'\<lparr>allocated_blocks := ab' # allocated_blocks s\<rparr>)"
proof -
  have "allocate_mem ab s \<noteq> Some (-1, ab', s')" using assms(3) by simp
  then have "find_fit (ab_size ab) 0 (free_block s) \<noteq> None"
    using allocate_mem_no_fit [OF assms(1,2)] assms(3) by (auto simp del: not_None_eq)
  then obtain i b where f: "find_fit (ab_size ab) 0 (free_block s) = Some (i, b)" by auto
  with find_fit_Some [OF f] have i: "i < length (free_block s)" "free_block s ! i = b" "ab_size ab \<le> fb_size b"
    by auto
  from f assms(3) have t: "take_block ab i b s = Some (1, ab', s')" by (simp add: allocate_mem_fit)
  define taken where "taken = (if fb_size b - ab_size ab \<le> MIN_SLICE then fb_size b else ab_size ab)"
  note frees = take_block_frees [OF assms(1) i(1,2) assms(2) i(3) t, folded taken_def]
  have "addrs (fb_start_addr b, taken) \<subseteq> free_addrs s"
    using free_addrs_at(1) [OF assms(1) i(1)] i by (auto simp: taken_def addrs_def fb_region_def split: if_splits)
  moreover have "b \<in> set (free_block s)" using i by auto
  ultimately show ?thesis
    using i(3) frees take_block_inv [OF assms(1) i(1,2) assms(2) i(3) t] taken_def
    by (intro exI [of _ b] exI [of _ taken]) auto
qed

text \<open>The sizes of some of the blocks, and their number, against the size of the memory.\<close>

lemma layout_part_sum:
  assumes "layout m rs'" and "0 \<le> m" and "mset rs \<subseteq># mset rs'"
  shows "0 \<le> sum_list (map snd rs)" and "sum_list (map snd rs) \<le> m"
proof -
  obtain q where "mset rs' = mset rs + mset q"
    using assms(3) by (metis ex_mset subset_mset.le_iff_add)
  then have p: "mset rs' = mset (rs @ q)" by simp
  then have "layout m (rs @ q)" using assms(1) layout_mset by metis
  then have l: "layout m rs" by (simp add: layout_append)
  then show "0 \<le> sum_list (map snd rs)" by (fastforce simp: layout_def within_def intro!: sum_list_nonneg)
  show "sum_list (map snd rs) \<le> m" using l assms(2) by (rule layout_sum)
qed

lemma layout_length: "layout m rs \<Longrightarrow> 0 \<le> m \<Longrightarrow> int (length rs) \<le> m"
proof -
  assume l: "layout m rs" "0 \<le> m"
  then have "\<forall>r \<in> set rs. 1 \<le> snd r" by (auto simp: layout_def within_def)
  then have "int (length rs) \<le> sum_list (map snd rs)" by (induction rs) auto
  with layout_sum [OF l] show "int (length rs) \<le> m" by linarith
qed

lemma kill_process_enough:
  assumes "proc_inv s" and "mallocs s = []"
  shows "\<exists>s'. kill_process p s = Some s'"
proof (cases "find_process p (allocated_blocks s)")
  case (Some i)
  let ?bs = "allocated_blocks s"
  have inv: "mem_inv s" using assms(1) by (simp add: proc_inv_def)
  obtain s1 where f: "free_mem (?bs ! i) s = Some (1, s1)" using free_mem_enough [OF inv assms(2)] by blast
  from find_process_Some [OF Some] have i: "i < length ?bs" by simp
  from free_mem_spec [OF inv delete_at_append [OF i] f] i have "i < length (allocated_blocks s1)" by simp
  from dispose_drop [OF this] f Some show ?thesis by (auto simp: kill_process_def)
qed (simp add: kill_process_def)

lemma new_process_takes:
  assumes inv: "proc_inv s" and sz: "0 < sz" and ms: "mallocs s = []"
    and n: "new_process sz junk s = Some (Continue (r, s'))" and r: "r \<noteq> -1"
  shows "\<exists>b taken. b \<in> set (free_block s) \<and> sz \<le> fb_size b \<and>
    taken = (if fb_size b - sz \<le> MIN_SLICE then fb_size b else sz) \<and>
    allocated_blocks s' = (request sz junk (last_pid s + 1))\<lparr>ab_start_addr := fb_start_addr b\<rparr> # allocated_blocks s \<and>
    last_pid s' = last_pid s + 1 \<and> mallocs s' = [] \<and>
    addrs (fb_start_addr b, taken) \<subseteq> free_addrs s \<and>
    free_addrs s' = free_addrs s - addrs (fb_start_addr b, taken)"
proof -
  let ?req = "request sz junk (last_pid s + 1)"
  let ?s = "s\<lparr>mallocs := [], last_pid := last_pid s + 1\<rparr>"
  from new_process_Continue [OF n] ms new_process_inv [OF inv disjI1 [OF sz] n] r obtain ab s2 where
    a: "allocate_mem ?req ?s = Some (1, ab, s2)"
    and s': "s' = s2\<lparr>allocated_blocks := ab # allocated_blocks s2\<rparr>"
    by (auto split: if_splits)
  have minv: "mem_inv ?s" using inv by (simp add: proc_inv_def)
  have pos: "0 < ab_size ?req" using sz by simp
  have "find_fit (ab_size ?req) 0 (free_block ?s) \<noteq> None"
    using allocate_mem_no_fit [OF minv pos a] by (auto simp del: not_None_eq)
  then obtain i b where f: "find_fit (ab_size ?req) 0 (free_block ?s) = Some (i, b)" by auto
  have "free_block_len ?s = int (length (free_block ?s))" using minv by (simp add: mem_inv_def)
  from take_block_enough [OF _ this, of ?req i b] f a have "mallocs s2 = []" by (auto simp: allocate_mem_fit)
  moreover from allocate_mem_inv [OF minv pos a] have
    "last_pid s2 = last_pid s + 1" "allocated_blocks s2 = allocated_blocks s" by (auto simp: same_globals_def)
  moreover have size: "ab_size ?req = sz" using sz by simp
  from allocate_mem_refines_aux [OF minv pos a, unfolded size] obtain c taken where
    "c \<in> set (free_block s)" "sz \<le> fb_size c" "taken = (if fb_size c - sz \<le> MIN_SLICE then fb_size c else sz)"
    "ab = ?req\<lparr>ab_start_addr := fb_start_addr c\<rparr>" "addrs (fb_start_addr c, taken) \<subseteq> free_addrs s"
    "free_addrs s2 = free_addrs s - addrs (fb_start_addr c, taken)" by (auto simp: free_addrs_def)
  ultimately show ?thesis using s'
    by (intro exI [of _ c] exI [of _ taken]) (simp add: free_addrs_def)
qed

text \<open>An empty node, and the command that asks for \<open>n\<close> bytes or kills process \<open>n\<close>.\<close>

definition no_block :: allocated_block where
  "no_block = \<lparr>ab_pid = 0, ab_size = 0, ab_start_addr = 0, process_name = []\<rparr>"

definition cmd :: "char \<Rightarrow> int \<Rightarrow> menu_input" where
  "cmd c n = \<lparr>choice = c, number = n, fresh = no_block\<rparr>"

section \<open>Properties\<close>

text \<open>C4. The state after any sequence of commands that neither ends nor crashes the program, as
  long as every process asks for a positive size: every free and every allocated block lies inside the memory, no two blocks share an
  address, together they have no more bytes than the memory, no two free blocks touch, the
  free list is sorted by the algorithm in force, no two processes have the same number, and
  the program's count of the free blocks is right; only when the \<open>malloc\<close> of the first free
  block failed does it count one where there is none. A process asks for the number typed in
  or, when that is not positive, for what the fresh node holds;
  \<open>new_process_uninitialised\<close> shows a run with a negative size there, for which all this fails.\<close>

theorem mem_reachable_safe:
  assumes "mem_main ms input = Some (Continue s)" and "\<forall>i \<in> set input. positive_request i"
  shows "layout (mem_size s) (mem_regions s) \<and>
    total_free (free_block s) + sum_list (map ab_size (allocated_blocks s)) \<le> mem_size s \<and>
    coalesced (free_block s) \<and> free_ordered s \<and>
    distinct (map ab_pid (allocated_blocks s)) \<and>
    (if first_malloc_fails ms then free_block s = [] \<and> allocated_blocks s = [] \<and> free_block_len s = 1
     else free_block_len s = int (length (free_block s)))"
proof (cases "first_malloc_fails ms")
  case True
  with mem_main_inv [OF assms] show ?thesis
    by (simp add: no_memory_def mem_regions_def coalesced_def free_ordered_def)
next
  case False
  with mem_main_inv [OF assms] have "proc_inv s" by simp
  with False show ?thesis using mem_inv_sum [of s] by (simp add: proc_inv_def mem_inv_def)
qed

theorem mem_reachable_safe_witness:
  "\<exists>s. mem_main [True] [cmd CHR ''3'' 100, cmd CHR ''2'' 3] = Some (Continue s) \<and> allocated_blocks s \<noteq> [] \<and>
     layout (mem_size s) (mem_regions s)"
proof -
  define s where "s = \<lparr>mem_size = 1024, ma_algorithm = 3, last_pid = 1, mem_flag = 1,
     free_block = [\<lparr>fb_size = 924, fb_start_addr = 100\<rparr>], free_block_len = 1,
     allocated_blocks = [\<lparr>ab_pid = 1, ab_size = 100, ab_start_addr = 0, process_name = ''PROCESS-01''\<rparr>],
     mallocs = []\<rparr>"
  have m: "mem_main [True] [cmd CHR ''3'' 100, cmd CHR ''2'' 3] = Some (Continue s)"
    unfolding s_def by code_simp
  have "\<forall>i \<in> set [cmd CHR ''3'' 100, cmd CHR ''2'' 3]. positive_request i"
    by (simp add: positive_request_def cmd_def)
  from mem_reachable_safe [OF m this] m show ?thesis by (auto simp: s_def)
qed

text \<open>C5. When some free block is large enough, \<open>allocate_mem\<close> answers 1 and places the request
  at the start of a free block that fits: with first fit the one of lowest address, with best
  fit a smallest one, with worst fit a largest one.\<close>

theorem allocate_mem_policy:
  assumes "mem_inv s" and "0 < ab_size ab" and "allocate_mem ab s = Some (r, ab', s')"
    and "\<exists>c \<in> set (free_block s). ab_size ab \<le> fb_size c"
  shows "r = 1 \<and> (\<exists>b \<in> set (free_block s). ab_size ab \<le> fb_size b \<and>
    ab' = ab\<lparr>ab_start_addr := fb_start_addr b\<rparr> \<and>
    (\<forall>c \<in> set (free_block s). ab_size ab \<le> fb_size c \<longrightarrow>
       (ma_algorithm s = MA_FF \<longrightarrow> fb_start_addr b \<le> fb_start_addr c) \<and>
       (ma_algorithm s = MA_BF \<longrightarrow> fb_size b \<le> fb_size c) \<and>
       (ma_algorithm s = MA_WF \<longrightarrow> fb_size c \<le> fb_size b)))"
proof -
  from assms(4) obtain c where c: "c \<in> set (free_block s)" "ab_size ab \<le> fb_size c" by blast
  obtain i b where f: "find_fit (ab_size ab) 0 (free_block s) = Some (i, b)"
    and i: "i < length (free_block s)" "free_block s ! i = b" "ab_size ab \<le> fb_size b"
    and t: "take_block ab i b s = Some (r, ab', s')"
    by (rule allocate_mem_fits [OF assms(1-3) c])
  have "r = 1 \<and> ab' = ab\<lparr>ab_start_addr := fb_start_addr b\<rparr>"
    using take_block_inv [OF assms(1) i(1,2) assms(2) i(3) t] by simp
  moreover have "(ma_algorithm s = MA_FF \<longrightarrow> fb_start_addr b \<le> fb_start_addr c) \<and>
      (ma_algorithm s = MA_BF \<longrightarrow> fb_size b \<le> fb_size c) \<and>
      (ma_algorithm s = MA_WF \<longrightarrow> fb_size c \<le> fb_size b)"
    if "c \<in> set (free_block s)" "ab_size ab \<le> fb_size c" for c
    using find_fit_policy [OF assms(1) f that] by (auto simp: policy_cmp_def mem_defs)
  moreover have "b \<in> set (free_block s)" using i(1,2) by auto
  ultimately show ?thesis using i(3) by blast
qed

definition demo_state :: "int \<Rightarrow> mem_state" where
  "demo_state alg = \<lparr>mem_size = 200, ma_algorithm = alg, last_pid = 1, mem_flag = 1,
     free_block = [\<lparr>fb_size = 30, fb_start_addr = 0\<rparr>, \<lparr>fb_size = 60, fb_start_addr = 100\<rparr>],
     free_block_len = 2,
     allocated_blocks = [\<lparr>ab_pid = 1, ab_size = 70, ab_start_addr = 30, process_name = ''PROCESS-01''\<rparr>],
     mallocs = []\<rparr>"

lemma demo_state_inv: "mem_inv (demo_state MA_BF)" "mem_inv (demo_state MA_FF)"
  by (simp_all add: demo_state_def mem_inv_def mem_regions_def free_ordered_def coalesced_def layout_def
      within_def apart_def fb_region_def ab_region_def policy_cmp_def mem_defs)

theorem allocate_mem_policy_witness:
  "\<exists>s'. allocate_mem (no_block\<lparr>ab_size := 40\<rparr>) (demo_state MA_BF) =
     Some (1, no_block\<lparr>ab_size := 40, ab_start_addr := 100\<rparr>, s')"
proof -
  let ?ab = "no_block\<lparr>ab_size := 40\<rparr>"
  obtain r ab s' where a: "allocate_mem ?ab (demo_state MA_BF) = Some (r, ab, s')"
    using allocate_mem_enough [OF demo_state_inv(1), of ?ab]
    by (cases "allocate_mem ?ab (demo_state MA_BF)") (auto simp: demo_state_def no_block_def)
  from allocate_mem_policy [OF demo_state_inv(1) _ a] have "r = 1"
    "\<exists>b \<in> set (free_block (demo_state MA_BF)). 40 \<le> fb_size b \<and> ab = ?ab\<lparr>ab_start_addr := fb_start_addr b\<rparr>"
    by (auto simp: demo_state_def no_block_def)
  with a show ?thesis by (auto simp: demo_state_def)
qed

text \<open>C14. A successful allocation against the set of free addresses: the request is placed at
  the start of a free block that is large enough; afterwards exactly the addresses of the new
  block are gone from the free ones or, when at most MIN_SLICE bytes of that free block would
  be left over, those of the whole free block; the total of the free bytes falls by just as
  much, no other process has moved and the layout is still sound.\<close>

theorem allocate_mem_refines:
  assumes "mem_inv s" and "0 < ab_size ab" and "allocate_mem ab s = Some (1, ab', s')"
  shows "\<exists>b taken. b \<in> set (free_block s) \<and> ab_size ab \<le> fb_size b \<and>
    taken = (if fb_size b - ab_size ab \<le> MIN_SLICE then fb_size b else ab_size ab) \<and>
    ab' = ab\<lparr>ab_start_addr := fb_start_addr b\<rparr> \<and>
    addrs (fb_start_addr b, taken) \<subseteq> free_addrs s \<and>
    free_addrs s' = free_addrs s - addrs (fb_start_addr b, taken) \<and>
    total_free (free_block s') = total_free (free_block s) - taken \<and>
    allocated_blocks s' = allocated_blocks s \<and>
    mem_inv (s'\<lparr>allocated_blocks := ab' # allocated_blocks s\<rparr>)"
  using assms by (rule allocate_mem_refines_aux)

theorem allocate_mem_refines_witness:
  "\<exists>ab' s'. allocate_mem (no_block\<lparr>ab_size := 25\<rparr>) (demo_state MA_FF) = Some (1, ab', s') \<and>
     mem_inv (s'\<lparr>allocated_blocks := ab' # allocated_blocks (demo_state MA_FF)\<rparr>)"
proof -
  let ?ab = "no_block\<lparr>ab_size := 25\<rparr>"
  have a: "allocate_mem ?ab (demo_state MA_FF) = Some (1, no_block\<lparr>ab_size := 25\<rparr>,
    (demo_state MA_FF)\<lparr>free_block := [\<lparr>fb_size = 60, fb_start_addr = 100\<rparr>], free_block_len := 1\<rparr>)"
    by code_simp
  have "0 < ab_size ?ab" by simp
  from allocate_mem_refines [OF demo_state_inv(2) this a] a show ?thesis by blast
qed

text \<open>C15. When \<open>malloc\<close> does not fail, a request of positive size returns, except in one case:
  no free block is large enough, the free blocks together are, and no process holds any
  memory. Then \<open>compact_memory\<close> reports success without changing anything and
  \<open>allocate_mem\<close> calls itself for ever.\<close>

theorem allocate_mem_termination:
  assumes "mem_inv s" and "0 < ab_size ab" and "mallocs s = []"
  shows "allocate_mem ab s = None \<longleftrightarrow>
    (\<forall>b \<in> set (free_block s). fb_size b < ab_size ab) \<and>
    ab_size ab \<le> sum_list (map fb_size (free_block s)) \<and> allocated_blocks s = []"
  using allocate_mem_enough [OF assms] by (simp add: find_fit_None total_free_sum)

theorem allocate_mem_termination_witness:
  "allocate_mem (no_block\<lparr>ab_size := 70\<rparr>) ((demo_state MA_FF)\<lparr>allocated_blocks := []\<rparr>) = None"
proof -
  let ?s = "(demo_state MA_FF)\<lparr>allocated_blocks := []\<rparr>"
  have "mem_inv ?s" using demo_state_inv(2) mem_inv_remove [of "demo_state MA_FF" "[]" _ "[]"]
    by (simp add: demo_state_def)
  moreover have "0 < ab_size (no_block\<lparr>ab_size := 70\<rparr>)" "mallocs ?s = []" by (simp_all add: demo_state_def)
  ultimately show ?thesis
    using allocate_mem_termination [of ?s "no_block\<lparr>ab_size := 70\<rparr>"] by (simp add: demo_state_def)
qed

text \<open>C16. When compaction is what makes room for a request, the request fails all the same:
  \<open>allocate_mem\<close> throws the answer of the recursive call away and returns -1, after the
  free list has lost the memory of the request to a block that no process gets.\<close>

theorem allocate_mem_compaction_lost:
  assumes "mem_inv s" and "0 < ab_size ab" and "mallocs s = []"
    and "\<forall>b \<in> set (free_block s). fb_size b < ab_size ab"
    and "ab_size ab \<le> total_free (free_block s)" and "allocated_blocks s \<noteq> []"
  shows "\<exists>ab' s'. allocate_mem ab s = Some (-1, ab', s') \<and>
    compacted (allocated_blocks s) (allocated_blocks s') \<and>
    total_free (free_block s') + sum_list (map ab_size (allocated_blocks s')) + ab_size ab \<le> mem_size s'"
proof -
  have nofit: "find_fit (ab_size ab) 0 (free_block s) = None" using assms(4) by (simp add: find_fit_None)
  obtain s1 where c: "compact_memory s = (1, s1)" and ms: "mallocs s1 = []"
    using compact_memory_enough [OF assms(3)] by (cases "compact_memory s") auto
  note spec = compact_memory_spec [OF assms(1,6) c]
  then have inv1: "mem_inv s1" by simp
  obtain b where b: "free_block s1 = [b]" "ab_size ab \<le> fb_size b"
    and eq: "allocate_mem ab s = Option.bind (take_block ab 0 b s1) (\<lambda>(_, ab', s2). Some (-1, ab', s2))"
    using allocate_mem_compact [OF assms(1,2,6) nofit assms(5) c] by blast
  have "free_block_len s1 = int (length (free_block s1))" using inv1 by (simp add: mem_inv_def)
  from take_block_enough [OF ms this] obtain ab' s' where t: "take_block ab 0 b s1 = Some (1, ab', s')"
    by blast
  have z: "0 < length (free_block s1)" "free_block s1 ! 0 = b" using b by simp_all
  note tb = take_block_inv [OF inv1 z assms(2) b(2) t]
  then have "mem_inv (s'\<lparr>allocated_blocks := ab' # allocated_blocks s'\<rparr>)" by blast
  from mem_inv_sum [OF this] tb have
    "total_free (free_block s') + (ab_size ab + sum_list (map ab_size (allocated_blocks s'))) \<le> mem_size s'"
    by auto
  moreover have "compacted (allocated_blocks s) (allocated_blocks s')" using spec tb by auto
  ultimately show ?thesis using eq t by (intro exI [of _ ab'] exI [of _ s']) simp
qed

theorem allocate_mem_compaction_lost_witness:
  "\<exists>ab' s'. allocate_mem (no_block\<lparr>ab_size := 70\<rparr>) (demo_state MA_FF) = Some (-1, ab', s') \<and>
     total_free (free_block s') + sum_list (map ab_size (allocated_blocks s')) + 70 \<le> mem_size s'"
  using allocate_mem_compaction_lost [OF demo_state_inv(2), of "no_block\<lparr>ab_size := 70\<rparr>"]
  by (auto simp: demo_state_def)

text \<open>C17. \<open>compact_memory\<close>, where there are processes and \<open>malloc\<close> does not fail: it changes
  nothing of a process but its address, the blocks lie end to end from address 0 in the
  order of their old addresses, and what is left of the memory is one free block behind
  them.\<close>

theorem compact_memory_correct:
  assumes "mem_inv s" and "allocated_blocks s \<noteq> []" and "mallocs s = []"
  shows "\<exists>s'. compact_memory s = (1, s') \<and> mem_inv s' \<and> same_globals s s' \<and>
    compacted (allocated_blocks s) (allocated_blocks s') \<and>
    total_free (free_block s') + sum_list (map ab_size (allocated_blocks s')) = mem_size s' \<and>
    length (free_block s') \<le> 1"
proof -
  obtain s1 where c: "compact_memory s = (1, s1)"
    using compact_memory_enough [OF assms(3)] by (cases "compact_memory s") auto
  note spec = compact_memory_spec [OF assms(1,2) c]
  have "sum_list (map ab_size (allocated_blocks s1)) = sum_list (map ab_size (allocated_blocks s))"
    using spec compacted_same(1) [of "allocated_blocks s" "allocated_blocks s1"] by simp
  moreover have "sum_list (map ab_size (allocated_blocks s)) \<le> mem_size s"
    using mem_inv_sum [OF assms(1)] total_free_nonneg [OF assms(1)] by simp
  ultimately show ?thesis using c spec by (intro exI [of _ s1]) (auto simp: same_globals_def)
qed

theorem compact_memory_correct_witness:
  "\<exists>s'. compact_memory (demo_state MA_FF) = (1, s') \<and> length (free_block s') \<le> 1 \<and>
     compacted (allocated_blocks (demo_state MA_FF)) (allocated_blocks s')"
  using compact_memory_correct [OF demo_state_inv(2)] by (auto simp: demo_state_def)

text \<open>C18. Killing a process takes its node, and no other, out of the list of processes and gives
  its addresses back to the free list, merged with their free neighbours. Only when the
  \<open>malloc\<close> of the free node fails is the memory lost, since \<open>kill_process\<close> does not look at
  the answer of \<open>free_mem\<close>. A number no process has changes nothing.\<close>

theorem kill_process_correct:
  assumes "proc_inv s" and "kill_process p s = Some s'"
  shows "p \<notin> ab_pid ` set (allocated_blocks s) \<and> s' = s \<or>
    (\<exists>bs1 a bs2. allocated_blocks s = bs1 @ a # bs2 \<and> ab_pid a = p \<and>
       allocated_blocks s' = bs1 @ bs2 \<and> p \<notin> ab_pid ` set (bs1 @ bs2) \<and> mem_inv s' \<and>
       (free_addrs s' = free_addrs s \<union> addrs (ab_region a) \<or>
        (\<exists>s1. malloc s = (False, s1)) \<and> free_block s' = free_block s))"
proof (cases "find_process p (allocated_blocks s)")
  case None
  with assms(2) find_process_None [of p] show ?thesis by (simp add: kill_process_def)
next
  case (Some i)
  let ?bs = "allocated_blocks s"
  from find_process_Some [OF Some] have i: "i < length ?bs" "ab_pid (?bs ! i) = p" by simp_all
  have split: "?bs = take i ?bs @ ?bs ! i # drop (Suc i) ?bs" by (rule delete_at_append [OF i(1)])
  have "distinct (map ab_pid (take i ?bs @ ?bs ! i # drop (Suc i) ?bs))"
    using assms(1) split by (simp add: proc_inv_def)
  then have "p \<notin> ab_pid ` set (take i ?bs @ drop (Suc i) ?bs)" using i(2) by auto
  with kill_process_spec [OF assms Some] split i(2) show ?thesis by blast
qed

theorem kill_process_correct_witness:
  "\<exists>s'. kill_process 1 (demo_state MA_FF) = Some s' \<and> allocated_blocks s' = [] \<and>
     free_block s' = [\<lparr>fb_size = 160, fb_start_addr = 0\<rparr>] \<and>
     free_addrs s' = free_addrs (demo_state MA_FF) \<union> {30 ..< 100}"
proof -
  have inv: "proc_inv (demo_state MA_FF)"
    using demo_state_inv(2) by (simp add: proc_inv_def) (simp add: demo_state_def)
  have k: "kill_process 1 (demo_state MA_FF) = Some ((demo_state MA_FF)\<lparr>allocated_blocks := [],
      free_block := [\<lparr>fb_size = 160, fb_start_addr = 0\<rparr>], free_block_len := 1\<rparr>)"
    by code_simp
  from kill_process_correct [OF inv k] k show ?thesis
    by (auto simp: demo_state_def malloc_def ab_region_def addrs_def Cons_eq_append_conv)
qed

text \<open>C19. When \<open>malloc\<close> does not fail, a process that gets memory and is killed at once leaves
  the other processes and the free addresses as they were, but for the slice directly behind
  its block that \<open>allocate_mem\<close> hands out with it, which is lost: the rest of the free block
  it was placed in, when that is at most MIN_SLICE bytes, and nothing otherwise.\<close>

theorem new_kill_roundtrip:
  assumes "proc_inv s" and "mallocs s = []" and "0 < sz"
    and "new_process sz junk s = Some (Continue (r, s1))" and "r \<noteq> -1"
  shows "\<exists>s2 a b slack. allocated_blocks s1 = a # allocated_blocks s \<and> ab_size a = sz \<and>
    b \<in> set (free_block s) \<and> ab_start_addr a = fb_start_addr b \<and> sz \<le> fb_size b \<and>
    slack = (if fb_size b - sz \<le> MIN_SLICE then fb_size b - sz else 0) \<and>
    kill_process (ab_pid a) (s1\<lparr>mem_flag := 1\<rparr>) = Some s2 \<and>
    allocated_blocks s2 = allocated_blocks s \<and>
    free_addrs s2 = free_addrs s - addrs (ab_start_addr a + sz, slack)"
proof -
  obtain b taken where b: "b \<in> set (free_block s)" "sz \<le> fb_size b"
    and taken: "taken = (if fb_size b - sz \<le> MIN_SLICE then fb_size b else sz)"
    and bs: "allocated_blocks s1 = (request sz junk (last_pid s + 1))\<lparr>ab_start_addr := fb_start_addr b\<rparr> # allocated_blocks s"
    and ms: "mallocs s1 = []"
    and fa: "addrs (fb_start_addr b, taken) \<subseteq> free_addrs s" "free_addrs s1 = free_addrs s - addrs (fb_start_addr b, taken)"
    using new_process_takes [OF assms(1,3,2,4,5)] by blast
  define a where "a = (request sz junk (last_pid s + 1))\<lparr>ab_start_addr := fb_start_addr b\<rparr>"
  define slack where "slack = (if fb_size b - sz \<le> MIN_SLICE then fb_size b - sz else 0)"
  let ?t = "s1\<lparr>mem_flag := 1\<rparr>"
  have inv: "proc_inv ?t" using new_process_inv [OF assms(1) disjI1 [OF assms(3)] assms(4)] by simp
  obtain s2 where k: "kill_process (ab_pid a) ?t = Some s2"
    using kill_process_enough [OF inv] ms by auto
  have "find_process (ab_pid a) (allocated_blocks ?t) = Some 0" using bs by (simp add: a_def)
  note kill_process_spec [OF inv k this]
  then have "allocated_blocks s2 = allocated_blocks s"
    "free_addrs s2 = free_addrs s1 \<union> addrs (ab_region a)"
    using bs ms by (auto simp: free_addrs_def a_def)
  moreover have "ab_region a = (fb_start_addr b, sz)" using assms(3) by (simp add: ab_region_def a_def)
  moreover have "free_addrs s - addrs (fb_start_addr b, taken) \<union> addrs (fb_start_addr b, sz) =
      free_addrs s - addrs (fb_start_addr b + sz, slack)"
    using fa(1) b(2) assms(3) by (auto simp: taken slack_def addrs_def split: if_splits)
  ultimately show ?thesis using k fa(2) b bs assms(3) slack_def
    by (intro exI [of _ s2] exI [of _ a] exI [of _ b] exI [of _ slack]) (simp add: a_def)
qed

theorem new_kill_roundtrip_witness:
  "\<exists>s1 s2. new_process 1016 no_block (mem_main_start []) = Some (Continue (1, s1)) \<and>
     kill_process 1 (s1\<lparr>mem_flag := 1\<rparr>) = Some s2 \<and>
     free_addrs s2 = free_addrs (mem_main_start []) - {1016 ..< 1024}"
proof -
  have inv: "proc_inv (mem_main_start [])" using mem_main_cases [of "[]"] by (simp add: first_malloc_fails_def)
  have n: "new_process 1016 no_block (mem_main_start []) = Some (Continue (1,
    \<lparr>mem_size = 1024, ma_algorithm = 1, last_pid = 1, mem_flag = 0, free_block = [], free_block_len = 0,
      allocated_blocks = [\<lparr>ab_pid = 1, ab_size = 1016, ab_start_addr = 0, process_name = ''PROCESS-01''\<rparr>],
      mallocs = []\<rparr>))" by code_simp
  have "mallocs (mem_main_start []) = []" "free_block (mem_main_start []) = [\<lparr>fb_size = 1024, fb_start_addr = 0\<rparr>]"
    by (simp_all add: mem_main_start_eq first_malloc_fails_def)
  with new_kill_roundtrip [OF inv _ _ n] n show ?thesis by (auto simp: addrs_def MIN_SLICE_def)
qed

text \<open>C20. The endless recursion of \<open>allocate_mem\<close> is reached from the start of the program with
  seven commands, all of them valid. The first six return: three processes come and go, and
  a slice of five bytes is lost between two free blocks. Then a process asks for 950 of the
  1019 free bytes: no free block is large enough, \<open>compact_memory\<close> has no process to move and
  answers 1, and \<open>allocate_mem\<close> calls itself with the same request in the very same state, so
  that neither it nor the program ever gets further.\<close>

theorem mem_main_endless:
  "\<exists>s s' req. mem_main [] [cmd CHR ''3'' 100, cmd CHR ''3'' 100, cmd CHR ''4'' 1, cmd CHR ''3'' 95,
       cmd CHR ''4'' 2, cmd CHR ''4'' 3] = Some (Continue s) \<and>
     free_block s = [\<lparr>fb_size = 95, fb_start_addr = 0\<rparr>, \<lparr>fb_size = 924, fb_start_addr = 100\<rparr>] \<and>
     allocated_blocks s = [] \<and>
     req = request 950 no_block 4 \<and> s' = s\<lparr>last_pid := 4\<rparr> \<and>
     recursive_call req s' s' \<and> allocate_mem req s' = None \<and>
     mem_main [] ([cmd CHR ''3'' 100, cmd CHR ''3'' 100, cmd CHR ''4'' 1, cmd CHR ''3'' 95,
       cmd CHR ''4'' 2, cmd CHR ''4'' 3] @ [cmd CHR ''3'' 950]) = None"
proof -
  let ?pre = "[cmd CHR ''3'' 100, cmd CHR ''3'' 100, cmd CHR ''4'' 1, cmd CHR ''3'' 95,
     cmd CHR ''4'' 2, cmd CHR ''4'' 3]" and ?req = "request 950 no_block 4"
  define s where "s = \<lparr>mem_size = 1024, ma_algorithm = 1, last_pid = 3, mem_flag = 1,
     free_block = [\<lparr>fb_size = 95, fb_start_addr = 0\<rparr>, \<lparr>fb_size = 924, fb_start_addr = 100\<rparr>],
     free_block_len = 2, allocated_blocks = [], mallocs = []\<rparr>"
  let ?s = "s\<lparr>last_pid := 4\<rparr>"
  have pre: "menu_loop ?pre (mem_main_start []) = Some (Continue s)"
    unfolding s_def by code_simp
  have call: "recursive_call ?req ?s ?s" by (simp add: recursive_call_def s_def compact_memory_def)
  have rec: "allocate_mem ?req ?s = None" by (rule allocate_mem_self_call [OF call]) (simp add: s_def)
  then have "menu_step (cmd CHR ''3'' 950) s = None"
    by (simp add: menu_step_def cmd_def new_process_def request_def Let_def malloc_def) (simp add: s_def)
  then have "mem_main [] (?pre @ [cmd CHR ''3'' 950]) = None"
    unfolding mem_main_def menu_loop_append pre by simp
  with pre call rec show ?thesis
    by (intro exI [of _ s] exI [of _ ?s] exI [of _ ?req]) (simp add: mem_main_def s_def)
qed

text \<open>C21. The arithmetic of the allocator stays in the range of \<open>int\<close> in the state after any sequence of
  commands that neither ends nor crashes the program and in which every number typed in is an \<open>int\<close> and every process asks for a positive
  size (\<open>new_process_uninitialised\<close> is a run that does not): every address from the start to
  the end of a block and what is left of a block behind it (the splitting in
  \<open>allocate_mem\<close>, the ends compared in \<open>free_mem\<close>); the sum of the sizes of any of the blocks
  and what the memory has beyond it (\<open>total_free\<close>, the merged sizes of \<open>free_mem\<close>,
  \<open>next_start\<close> and the last subtraction of \<open>compact_memory\<close>); the count of the free blocks, even
  with every allocated block given back; and the process number, for fewer than 2^31
  commands.\<close>

theorem mem_no_overflow:
  assumes "mem_main ms input = Some (Continue s)"
    and "\<forall>i \<in> set input. positive_request i \<and> int32 (number i)"
  shows "(\<forall>r \<in> set (mem_regions s). \<forall>k. 0 \<le> k \<and> k \<le> snd r \<longrightarrow> int32 (fst r + k) \<and> int32 (snd r - k)) \<and>
    (\<forall>rs. mset rs \<subseteq># mset (mem_regions s) \<longrightarrow>
       int32 (sum_list (map snd rs)) \<and> int32 (mem_size s - sum_list (map snd rs))) \<and>
    int32 (free_block_len s + int (length (allocated_blocks s))) \<and>
    (length input < 2 ^ 31 \<longrightarrow> int32 (last_pid s))"
proof -
  have pos: "\<forall>i \<in> set input. positive_request i" using assms(2) by blast
  have size: "int32 (mem_size s)"
    using mem_main_bounds(2) [OF assms(1) pos] assms(2) by (auto simp: DEFAULT_MEM_SIZE_def int32_def)
  note safe = mem_main_inv [OF assms(1) pos]
  then have pid: "0 \<le> last_pid s" and m: "0 < mem_size s" "0 \<le> mem_size s"
    by (auto simp: no_memory_def proc_inv_def mem_inv_def split: if_splits)
  have range: "int32 x" if "0 \<le> x" "x \<le> mem_size s" for x
    using size that by (auto simp: int32_def)
  have lay: "layout (mem_size s) (mem_regions s)"
    using safe by (auto simp: no_memory_def mem_regions_def proc_inv_def mem_inv_def split: if_splits)
  have "int32 (fst r + k) \<and> int32 (snd r - k)" if "r \<in> set (mem_regions s)" "0 \<le> k" "k \<le> snd r" for r k
    using lay that by (auto simp: layout_def within_def intro!: range)
  moreover have "int32 (sum_list (map snd rs)) \<and> int32 (mem_size s - sum_list (map snd rs))"
    if "mset rs \<subseteq># mset (mem_regions s)" for rs
    using layout_part_sum [OF lay m(2) that] by (auto intro!: range)
  moreover have "0 \<le> free_block_len s + int (length (allocated_blocks s)) \<and>
      free_block_len s + int (length (allocated_blocks s)) \<le> mem_size s"
    using safe layout_length [OF lay m(2)] m(1)
    by (auto simp: no_memory_def proc_inv_def mem_inv_def mem_regions_def split: if_splits)
  then have "int32 (free_block_len s + int (length (allocated_blocks s)))" by (intro range) auto
  moreover have "int32 (last_pid s)" if "length input < 2 ^ 31"
    using mem_main_bounds(1) [OF assms(1) pos] pid that by (simp add: int32_def)
  ultimately show ?thesis by blast
qed

theorem mem_no_overflow_witness:
  "\<exists>s. mem_main [] [cmd CHR ''1'' 2147483647, cmd CHR ''3'' 100] = Some (Continue s) \<and>
     mem_size s = 2147483647 \<and> allocated_blocks s \<noteq> [] \<and>
     int32 (sum_list (map snd (mem_regions s))) \<and> int32 (last_pid s)"
proof -
  define s where "s = \<lparr>mem_size = 2147483647, ma_algorithm = 1, last_pid = 1, mem_flag = 1,
     free_block = [\<lparr>fb_size = 2147483547, fb_start_addr = 100\<rparr>], free_block_len = 1,
     allocated_blocks = [\<lparr>ab_pid = 1, ab_size = 100, ab_start_addr = 0, process_name = ''PROCESS-01''\<rparr>],
     mallocs = []\<rparr>"
  let ?in = "[cmd CHR ''1'' 2147483647, cmd CHR ''3'' 100]"
  have m: "mem_main [] ?in = Some (Continue s)" unfolding s_def by code_simp
  have "\<forall>i \<in> set ?in. positive_request i \<and> int32 (number i)"
    by (simp add: positive_request_def cmd_def int32_def)
  from mem_no_overflow [OF m this] m show ?thesis by (auto simp: s_def)
qed

text \<open>The name \<open>sprintf\<close> writes for a process fits into its array of PROCESS_NAME_LEN
  characters with the terminating zero, for every process number an \<open>int\<close> can hold.\<close>

lemma process_name_fits:
  assumes "int32 p"
  shows "length (process_label p) + 1 \<le> PROCESS_NAME_LEN"
  using length_fmt_02d [OF assms] by (simp add: process_label_def PROCESS_NAME_LEN_def)

text \<open>The size of the memory can be set by the first command only: once the flag is set no
  command changes it.\<close>

lemma mem_size_fixed:
  assumes "mem_main ms input = Some (Continue s)" and "\<forall>i \<in> set input. positive_request i"
    and "positive_request j" and "menu_step j s = Some (Continue t)" and "mem_flag s \<noteq> 0"
  shows "mem_size t = mem_size s"
  using mem_main_inv [OF assms(1,2)] menu_step_spec [OF _ assms(3,4)] menu_step_no_memory [OF _ assms(3,4)] assms(5)
  by (auto split: if_splits)

text \<open>A number that is not positive leaves the size of the new process what the fresh node
  happened to hold. With -50 in it the first process is accepted with a negative size, and
  the free block left behind it runs over both ends of the memory.\<close>

lemma new_process_uninitialised:
  "new_process 0 (no_block\<lparr>ab_size := - 50\<rparr>) (mem_main_start []) = Some (Continue (1,
     \<lparr>mem_size = 1024, ma_algorithm = 1, last_pid = 1, mem_flag = 0,
      free_block = [\<lparr>fb_size = 1074, fb_start_addr = - 50\<rparr>], free_block_len = 1,
      allocated_blocks = [\<lparr>ab_pid = 1, ab_size = - 50, ab_start_addr = 0, process_name = ''PROCESS-01''\<rparr>],
      mallocs = []\<rparr>))"
  by code_simp

end
