(* ===== verification/Paging.thy ===== *)
theory Paging
  imports OS_Prelude
begin

text \<open>
  The page replacement simulator of \<^verbatim>\<open>src/2lab/4/4.c\<close>: FIFO and LRU over a fixed number of
  frames, the two ways to get a reference string, and \<open>main\<close>. An array of frames is the list
  of its first \<open>frame_count\<close> cells, the only ones the code touches; -1 marks an empty
  frame. What a step prints is an event and the frames after it. The successive values of
  \<open>rand()\<close> are an argument.

  The interface \<open>demand_paging\<close> states what the two simulators share; its lemmas hold for
  both. Each simulator refines an abstract list of pages: in the order of arrival for FIFO, in
  the order of last use for LRU.
\<close>

section \<open>Data\<close>

definition MAX_SEQ :: int where "MAX_SEQ = 1000"
definition MAX_FRAMES :: int where "MAX_FRAMES = 100"
definition MODE_FIFO :: int where "MODE_FIFO = 1"
definition MODE_LRU :: int where "MODE_LRU = 2"

datatype page_event = EvHit | EvHitFrame nat | EvPlaced nat | EvReplaced int nat

fun is_fault :: "page_event \<Rightarrow> bool" where
  "is_fault EvHit = False"
| "is_fault (EvHitFrame i) = False"
| "is_fault (EvPlaced i) = True"
| "is_fault (EvReplaced p i) = True"

text \<open>The loops that look for a page, or for an empty frame: the first position that holds it.\<close>

fun find_frame :: "int \<Rightarrow> nat \<Rightarrow> int list \<Rightarrow> nat option" where
  "find_frame page i [] = None"
| "find_frame page i (f # frames) = (if f = page then Some i else find_frame page (Suc i) frames)"

section \<open>FIFO\<close>

record fifo_state =
  fifo_frames :: "int list"
  fifo_ptr :: nat
  fifo_page_faults :: nat

definition fifo_init :: "nat \<Rightarrow> fifo_state" where
  "fifo_init frame_count = \<lparr>fifo_frames = replicate frame_count (-1), fifo_ptr = 0, fifo_page_faults = 0\<rparr>"

definition fifo_step :: "nat \<Rightarrow> int \<Rightarrow> fifo_state \<Rightarrow> page_event \<times> fifo_state" where
  "fifo_step frame_count page s =
     (case find_frame page 0 (fifo_frames s) of
        Some i \<Rightarrow> (EvHit, s)
      | None \<Rightarrow>
          let s1 = s\<lparr>fifo_page_faults := fifo_page_faults s + 1\<rparr> in
          (case find_frame (-1) 0 (fifo_frames s) of
             Some i \<Rightarrow>
               (EvPlaced i, s1\<lparr>fifo_frames := (fifo_frames s)[i := page], fifo_ptr := (i + 1) mod frame_count\<rparr>)
           | None \<Rightarrow>
               (EvReplaced (fifo_frames s ! fifo_ptr s) (fifo_ptr s),
                s1\<lparr>fifo_frames := (fifo_frames s)[fifo_ptr s := page],
                   fifo_ptr := (fifo_ptr s + 1) mod frame_count\<rparr>)))"

fun fifo_run :: "nat \<Rightarrow> int list \<Rightarrow> fifo_state \<Rightarrow> (page_event \<times> int list) list \<times> fifo_state" where
  "fifo_run frame_count [] s = ([], s)"
| "fifo_run frame_count (page # seq) s =
     (let (ev, s1) = fifo_step frame_count page s; (out, s2) = fifo_run frame_count seq s1
      in ((ev, fifo_frames s1) # out, s2))"

definition simulate_fifo :: "int list \<Rightarrow> nat \<Rightarrow> (page_event \<times> int list) list \<times> nat" where
  "simulate_fifo seq frame_count =
     (let (out, s) = fifo_run frame_count seq (fifo_init frame_count) in (out, fifo_page_faults s))"

section \<open>LRU\<close>

record lru_state =
  lru_frames :: "int list"
  last_used :: "int list"
  lru_page_faults :: nat
  time_counter :: int

definition lru_init :: "nat \<Rightarrow> lru_state" where
  "lru_init frame_count = \<lparr>lru_frames = replicate frame_count (-1), last_used = replicate frame_count (-1),
     lru_page_faults = 0, time_counter = 0\<rparr>"

text \<open>The loop over \<open>i = 1, \<dots>, frame_count - 1\<close> that keeps the position of the least
  recently used frame so far.\<close>

definition lru_index :: "int list \<Rightarrow> nat \<Rightarrow> nat" where
  "lru_index used frame_count =
     foldl (\<lambda>best i. if used ! i < used ! best then i else best) 0 [1..<frame_count]"

definition lru_step :: "nat \<Rightarrow> int \<Rightarrow> lru_state \<Rightarrow> page_event \<times> lru_state" where
  "lru_step frame_count page s0 =
     (let s = s0\<lparr>time_counter := time_counter s0 + 1\<rparr> in
      case find_frame page 0 (lru_frames s) of
        Some i \<Rightarrow> (EvHitFrame i, s\<lparr>last_used := (last_used s)[i := time_counter s]\<rparr>)
      | None \<Rightarrow>
          let s1 = s\<lparr>lru_page_faults := lru_page_faults s + 1\<rparr> in
          (case find_frame (-1) 0 (lru_frames s) of
             Some i \<Rightarrow>
               (EvPlaced i, s1\<lparr>lru_frames := (lru_frames s)[i := page],
                              last_used := (last_used s)[i := time_counter s]\<rparr>)
           | None \<Rightarrow>
               let i = lru_index (last_used s) frame_count in
               (EvReplaced (lru_frames s ! i) i,
                s1\<lparr>lru_frames := (lru_frames s)[i := page],
                   last_used := (last_used s)[i := time_counter s]\<rparr>)))"

fun lru_run :: "nat \<Rightarrow> int list \<Rightarrow> lru_state \<Rightarrow> (page_event \<times> int list) list \<times> lru_state" where
  "lru_run frame_count [] s = ([], s)"
| "lru_run frame_count (page # seq) s =
     (let (ev, s1) = lru_step frame_count page s; (out, s2) = lru_run frame_count seq s1
      in ((ev, lru_frames s1) # out, s2))"

definition simulate_lru :: "int list \<Rightarrow> nat \<Rightarrow> (page_event \<times> int list) list \<times> nat" where
  "simulate_lru seq frame_count =
     (let (out, s) = lru_run frame_count seq (lru_init frame_count) in (out, lru_page_faults s))"

section \<open>Reference strings\<close>

text \<open>The result of the two readers is the part of \<open>seq\<close> they filled: its length is the number
  they return.\<close>

fun read_pages :: "nat \<Rightarrow> int list \<Rightarrow> int list \<times> int list" where
  "read_pages 0 input = ([], input)"
| "read_pages (Suc n) input =
     (case scanf_int input of
        None \<Rightarrow> ([], input)
      | Some (v, input') \<Rightarrow> let (vs, rest) = read_pages n input' in (v # vs, rest))"

definition read_manual_sequence :: "int \<Rightarrow> int list \<Rightarrow> int list" where
  "read_manual_sequence max_len input =
     (case scanf_int input of
        None \<Rightarrow> []
      | Some (n, input1) \<Rightarrow>
          if n \<le> 0 \<or> n > max_len then [] else fst (read_pages (nat n) input1))"

definition gen_random_sequence :: "(nat \<Rightarrow> int) \<Rightarrow> int \<Rightarrow> int list \<Rightarrow> int list" where
  "gen_random_sequence rnd max_len input =
     (case scanf_int input of
        None \<Rightarrow> []
      | Some (n, input1) \<Rightarrow>
          if n \<le> 0 \<or> n > max_len then []
          else (case scanf_int input1 of
                  None \<Rightarrow> []
                | Some (max_page0, input2) \<Rightarrow>
                    let max_page = (if max_page0 < 2 then 2 else max_page0)
                    in map (\<lambda>i. rnd i mod max_page) [0..<nat n]))"

record page_result =
  algo_mode :: int
  frames_used :: int
  seq_used :: "int list"
  page_output :: "(page_event \<times> int list) list"
  page_faults :: nat

text \<open>\<open>None\<close> is a \<open>main\<close> that returns before it simulates anything.\<close>

definition page_main :: "(nat \<Rightarrow> int) \<Rightarrow> int list \<Rightarrow> page_result option" where
  "page_main rnd input =
     (case scanf_int input of
        None \<Rightarrow> None
      | Some (choice, input1) \<Rightarrow>
          let algo = (if choice = 1 then MODE_FIFO else MODE_LRU) in
          (case scanf_int input1 of
             None \<Rightarrow> None
           | Some (frames0, input2) \<Rightarrow>
               let frames = (if frames0 \<le> 0 \<or> frames0 > MAX_FRAMES then 3 else frames0) in
               (case scanf_int input2 of
                  None \<Rightarrow> None
                | Some (choice2, input3) \<Rightarrow>
                    let seq = (if choice2 = 1 then gen_random_sequence rnd MAX_SEQ input3
                               else read_manual_sequence MAX_SEQ input3) in
                    if seq = [] then None
                    else let (out, n) = (if algo = MODE_FIFO then simulate_fifo seq (nat frames)
                                         else simulate_lru seq (nat frames))
                    in Some \<lparr>algo_mode = algo, frames_used = frames, seq_used = seq, page_output = out, page_faults = n\<rparr>)))"

section \<open>What the simulators have in common\<close>

text \<open>Demand paging: a hit changes no resident page, a fault brings the page in; a page leaves
  only when the frames are full, and then one. The counter counts the faults. A request for -1, the mark of an
  empty frame, is a hit while a frame is empty; otherwise it is a fault that empties a frame.\<close>

locale demand_paging =
  fixes step :: "int \<Rightarrow> 's \<Rightarrow> page_event \<times> 's" and run :: "int list \<Rightarrow> 's \<Rightarrow> 'o \<times> 's"
    and init :: 's and inv :: "'s \<Rightarrow> bool" and resident :: "'s \<Rightarrow> int set"
    and count :: "'s \<Rightarrow> nat" and capacity :: nat
  assumes run_Nil: "snd (run [] s) = s"
    and run_Cons: "snd (run (p # seq) s) = snd (run seq (snd (step p s)))"
    and inv_init: "inv init"
    and resident_init: "resident init = {}" and count_init: "count init = 0"
    and inv_step: "inv s \<Longrightarrow> inv (snd (step p s))"
    and inv_finite: "inv s \<Longrightarrow> finite (resident s) \<and> card (resident s) \<le> capacity \<and> -1 \<notin> resident s"
    and count_step: "inv s \<Longrightarrow> p \<noteq> -1 \<Longrightarrow>
      count (snd (step p s)) = count s + (if p \<in> resident s then 0 else 1)"
    and count_mark: "inv s \<Longrightarrow>
      count (snd (step (-1) s)) = count s + (if card (resident s) < capacity then 0 else 1)"
    and resident_hit: "inv s \<Longrightarrow> p \<noteq> -1 \<Longrightarrow> p \<in> resident s \<Longrightarrow> resident (snd (step p s)) = resident s"
    and resident_room: "inv s \<Longrightarrow> p \<noteq> -1 \<Longrightarrow> p \<notin> resident s \<Longrightarrow> card (resident s) < capacity \<Longrightarrow>
      resident (snd (step p s)) = insert p (resident s)"
    and resident_full: "inv s \<Longrightarrow> p \<noteq> -1 \<Longrightarrow> p \<notin> resident s \<Longrightarrow> card (resident s) = capacity \<Longrightarrow>
      \<exists>q \<in> resident s. resident (snd (step p s)) = insert p (resident s - {q})"
    and resident_mark: "inv s \<Longrightarrow> resident (snd (step (-1) s)) \<subseteq> resident s"
    and resident_mark_room: "inv s \<Longrightarrow> card (resident s) < capacity \<Longrightarrow> resident (snd (step (-1) s)) = resident s"
begin

lemma resident_sub: "inv s \<Longrightarrow> resident (snd (step p s)) \<subseteq> insert p (resident s)"
  using resident_hit [of s p] resident_room [of s p] resident_full [of s p] inv_finite [of s] resident_mark [of s]
  by (cases "p = -1"; cases "p \<in> resident s"; cases "card (resident s) < capacity") auto

lemma count_any: "inv s \<Longrightarrow> count (snd (step p s)) \<le> Suc (count s)"
  by (cases "p = -1") (simp_all add: count_step count_mark)

lemma run_inv: "inv s \<Longrightarrow> inv (snd (run seq s))"
  by (induction seq arbitrary: s) (simp_all add: run_Nil run_Cons inv_step)

lemma run_count_le: "inv s \<Longrightarrow> count (snd (run seq s)) \<le> count s + length seq"
proof (induction seq arbitrary: s)
  case (Cons p seq)
  have "count (snd (run seq (snd (step p s)))) \<le> count (snd (step p s)) + length seq"
    using Cons by (intro Cons.IH) (simp_all add: inv_step)
  with count_any [OF Cons.prems, of p] show ?case by (simp add: run_Cons)
qed (simp add: run_Nil)

text \<open>Every page but the resident ones costs a fault.\<close>

lemma run_count_ge: "inv s \<Longrightarrow> count s + card (set seq - {-1} - resident s) \<le> count (snd (run seq s))"
proof (induction seq arbitrary: s)
  case (Cons p seq)
  let ?s = "snd (step p s)" and ?new = "if p = -1 \<or> p \<in> resident s then {} else {p}"
  have "set (p # seq) - {-1} - resident s \<subseteq> ?new \<union> (set seq - {-1} - resident ?s)"
    using resident_sub [of s p] Cons.prems by auto
  then have "card (set (p # seq) - {-1} - resident s) \<le> card (?new \<union> (set seq - {-1} - resident ?s))"
    by (intro card_mono) auto
  also have "\<dots> \<le> card ?new + card (set seq - {-1} - resident ?s)" by (rule card_Un_le)
  finally have le: "card (set (p # seq) - {-1} - resident s) \<le> card ?new + card (set seq - {-1} - resident ?s)" .
  have "count s + card ?new \<le> count ?s"
    using Cons.prems by (cases "p = -1") (simp_all add: count_step count_mark)
  with le have "count s + card (set (p # seq) - {-1} - resident s) \<le> count ?s + card (set seq - {-1} - resident ?s)"
    by linarith
  also have "\<dots> \<le> count (snd (run seq ?s))" using Cons by (intro Cons.IH) (simp_all add: inv_step)
  finally show ?case by (simp add: run_Cons)
qed (simp add: run_Nil)

text \<open>As long as all pages, the mark included, fit into the frames none is thrown out.\<close>

lemma step_fits:
  assumes "inv s" and "card (insert p (resident s)) \<le> capacity"
  shows "resident (snd (step p s)) = insert p (resident s) - {-1}"
    and "count (snd (step p s)) = count s + (if p = -1 \<or> p \<in> resident s then 0 else 1)"
proof -
  have fin: "finite (resident s)" "-1 \<notin> resident s" using inv_finite assms(1) by auto
  then have room: "card (resident s) < capacity" if "p = -1 \<or> p \<notin> resident s" using assms(2) that by auto
  show "resident (snd (step p s)) = insert p (resident s) - {-1}"
    using resident_mark_room [OF assms(1)] resident_hit [OF assms(1), of p] resident_room [OF assms(1), of p] room fin
    by (cases "p = -1"; cases "p \<in> resident s") auto
  show "count (snd (step p s)) = count s + (if p = -1 \<or> p \<in> resident s then 0 else 1)"
    using count_mark [OF assms(1)] count_step [OF assms(1), of p] room by (cases "p = -1") auto
qed

lemma run_count_fit:
  "inv s \<Longrightarrow> card (resident s \<union> set seq) \<le> capacity \<Longrightarrow>
   count (snd (run seq s)) = count s + card (set seq - {-1} - resident s)"
proof (induction seq arbitrary: s)
  case (Cons p seq)
  let ?s = "snd (step p s)"
  have inv: "inv ?s" using Cons.prems by (simp add: inv_step)
  have fin: "finite (resident s)" "-1 \<notin> resident s" using inv_finite Cons.prems by auto
  have "card (insert p (resident s)) \<le> card (resident s \<union> set (p # seq))"
    using fin by (intro card_mono) auto
  then have "card (insert p (resident s)) \<le> capacity" using Cons.prems(2) by simp
  note step = step_fits [OF Cons.prems(1) this]
  have "card (resident ?s \<union> set seq) \<le> card (resident s \<union> set (p # seq))"
    using fin step(1) by (intro card_mono) auto
  then have "count (snd (run seq ?s)) = count ?s + card (set seq - {-1} - resident ?s)"
    using Cons inv by (intro Cons.IH) simp_all
  moreover have "card (set (p # seq) - {-1} - resident s) =
      (if p = -1 \<or> p \<in> resident s then 0 else 1) + card (set seq - {-1} - resident ?s)"
  proof (cases "p = -1 \<or> p \<in> resident s")
    case False
    then have "set (p # seq) - {-1} - resident s = insert p (set seq - {-1} - resident ?s)" using step(1) by auto
    moreover have "p \<notin> set seq - {-1} - resident ?s" using False step(1) by auto
    ultimately show ?thesis using False by (simp add: card_insert_if)
  next
    case True
    then have "set (p # seq) - {-1} - resident s = set seq - {-1} - resident ?s" using step(1) fin by auto
    with True show ?thesis by simp
  qed
  ultimately show ?case using step(2) by (simp add: run_Cons)
qed (simp add: run_Nil)

end

section \<open>The search loops\<close>

lemma find_frame_None: "find_frame p k fs = None \<longleftrightarrow> p \<notin> set fs"
  by (induction fs arbitrary: k) auto

lemma find_frame_Some: "find_frame p k fs = Some i \<Longrightarrow> k \<le> i \<and> i - k < length fs \<and> fs ! (i - k) = p"
proof (induction fs arbitrary: k)
  case (Cons f fs)
  then show ?case
    by (cases "f = p") (fastforce simp: nth_Cons' dest!: Cons.IH)+
qed simp

lemma find_frame_append: "p \<notin> set fs \<Longrightarrow> find_frame p k (fs @ gs) = find_frame p (k + length fs) gs"
  by (induction fs arbitrary: k) auto

lemma find_frame_Some0: "find_frame p 0 fs = Some i \<Longrightarrow> i < length fs \<and> fs ! i = p"
  using find_frame_Some [of p 0 fs i] by simp

section \<open>FIFO refines a queue of pages\<close>

text \<open>A request that finds its page; -1 is found in an empty frame.\<close>

definition found :: "nat \<Rightarrow> int \<Rightarrow> int list \<Rightarrow> bool" where
  "found n page q \<longleftrightarrow> (if page = -1 then length q < n else page \<in> set q)"

text \<open>The abstract simulator: the resident pages, the oldest first. A request that is not found throws out the oldest page when no
  frame is empty; a page is then brought in, -1 is not.\<close>

definition load :: "nat \<Rightarrow> int \<Rightarrow> int list \<Rightarrow> int list" where
  "load n page q = (if length q < n then q else tl q) @ (if page = -1 then [] else [page])"

definition fifo_spec :: "nat \<Rightarrow> int \<Rightarrow> int list \<Rightarrow> int list" where
  "fifo_spec n page q = (if found n page q then q else load n page q)"

text \<open>Until all frames have been used the empty ones are the last, and the pointer is at the first of them. From then on
  the queue starts at the pointer and goes round, and one frame may be empty: the one just before the pointer.\<close>

definition from_ptr :: "nat \<Rightarrow> int list \<Rightarrow> int list" where
  "from_ptr i frames = drop i frames @ take i frames"

definition fifo_rel :: "nat \<Rightarrow> fifo_state \<Rightarrow> int list \<Rightarrow> bool" where
  "fifo_rel n s q \<longleftrightarrow>
     0 < n \<and> -1 \<notin> set q \<and> distinct q \<and> length (fifo_frames s) = n \<and> fifo_ptr s < n \<and>
     (length q < n \<and> fifo_frames s = q @ replicate (n - length q) (-1) \<and> fifo_ptr s = length q \<or>
      length q = n \<and> from_ptr (fifo_ptr s) (fifo_frames s) = q \<or>
      Suc (length q) = n \<and> from_ptr (fifo_ptr s) (fifo_frames s) = q @ [-1])"

lemma fifo_rel_init: "0 < n \<Longrightarrow> fifo_rel n (fifo_init n) []"
  by (simp add: fifo_rel_def fifo_init_def)

lemma set_from_ptr [simp]: "set (from_ptr i xs) = set xs"
  unfolding from_ptr_def by (metis append_take_drop_id set_append Un_commute)

lemma length_from_ptr [simp]: "length (from_ptr i xs) = length xs"
  by (simp add: from_ptr_def)

lemma fifo_rel_frames:
  assumes "fifo_rel n s q"
  shows "set (fifo_frames s) = (if length q < n then insert (-1) (set q) else set q)" and "length q \<le> n"
proof -
  from assms consider "length q < n" "fifo_frames s = q @ replicate (n - length q) (-1)"
    | "length q = n" "from_ptr (fifo_ptr s) (fifo_frames s) = q"
    | "Suc (length q) = n" "from_ptr (fifo_ptr s) (fifo_frames s) = q @ [-1]"
    by (auto simp: fifo_rel_def)
  then have "set (fifo_frames s) = (if length q < n then insert (-1) (set q) else set q) \<and> length q \<le> n"
  proof cases
    case 2
    from arg_cong [OF 2(2), of set] 2(1) show ?thesis by simp
  next
    case 3
    from arg_cong [OF 3(2), of set] 3(1) show ?thesis by auto
  qed auto
  then show "set (fifo_frames s) = (if length q < n then insert (-1) (set q) else set q)" and "length q \<le> n" by auto
qed

lemma fifo_rel_set: "fifo_rel n s q \<Longrightarrow> set (fifo_frames s) - {-1} = set q"
  using fifo_rel_frames(1) [of n s q] by (auto simp: fifo_rel_def split: if_splits)

lemma fifo_rel_found: "fifo_rel n s q \<Longrightarrow> page \<in> set (fifo_frames s) \<longleftrightarrow> found n page q"
  using fifo_rel_frames(1) [of n s q] by (auto simp: fifo_rel_def found_def split: if_splits)

text \<open>The last place before the pointer: putting a page there puts it at the end of the queue.\<close>

lemma from_ptr_hole:
  assumes "from_ptr i f = q @ [-1]" and "-1 \<notin> set q" and "i < length f"
  shows "\<exists>j. find_frame (-1) 0 f = Some j \<and> j < length f \<and> (j + 1) mod length f = i \<and> from_ptr i (f[j := page]) = q @ [page]"
proof (cases i)
  case 0
  then have f: "f = q @ [-1]" using assms(1) by (simp add: from_ptr_def)
  then have "find_frame (-1) 0 f = Some (length q)" using assms(2) by (simp add: find_frame_append)
  with f 0 show ?thesis by (auto simp: from_ptr_def)
next
  case (Suc j)
  then have j: "j < length f" using assms(3) by simp
  then have t: "take i f = take j f @ [f ! j]" using Suc by (simp add: take_Suc_conv_app_nth)
  then have q: "drop i f @ take j f = q" and "f ! j = -1" using assms(1) by (simp_all add: from_ptr_def flip: append_assoc)
  then have f: "f = take j f @ -1 # drop i f" using id_take_nth_drop [OF j] Suc by simp
  have "-1 \<notin> set (take j f)" using q assms(2) by auto
  then have "find_frame (-1) 0 f = Some j" using j by (subst f) (simp add: find_frame_append min_def)
  moreover have "from_ptr i (f[j := page]) = q @ [page]"
    using q j Suc by (simp add: from_ptr_def take_Suc_conv_app_nth flip: append_assoc)
  ultimately show ?thesis using j Suc assms(3) by auto
qed

lemma from_ptr_next:
  assumes "from_ptr i f = q" and "i < length f"
  shows "f ! i = hd q" and "from_ptr ((i + 1) mod length f) (f[i := page]) = tl q @ [page]"
proof -
  have dr: "drop i f = f ! i # drop (Suc i) f" using assms(2) by (simp add: Cons_nth_drop_Suc)
  then show "f ! i = hd q" using assms(1) by (auto simp: from_ptr_def)
  have tl: "tl q @ [page] = drop (Suc i) f @ take i f @ [page]" using assms(1) dr by (auto simp: from_ptr_def)
  show "from_ptr ((i + 1) mod length f) (f[i := page]) = tl q @ [page]"
  proof (cases "Suc i < length f")
    case True
    then show ?thesis using tl assms(2) by (simp add: from_ptr_def take_Suc_conv_app_nth)
  next
    case False
    then have "Suc i = length f" using assms(2) by simp
    then show ?thesis using tl assms(2) by (simp add: from_ptr_def upd_conv_take_nth_drop)
  qed
qed

lemma fifo_hit:
  assumes "fifo_rel n s q" and "found n page q"
  shows "fifo_step n page s = (EvHit, s)"
proof -
  have "page \<in> set (fifo_frames s)" using fifo_rel_found [OF assms(1)] assms(2) by simp
  then obtain i where "find_frame page 0 (fifo_frames s) = Some i"
    using find_frame_None [of page 0 "fifo_frames s"] by auto
  then show ?thesis by (simp add: fifo_step_def)
qed

text \<open>A page that is not resident while a frame is empty.\<close>

lemma fifo_place_first:
  assumes q: "-1 \<notin> set q" "distinct q" and len: "length q < n" and f: "fifo_frames s = q @ replicate (n - length q) (-1)"
    and p: "page \<noteq> -1" "page \<notin> set q"
  shows "fst (fifo_step n page s) = EvPlaced (length q)"
    and "fifo_rel n (snd (fifo_step n page s)) (q @ [page])"
proof -
  obtain k where k: "n - length q = Suc k" using len by (cases "n - length q") auto
  have "find_frame page 0 (fifo_frames s) = None" using p by (simp add: find_frame_None f)
  moreover have "find_frame (-1) 0 (fifo_frames s) = Some (length q)"
    using q by (simp add: f find_frame_append k)
  moreover have "(fifo_frames s)[length q := page] = q @ page # replicate k (-1)"
    by (simp add: f k list_update_append)
  ultimately have step: "fifo_step n page s = (EvPlaced (length q),
      s\<lparr>fifo_page_faults := fifo_page_faults s + 1, fifo_frames := q @ page # replicate k (-1),
        fifo_ptr := (length q + 1) mod n\<rparr>)"
    by (simp add: fifo_step_def Let_def)
  then show "fst (fifo_step n page s) = EvPlaced (length q)" by simp
  show "fifo_rel n (snd (fifo_step n page s)) (q @ [page])"
  proof (cases k)
    case 0
    with k have "n = Suc (length q)" by simp
    with step q p 0 show ?thesis by (simp add: fifo_rel_def from_ptr_def)
  next
    case (Suc j)
    with k have "n = Suc (Suc (length q + j))" by simp
    with step q p Suc show ?thesis by (simp add: fifo_rel_def)
  qed
qed

lemma fifo_place:
  assumes r: "fifo_rel n s q" and p: "page \<noteq> -1" "page \<notin> set q" and len: "length q < n"
  shows "(\<exists>i. fst (fifo_step n page s) = EvPlaced i) \<and> fifo_rel n (snd (fifo_step n page s)) (q @ [page])"
proof -
  have q: "-1 \<notin> set q" "distinct q" and l: "length (fifo_frames s) = n" "fifo_ptr s < n" using r by (auto simp: fifo_rel_def)
  from r len consider "fifo_frames s = q @ replicate (n - length q) (-1)"
    | "Suc (length q) = n" "from_ptr (fifo_ptr s) (fifo_frames s) = q @ [-1]"
    by (auto simp: fifo_rel_def)
  then show ?thesis
  proof cases
    case 1
    with fifo_place_first [OF q len 1 p] show ?thesis by blast
  next
    case 2
    from from_ptr_hole [OF 2(2) q(1), of page] l obtain j where
      j: "find_frame (-1) 0 (fifo_frames s) = Some j" "(j + 1) mod n = fifo_ptr s"
        "from_ptr (fifo_ptr s) ((fifo_frames s)[j := page]) = q @ [page]" by auto
    have "find_frame page 0 (fifo_frames s) = None"
      using fifo_rel_found [OF r, of page] p by (simp add: find_frame_None found_def)
    with j have "fifo_step n page s = (EvPlaced j, s\<lparr>fifo_page_faults := fifo_page_faults s + 1,
        fifo_frames := (fifo_frames s)[j := page], fifo_ptr := fifo_ptr s\<rparr>)"
      by (simp add: fifo_step_def Let_def)
    with 2(1) j(3) l q p show ?thesis by (simp add: fifo_rel_def)
  qed
qed

lemma fifo_replace:
  assumes r: "fifo_rel n s q" and p: "\<not> found n page q" and len: "length q = n"
  shows "fst (fifo_step n page s) = EvReplaced (hd q) (fifo_ptr s)"
    and "fifo_rel n (snd (fifo_step n page s)) (load n page q)"
proof -
  let ?f = "fifo_frames s" and ?i = "fifo_ptr s"
  from r len have q: "from_ptr ?i ?f = q" and i: "?i < length ?f" "length ?f = n"
    and d: "distinct q" "-1 \<notin> set q" "0 < n" by (auto simp: fifo_rel_def)
  have "find_frame page 0 ?f = None" "find_frame (-1) 0 ?f = None"
    using fifo_rel_found [OF r] p len by (simp_all add: find_frame_None found_def)
  then have step: "fifo_step n page s = (EvReplaced (?f ! ?i) ?i,
      s\<lparr>fifo_page_faults := fifo_page_faults s + 1, fifo_frames := ?f[?i := page],
        fifo_ptr := (?i + 1) mod n\<rparr>)"
    by (simp add: fifo_step_def Let_def)
  note next_ptr = from_ptr_next(1) [OF q i(1)] from_ptr_next(2) [OF q i(1), of page]
  show "fst (fifo_step n page s) = EvReplaced (hd q) ?i" using step next_ptr(1) by simp
  have "distinct (tl q)" "-1 \<notin> set (tl q)" "length (tl q) = n - 1" "set (tl q) \<subseteq> set q"
    using d len by (auto simp: distinct_tl dest: list.set_sel(2) [rotated])
  moreover have "page \<noteq> -1 \<longrightarrow> page \<notin> set q" using p by (auto simp: found_def)
  ultimately show "fifo_rel n (snd (fifo_step n page s)) (load n page q)"
    using step i d len next_ptr(2) by (auto simp: fifo_rel_def load_def)
qed

lemma fifo_step_refines:
  assumes r: "fifo_rel n s q"
  shows "fifo_rel n (snd (fifo_step n page s)) (fifo_spec n page q)"
    and "is_fault (fst (fifo_step n page s)) \<longleftrightarrow> \<not> found n page q"
proof -
  have len: "length q \<le> n" using fifo_rel_frames(2) [OF r] .
  have place: "page \<noteq> -1 \<and> page \<notin> set q \<and> fifo_spec n page q = q @ [page]" if "\<not> found n page q" "length q < n"
    using that by (auto simp: found_def fifo_spec_def load_def split: if_splits)
  show "fifo_rel n (snd (fifo_step n page s)) (fifo_spec n page q)"
    using fifo_hit [OF r] fifo_place [OF r, of page] fifo_replace(2) [OF r] r len place
    by (cases "found n page q"; cases "length q < n") (auto simp: fifo_spec_def)
  show "is_fault (fst (fifo_step n page s)) \<longleftrightarrow> \<not> found n page q"
    using fifo_hit [OF r] fifo_place [OF r, of page] fifo_replace(1) [OF r] len place
    by (cases "found n page q"; cases "length q < n") auto
qed

lemma fifo_count: "fifo_page_faults (snd (fifo_step n page s)) =
    fifo_page_faults s + (if is_fault (fst (fifo_step n page s)) then 1 else 0)"
  by (simp add: fifo_step_def Let_def split: option.split)

section \<open>LRU refines a list of pages in the order of their last use\<close>

text \<open>The abstract simulator: the resident pages, the one used longest ago first. A request for -1 that finds an empty frame changes
  nothing.\<close>

definition lru_spec :: "nat \<Rightarrow> int \<Rightarrow> int list \<Rightarrow> int list" where
  "lru_spec n page q =
     (if found n page q then (if page = -1 then q else filter (\<lambda>p. p \<noteq> page) q @ [page]) else load n page q)"

text \<open>The used frames in the order of their time stamps hold the pages of the list.\<close>

definition lru_order :: "nat \<Rightarrow> lru_state \<Rightarrow> nat list \<Rightarrow> bool" where
  "lru_order n s order \<longleftrightarrow>
     sorted_wrt (\<lambda>i j. last_used s ! i < last_used s ! j) order \<and>
     set order = {i. i < n \<and> lru_frames s ! i \<noteq> -1}"

definition lru_rel :: "nat \<Rightarrow> lru_state \<Rightarrow> int list \<Rightarrow> bool" where
  "lru_rel n s q \<longleftrightarrow>
     0 < n \<and> distinct q \<and> length (lru_frames s) = n \<and> length (last_used s) = n \<and>
     (\<forall>i < n. last_used s ! i \<le> time_counter s) \<and>
     (\<exists>order. lru_order n s order \<and> q = map ((!) (lru_frames s)) order)"

lemma lru_rel_init: "0 < n \<Longrightarrow> lru_rel n (lru_init n) []"
  by (auto simp: lru_rel_def lru_order_def lru_init_def)

lemma lru_index_least:
  "0 < n \<Longrightarrow> lru_index used n < n \<and> (\<forall>j < n. used ! lru_index used n \<le> used ! j)"
proof (induction n)
  case (Suc n)
  show ?case
  proof (cases "n = 0")
    case False
    then have "lru_index used (Suc n) =
        (if used ! n < used ! lru_index used n then n else lru_index used n)"
      by (simp add: lru_index_def)
    with Suc False show ?thesis by (fastforce simp: less_Suc_eq)
  qed (simp add: lru_index_def)
qed simp

lemma lru_order_distinct: "lru_order n s order \<Longrightarrow> distinct order"
  by (auto simp: lru_order_def distinct_conv_nth sorted_wrt_iff_nth_less) (metis less_irrefl linorder_neqE_nat)

lemma lru_rel_set: "lru_rel n s q \<Longrightarrow> set (lru_frames s) - {-1} = set q"
  by (auto simp: lru_rel_def lru_order_def in_set_conv_nth image_iff)

lemma lru_rel_len:
  assumes "lru_rel n s q"
  shows "length q \<le> n" and "-1 \<in> set (lru_frames s) \<longleftrightarrow> length q < n"
proof -
  from assms obtain order where o: "lru_order n s order" and q: "q = map ((!) (lru_frames s)) order"
    and n: "length (lru_frames s) = n" by (auto simp: lru_rel_def)
  have c: "length q = card {i. i < n \<and> lru_frames s ! i \<noteq> -1}"
    using o q distinct_card [OF lru_order_distinct [OF o]] by (simp add: lru_order_def)
  have sub: "{i. i < n \<and> lru_frames s ! i \<noteq> -1} \<subseteq> {..<n}" by auto
  from card_mono [OF _ sub] c show "length q \<le> n" by simp
  have "length q = n \<longleftrightarrow> {i. i < n \<and> lru_frames s ! i \<noteq> -1} = {..<n}"
    using c sub by (metis card_lessThan card_subset_eq finite_lessThan)
  moreover have "{i. i < n \<and> lru_frames s ! i \<noteq> -1} = {..<n} \<longleftrightarrow> -1 \<notin> set (lru_frames s)"
    using n by (auto simp: in_set_conv_nth)
  ultimately show "-1 \<in> set (lru_frames s) \<longleftrightarrow> length q < n"
    using \<open>length q \<le> n\<close> by auto
qed

lemma lru_rel_found: "lru_rel n s q \<Longrightarrow> page \<in> set (lru_frames s) \<longleftrightarrow> found n page q"
  using lru_rel_set [of n s q] lru_rel_len(2) [of n s q] by (auto simp: found_def)

text \<open>Putting a page into frame \<open>i\<close> and stamping it with the new time moves the frame to the
  end of the order; with -1 it takes the frame out of the order. All three branches of the step do this.\<close>

definition touched :: "nat \<Rightarrow> int \<Rightarrow> nat list \<Rightarrow> nat list" where
  "touched i page order = filter (\<lambda>j. j \<noteq> i) order @ (if page = -1 then [] else [i])"

lemma lru_touch:
  assumes o: "lru_order n s order" and i: "i < n"
    and len: "length (lru_frames s) = n" "length (last_used s) = n"
    and time: "\<forall>i < n. last_used s ! i \<le> time_counter s"
    and s': "lru_frames s' = (lru_frames s)[i := page]"
      "last_used s' = (last_used s)[i := time_counter s + 1]"
  shows "lru_order n s' (touched i page order)"
proof -
  have sub: "\<forall>j \<in> set order. j < n" using o by (auto simp: lru_order_def)
  have "sorted_wrt (\<lambda>i j. last_used s ! i < last_used s ! j) (filter (\<lambda>j. j \<noteq> i) order)"
    using o by (simp add: lru_order_def sorted_wrt_filter)
  then have "sorted_wrt (\<lambda>i j. last_used s' ! i < last_used s' ! j) (filter (\<lambda>j. j \<noteq> i) order)"
    by (rule sorted_wrt_mono_rel [rotated]) (auto simp: s')
  moreover have "last_used s' ! j < last_used s' ! i" if "j \<in> set order" "j \<noteq> i" for j
    using that sub time i len by (simp add: s')
  moreover have "set (touched i page order) = {j. j < n \<and> lru_frames s' ! j \<noteq> -1}"
    using o i len by (auto simp: touched_def lru_order_def s' nth_list_update split: if_splits)
  ultimately show ?thesis by (simp add: touched_def lru_order_def sorted_wrt_append)
qed

lemma lru_touch_rel:
  assumes "lru_rel n s q" and "i < n"
    and "lru_frames s' = (lru_frames s)[i := page]"
    and "last_used s' = (last_used s)[i := time_counter s + 1]" and "time_counter s' = time_counter s + 1"
    and "lru_order n s order" and "q = map ((!) (lru_frames s)) order"
    and "page \<notin> set (map ((!) (lru_frames s)) (filter (\<lambda>j. j \<noteq> i) order))"
  shows "lru_rel n s' (map ((!) (lru_frames s)) (filter (\<lambda>j. j \<noteq> i) order) @ (if page = -1 then [] else [page]))"
proof -
  have len: "length (lru_frames s) = n" "length (last_used s) = n"
    and time: "\<forall>i < n. last_used s ! i \<le> time_counter s" and n: "0 < n" and d: "distinct q"
    using assms(1) by (auto simp: lru_rel_def)
  have o: "lru_order n s' (touched i page order)"
    by (rule lru_touch [OF assms(6,2) len time assms(3,4)])
  have same: "map ((!) (lru_frames s')) (touched i page order) =
      map ((!) (lru_frames s)) (filter (\<lambda>j. j \<noteq> i) order) @ (if page = -1 then [] else [page])"
    using assms(2,3) len by (simp add: touched_def)
  have "distinct (map ((!) (lru_frames s)) (filter (\<lambda>j. j \<noteq> i) order))"
    using d assms(7) by (simp add: distinct_map inj_on_def)
  moreover have "\<forall>j < n. last_used s' ! j \<le> time_counter s'"
    using time len assms(2,4,5) by (auto simp: nth_list_update)
  ultimately show ?thesis using o same len n assms(3,4,8)
    unfolding lru_rel_def by (auto intro!: exI [of _ "touched i page order"])
qed

text \<open>The three branches of a step.\<close>

lemma lru_hit:
  assumes r: "lru_rel n s q" and f: "found n page q"
  shows "lru_rel n (snd (lru_step n page s)) (lru_spec n page q) \<and> (\<exists>i. fst (lru_step n page s) = EvHitFrame i)"
proof -
  from r obtain order where o: "lru_order n s order" and q: "q = map ((!) (lru_frames s)) order"
    and len: "length (lru_frames s) = n" and d: "distinct q" by (auto simp: lru_rel_def)
  have "page \<in> set (lru_frames s)" using lru_rel_found [OF r] f by simp
  then obtain i where i0: "find_frame page 0 (lru_frames s) = Some i"
    using find_frame_None [of page 0 "lru_frames s"] by auto
  then have i: "i < n" "lru_frames s ! i = page" using find_frame_Some0 [OF i0] len by auto
  have keep: "map ((!) (lru_frames s)) (filter (\<lambda>j. j \<noteq> i) order) = filter (\<lambda>x. x \<noteq> page) q"
  proof -
    have "\<forall>j \<in> set order. (j \<noteq> i) = (lru_frames s ! j \<noteq> page)"
      using d q o i by (auto simp: distinct_map inj_on_def lru_order_def)
    then show ?thesis unfolding q by (simp add: filter_map o_def cong: filter_cong)
  qed
  have same: "page = -1 \<Longrightarrow> filter (\<lambda>x. x \<noteq> page) q = q" using q o by (intro filter_True) (auto simp: lru_order_def)
  have "lru_rel n (snd (lru_step n page s)) (map ((!) (lru_frames s)) (filter (\<lambda>j. j \<noteq> i) order) @ (if page = -1 then [] else [page]))"
    by (rule lru_touch_rel [OF r i(1) _ _ _ o q]) (use i0 i keep in \<open>auto simp: lru_step_def Let_def\<close>)
  with i0 f keep same show ?thesis by (auto simp: lru_step_def lru_spec_def Let_def)
qed

lemma lru_place:
  assumes r: "lru_rel n s q" and f: "\<not> found n page q" and room: "length q < n"
  shows "lru_rel n (snd (lru_step n page s)) (lru_spec n page q) \<and> (\<exists>i. fst (lru_step n page s) = EvPlaced i)"
proof -
  from r obtain order where o: "lru_order n s order" and q: "q = map ((!) (lru_frames s)) order"
    and len: "length (lru_frames s) = n" by (auto simp: lru_rel_def)
  have p: "page \<noteq> -1" "page \<notin> set q" using f room by (auto simp: found_def split: if_splits)
  have none: "find_frame page 0 (lru_frames s) = None" using lru_rel_found [OF r] f by (simp add: find_frame_None)
  have "-1 \<in> set (lru_frames s)" using lru_rel_len(2) [OF r] room by simp
  then obtain i where i0: "find_frame (-1) 0 (lru_frames s) = Some i"
    using find_frame_None [of "-1" 0 "lru_frames s"] by auto
  then have i: "i < n" "lru_frames s ! i = -1" using find_frame_Some0 [OF i0] len by auto
  then have "i \<notin> set order" using o by (simp add: lru_order_def)
  then have keep: "filter (\<lambda>j. j \<noteq> i) order = order" by (intro filter_True) auto
  have "lru_rel n (snd (lru_step n page s)) (map ((!) (lru_frames s)) (filter (\<lambda>j. j \<noteq> i) order) @ (if page = -1 then [] else [page]))"
    by (rule lru_touch_rel [OF r i(1) _ _ _ o q]) (use none i0 p q keep in \<open>auto simp: lru_step_def Let_def\<close>)
  with none i0 f p room q keep show ?thesis by (simp add: lru_step_def lru_spec_def load_def Let_def)
qed

lemma lru_replace:
  assumes r: "lru_rel n s q" and f: "\<not> found n page q" and full: "length q = n"
  shows "lru_rel n (snd (lru_step n page s)) (lru_spec n page q) \<and>
    (\<exists>i. fst (lru_step n page s) = EvReplaced (hd q) i \<and> i < n \<and> lru_frames s ! i = hd q)"
proof -
  from r obtain order where o: "lru_order n s order" and q: "q = map ((!) (lru_frames s)) order"
    and len: "length (lru_frames s) = n" and n: "0 < n" by (auto simp: lru_rel_def)
  have none: "find_frame page 0 (lru_frames s) = None" "find_frame (-1) 0 (lru_frames s) = None" and "-1 \<notin> set (lru_frames s)"
    using lru_rel_found [OF r] lru_rel_len(2) [OF r] f full by (simp_all add: find_frame_None)
  let ?i = "lru_index (last_used s) n"
  have "\<forall>k < n. lru_frames s ! k \<noteq> -1" using \<open>-1 \<notin> set (lru_frames s)\<close> len nth_mem by metis
  then have "{k. k < n \<and> lru_frames s ! k \<noteq> -1} = {..<n}" by blast
  then have all: "set order = {..<n}" using o by (simp add: lru_order_def)
  then have "order \<noteq> []" using n by (metis empty_iff lessThan_iff list.set(1))
  then obtain j rest where ord: "order = j # rest" by (meson list.exhaust)
  have "j < n" using all ord by (metis lessThan_iff list.set_intros(1))
  then have least: "?i < n" "last_used s ! ?i \<le> last_used s ! j"
    using lru_index_least [OF n, of "last_used s"] by blast+
  then have "?i \<in> set order" using all by simp
  then have j: "?i = j" using o least(2) by (fastforce simp: lru_order_def ord)
  have keep: "filter (\<lambda>k. k \<noteq> j) order = rest"
    using lru_order_distinct [OF o] ord by (auto intro: filter_True)
  have "page \<notin> set q" using lru_rel_set [OF r] lru_rel_found [OF r, of page] f by auto
  then have "page \<notin> set (map ((!) (lru_frames s)) (filter (\<lambda>k. k \<noteq> ?i) order))" using q by auto
  then have "lru_rel n (snd (lru_step n page s)) (map ((!) (lru_frames s)) (filter (\<lambda>k. k \<noteq> ?i) order) @ (if page = -1 then [] else [page]))"
    by (intro lru_touch_rel [OF r least(1) _ _ _ o q]) (use none in \<open>auto simp: lru_step_def Let_def\<close>)
  with none f full q ord j keep least(1) show ?thesis by (simp add: lru_step_def lru_spec_def load_def Let_def)
qed

lemma lru_step_refines:
  assumes r: "lru_rel n s q"
  shows "lru_rel n (snd (lru_step n page s)) (lru_spec n page q)"
    and "is_fault (fst (lru_step n page s)) \<longleftrightarrow> \<not> found n page q"
proof -
  have "length q \<le> n" by (rule lru_rel_len(1) [OF r])
  then show "lru_rel n (snd (lru_step n page s)) (lru_spec n page q)"
    and "is_fault (fst (lru_step n page s)) \<longleftrightarrow> \<not> found n page q"
    using lru_hit [OF r, of page] lru_place [OF r, of page] lru_replace [OF r, of page]
    by (cases "found n page q"; cases "length q < n"; auto)+
qed

lemma lru_count: "lru_page_faults (snd (lru_step n page s)) =
    lru_page_faults s + (if is_fault (fst (lru_step n page s)) then 1 else 0)"
  by (simp add: lru_step_def Let_def split: option.split)

section \<open>Both simulators are demand paging\<close>

definition fifo_inv :: "nat \<Rightarrow> fifo_state \<Rightarrow> bool" where
  "fifo_inv n s \<longleftrightarrow> (\<exists>q. fifo_rel n s q)"

definition lru_inv :: "nat \<Rightarrow> lru_state \<Rightarrow> bool" where
  "lru_inv n s \<longleftrightarrow> (\<exists>q. lru_rel n s q)"

definition fifo_resident :: "fifo_state \<Rightarrow> int set" where
  "fifo_resident s = set (fifo_frames s) - {-1}"

definition lru_resident :: "lru_state \<Rightarrow> int set" where
  "lru_resident s = set (lru_frames s) - {-1}"

text \<open>The resident pages after a step of either abstract simulator.\<close>

lemma in_set_tlD: "x \<in> set (tl q) \<Longrightarrow> x \<in> set q"
  by (cases q) auto

lemma set_hd_tl: "distinct q \<Longrightarrow> q \<noteq> [] \<Longrightarrow> set (tl q) = set q - {hd q}"
  by (cases q) auto

lemma set_fifo_spec:
  "page \<noteq> -1 \<Longrightarrow> page \<in> set q \<Longrightarrow> set (fifo_spec n page q) = set q"
  "page \<noteq> -1 \<Longrightarrow> page \<notin> set q \<Longrightarrow> length q < n \<Longrightarrow> set (fifo_spec n page q) = insert page (set q)"
  "page \<noteq> -1 \<Longrightarrow> distinct q \<Longrightarrow> page \<notin> set q \<Longrightarrow> length q = n \<Longrightarrow> q \<noteq> [] \<Longrightarrow>
    set (fifo_spec n page q) = insert page (set q - {hd q})"
  "set (fifo_spec n (-1) q) \<subseteq> set q" "length q < n \<Longrightarrow> fifo_spec n (-1) q = q"
  by (auto simp add: fifo_spec_def load_def found_def set_hd_tl dest: in_set_tlD)

lemma set_lru_spec:
  "page \<noteq> -1 \<Longrightarrow> page \<in> set q \<Longrightarrow> set (lru_spec n page q) = set q"
  "page \<noteq> -1 \<Longrightarrow> page \<notin> set q \<Longrightarrow> length q < n \<Longrightarrow> set (lru_spec n page q) = insert page (set q)"
  "page \<noteq> -1 \<Longrightarrow> distinct q \<Longrightarrow> page \<notin> set q \<Longrightarrow> length q = n \<Longrightarrow> q \<noteq> [] \<Longrightarrow>
    set (lru_spec n page q) = insert page (set q - {hd q})"
  "set (lru_spec n (-1) q) \<subseteq> set q" "length q < n \<Longrightarrow> lru_spec n (-1) q = q"
  by (auto simp add: lru_spec_def load_def found_def set_hd_tl dest: in_set_tlD)

lemma fifo_rel_resident:
  assumes "fifo_rel n s q"
  shows "fifo_resident s = set q" and "card (set q) = length q" and "length q \<le> n"
    and "distinct q" and "0 < n"
proof -
  show "fifo_resident s = set q" using fifo_rel_set [OF assms] by (simp only: fifo_resident_def)
  show "length q \<le> n" by (rule fifo_rel_frames(2) [OF assms])
  show "distinct q" and "0 < n" using assms by (simp_all add: fifo_rel_def)
  then show "card (set q) = length q" by (simp add: distinct_card)
qed

lemma lru_rel_resident:
  assumes "lru_rel n s q"
  shows "lru_resident s = set q" and "card (set q) = length q" and "length q \<le> n"
    and "distinct q" and "0 < n"
proof -
  show "lru_resident s = set q" using lru_rel_set [OF assms] by (simp only: lru_resident_def)
  show "length q \<le> n" by (rule lru_rel_len(1) [OF assms])
  show "distinct q" and "0 < n" using assms by (simp_all add: lru_rel_def)
  then show "card (set q) = length q" by (simp add: distinct_card)
qed

interpretation fifo: demand_paging "fifo_step (Suc k)" "fifo_run (Suc k)" "fifo_init (Suc k)"
  "fifo_inv (Suc k)" fifo_resident fifo_page_faults "Suc k"
proof unfold_locales
  fix s p seq
  show "snd (fifo_run (Suc k) [] s) = s" by simp
  show "snd (fifo_run (Suc k) (p # seq) s) = snd (fifo_run (Suc k) seq (snd (fifo_step (Suc k) p s)))"
    by (simp split: prod.split)
  show "fifo_inv (Suc k) (fifo_init (Suc k))" using fifo_rel_init by (auto simp: fifo_inv_def)
  show "fifo_resident (fifo_init (Suc k)) = {}" "fifo_page_faults (fifo_init (Suc k)) = 0"
    by (auto simp: fifo_resident_def fifo_init_def)
  assume inv: "fifo_inv (Suc k) s"
  then obtain q where r: "fifo_rel (Suc k) s q" by (auto simp: fifo_inv_def)
  note res = fifo_rel_resident [OF r] and ref = fifo_step_refines [OF r]
  note res' = fifo_rel_resident [OF ref(1)]
  show "finite (fifo_resident s) \<and> card (fifo_resident s) \<le> Suc k \<and> -1 \<notin> fifo_resident s"
    using res by (auto simp: fifo_resident_def)
  show "fifo_inv (Suc k) (snd (fifo_step (Suc k) p s))" using ref by (auto simp: fifo_inv_def)
  show "fifo_page_faults (snd (fifo_step (Suc k) (-1) s)) = fifo_page_faults s + (if card (fifo_resident s) < Suc k then 0 else 1)"
    using ref(2) [of "-1"] res by (simp add: fifo_count found_def)
  show "fifo_resident (snd (fifo_step (Suc k) (-1) s)) \<subseteq> fifo_resident s" using res res' by (simp add: set_fifo_spec)
  { assume "card (fifo_resident s) < Suc k"
    with res res' show "fifo_resident (snd (fifo_step (Suc k) (-1) s)) = fifo_resident s" by (simp add: set_fifo_spec) }
  assume p: "p \<noteq> -1"
  show "fifo_page_faults (snd (fifo_step (Suc k) p s)) = fifo_page_faults s + (if p \<in> fifo_resident s then 0 else 1)"
    using ref(2) [of p] res p by (simp add: fifo_count found_def)
  { assume "p \<in> fifo_resident s"
    with p res res' show "fifo_resident (snd (fifo_step (Suc k) p s)) = fifo_resident s"
      by (simp add: set_fifo_spec) }
  { assume "p \<notin> fifo_resident s" "card (fifo_resident s) < Suc k"
    with p res res' show "fifo_resident (snd (fifo_step (Suc k) p s)) = insert p (fifo_resident s)"
      by (simp add: set_fifo_spec) }
  { assume "p \<notin> fifo_resident s" "card (fifo_resident s) = Suc k"
    with res have "p \<notin> set q" "length q = Suc k" "q \<noteq> []" "distinct q" by auto
    with p res res' show "\<exists>x \<in> fifo_resident s. fifo_resident (snd (fifo_step (Suc k) p s)) = insert p (fifo_resident s - {x})"
      by (intro bexI [of _ "hd q"]) (simp_all add: set_fifo_spec) }
qed

interpretation lru: demand_paging "lru_step (Suc k)" "lru_run (Suc k)" "lru_init (Suc k)"
  "lru_inv (Suc k)" lru_resident lru_page_faults "Suc k"
proof unfold_locales
  fix s p seq
  show "snd (lru_run (Suc k) [] s) = s" by simp
  show "snd (lru_run (Suc k) (p # seq) s) = snd (lru_run (Suc k) seq (snd (lru_step (Suc k) p s)))"
    by (simp split: prod.split)
  show "lru_inv (Suc k) (lru_init (Suc k))" using lru_rel_init by (auto simp: lru_inv_def)
  show "lru_resident (lru_init (Suc k)) = {}" "lru_page_faults (lru_init (Suc k)) = 0"
    by (auto simp: lru_resident_def lru_init_def)
  assume inv: "lru_inv (Suc k) s"
  then obtain q where r: "lru_rel (Suc k) s q" by (auto simp: lru_inv_def)
  note res = lru_rel_resident [OF r] and ref = lru_step_refines [OF r]
  note res' = lru_rel_resident [OF ref(1)]
  show "finite (lru_resident s) \<and> card (lru_resident s) \<le> Suc k \<and> -1 \<notin> lru_resident s"
    using res by (auto simp: lru_resident_def)
  show "lru_inv (Suc k) (snd (lru_step (Suc k) p s))" using ref by (auto simp: lru_inv_def)
  show "lru_page_faults (snd (lru_step (Suc k) (-1) s)) = lru_page_faults s + (if card (lru_resident s) < Suc k then 0 else 1)"
    using ref(2) [of "-1"] res by (simp add: lru_count found_def)
  show "lru_resident (snd (lru_step (Suc k) (-1) s)) \<subseteq> lru_resident s" using res res' by (simp add: set_lru_spec)
  { assume "card (lru_resident s) < Suc k"
    with res res' show "lru_resident (snd (lru_step (Suc k) (-1) s)) = lru_resident s" by (simp add: set_lru_spec) }
  assume p: "p \<noteq> -1"
  show "lru_page_faults (snd (lru_step (Suc k) p s)) = lru_page_faults s + (if p \<in> lru_resident s then 0 else 1)"
    using ref(2) [of p] res p by (simp add: lru_count found_def)
  { assume "p \<in> lru_resident s"
    with p res res' show "lru_resident (snd (lru_step (Suc k) p s)) = lru_resident s"
      by (simp add: set_lru_spec) }
  { assume "p \<notin> lru_resident s" "card (lru_resident s) < Suc k"
    with p res res' show "lru_resident (snd (lru_step (Suc k) p s)) = insert p (lru_resident s)"
      by (simp add: set_lru_spec) }
  { assume "p \<notin> lru_resident s" "card (lru_resident s) = Suc k"
    with res have "p \<notin> set q" "length q = Suc k" "q \<noteq> []" "distinct q" by auto
    with p res res' show "\<exists>x \<in> lru_resident s. lru_resident (snd (lru_step (Suc k) p s)) = insert p (lru_resident s - {x})"
      by (intro bexI [of _ "hd q"]) (simp_all add: set_lru_spec) }
qed

end
