(* ===== verification/Paging_Props.thy ===== *)
theory Paging_Props
  imports Paging
begin

text \<open>
  The properties of the page replacement simulator of \<^verbatim>\<open>src/2lab/4/4.c\<close>. The interface
  \<open>page_refinement\<close> lifts the refinement of one step to a whole reference string; it is
  interpreted for FIFO and for LRU.
\<close>

section \<open>A whole run refines the abstract simulator\<close>

fun evicted :: "page_event \<Rightarrow> int option" where
  "evicted (EvReplaced p i) = Some p"
| "evicted ev = None"

text \<open>What a step shows: whether it was a fault, which page it threw out, which pages are
  resident afterwards.\<close>

fun observe :: "page_event \<times> int list \<Rightarrow> bool \<times> int option \<times> int set" where
  "observe (ev, frames) = (is_fault ev, evicted ev, set frames - {-1})"

text \<open>The same of an abstract simulator with \<open>n\<close> frames that keeps a list of pages and throws
  out its first one.\<close>

fun spec_run :: "(int \<Rightarrow> int list \<Rightarrow> int list) \<Rightarrow> nat \<Rightarrow> int list \<Rightarrow> int list \<Rightarrow> (bool \<times> int option \<times> int set) list" where
  "spec_run spec n [] q = []"
| "spec_run spec n (p # seq) q =
     (\<not> found n p q, if \<not> found n p q \<and> length q = n then Some (hd q) else None, set (spec p q)) #
     spec_run spec n seq (spec p q)"

definition faults :: "(bool \<times> int option \<times> int set) list \<Rightarrow> nat" where
  "faults obs = length (filter fst obs)"

lemma faults_simps [simp]:
  "faults [] = 0" "faults ((b, x) # obs) = (if b then Suc (faults obs) else faults obs)"
  by (simp_all add: faults_def)

locale page_refinement =
  fixes step :: "int \<Rightarrow> 's \<Rightarrow> page_event \<times> 's"
    and run :: "int list \<Rightarrow> 's \<Rightarrow> (page_event \<times> int list) list \<times> 's"
    and frames :: "'s \<Rightarrow> int list" and count :: "'s \<Rightarrow> nat"
    and rel :: "'s \<Rightarrow> int list \<Rightarrow> bool" and spec :: "int \<Rightarrow> int list \<Rightarrow> int list" and capacity :: nat
  assumes run_Nil: "run [] s = ([], s)"
    and run_Cons: "run (p # seq) s =
      (let s1 = snd (step p s) in ((fst (step p s), frames s1) # fst (run seq s1), snd (run seq s1)))"
    and rel_step: "rel s q \<Longrightarrow> rel (snd (step p s)) (spec p q)"
    and rel_resident: "rel s q \<Longrightarrow> set (frames s) - {-1} = set q"
    and rel_event: "rel s q \<Longrightarrow> is_fault (fst (step p s)) = (\<not> found capacity p q) \<and>
      evicted (fst (step p s)) = (if \<not> found capacity p q \<and> length q = capacity then Some (hd q) else None)"
    and count_event: "count (snd (step p s)) = count s + (if is_fault (fst (step p s)) then 1 else 0)"
begin

lemma run_refines: "rel s q \<Longrightarrow>
    map observe (fst (run seq s)) = spec_run spec capacity seq q \<and>
    count (snd (run seq s)) = count s + faults (spec_run spec capacity seq q)"
proof (induction seq arbitrary: s q)
  case (Cons p seq)
  then have r: "rel (snd (step p s)) (spec p q)" by (auto intro: rel_step)
  from Cons.IH [OF r] rel_resident [OF r] rel_event [OF Cons.prems(1), of p] show ?case
    by (simp add: run_Cons Let_def count_event)
qed (simp add: run_Nil)

end

lemma fifo_evicted:
  assumes r: "fifo_rel n s q"
  shows "evicted (fst (fifo_step n page s)) = (if \<not> found n page q \<and> length q = n then Some (hd q) else None)"
proof -
  have "page \<noteq> -1 \<and> page \<notin> set q" if "\<not> found n page q" "length q < n"
    using that by (auto simp: found_def split: if_splits)
  then show ?thesis
    using fifo_hit [OF r, of page] fifo_place [OF r, of page] fifo_replace(1) [OF r, of page] fifo_rel_resident(3) [OF r]
    by (cases "found n page q"; cases "length q < n") auto
qed

interpretation fifo_ref: page_refinement "fifo_step n" "fifo_run n" fifo_frames fifo_page_faults "fifo_rel n" "fifo_spec n" n
  by unfold_locales
    (simp_all add: fifo_step_refines fifo_evicted fifo_rel_set fifo_count Let_def split: prod.split)

lemma lru_evicted:
  assumes r: "lru_rel n s q"
  shows "evicted (fst (lru_step n page s)) = (if \<not> found n page q \<and> length q = n then Some (hd q) else None)"
  using lru_hit [OF r, of page] lru_place [OF r, of page] lru_replace [OF r, of page] lru_rel_len(1) [OF r]
  by (cases "found n page q"; cases "length q < n") auto

interpretation lru_ref: page_refinement "lru_step n" "lru_run n" lru_frames lru_page_faults "lru_rel n" "lru_spec n" n
  by unfold_locales
    (simp_all add: lru_step_refines lru_evicted lru_rel_set lru_count Let_def split: prod.split)

lemma simulate_fifo_spec:
  assumes "0 < n"
  shows "map observe (fst (simulate_fifo seq n)) = spec_run (fifo_spec n) n seq []"
    and "snd (simulate_fifo seq n) = faults (spec_run (fifo_spec n) n seq [])"
  using fifo_ref.run_refines [OF fifo_rel_init [OF assms]]
  by (simp_all add: simulate_fifo_def split_beta) (simp_all add: fifo_init_def)

lemma simulate_lru_spec:
  assumes "0 < n"
  shows "map observe (fst (simulate_lru seq n)) = spec_run (lru_spec n) n seq []"
    and "snd (simulate_lru seq n) = faults (spec_run (lru_spec n) n seq [])"
  using lru_ref.run_refines [OF lru_rel_init [OF assms]]
  by (simp_all add: simulate_lru_def split_beta) (simp_all add: lru_init_def)

section \<open>LRU gains from every frame\<close>

text \<open>The list with fewer frames is a suffix of the one with more, and has no more empty frames.\<close>

definition lru_suffix :: "nat \<Rightarrow> nat \<Rightarrow> int list \<Rightarrow> int list \<Rightarrow> bool" where
  "lru_suffix n m q big \<longleftrightarrow> distinct big \<and> length big \<le> m \<and> length q \<le> n \<and>
     n + length big \<le> m + length q \<and> (\<exists>pre. big = pre @ q)"

lemma length_filter_neq: "distinct q \<Longrightarrow> p \<in> set q \<Longrightarrow> Suc (length (filter (\<lambda>x. x \<noteq> p) q)) = length q"
proof (induction q)
  case (Cons x q)
  then show ?case
  proof (cases "x = p")
    case True
    with Cons.prems have "filter (\<lambda>x. x \<noteq> p) q = q" by (intro filter_True) auto
    with True show ?thesis by simp
  qed auto
qed simp

lemma tl_suffix: "q \<noteq> [] \<Longrightarrow> \<exists>pre'. tl (pre @ q) = pre' @ tl q" "q \<noteq> [] \<Longrightarrow> \<exists>pre'. pre @ q = pre' @ tl q"
proof -
  assume "q \<noteq> []"
  then obtain x xs where "q = x # xs" by (cases q) auto
  then show "\<exists>pre'. tl (pre @ q) = pre' @ tl q" "\<exists>pre'. pre @ q = pre' @ tl q"
    by (cases pre; auto intro: exI [of _ "pre @ [x]"])+
qed

lemma load_suffix:
  assumes s: "lru_suffix n m q big" and n: "0 < n" and p: "p = -1 \<or> p \<notin> set big" and f: "p = -1 \<longrightarrow> length q = n"
  shows "lru_suffix n m (load n p q) (if p = -1 \<and> length big < m then big else load m p big)"
proof -
  from s obtain pre where b: "big = pre @ q" "distinct big" and len: "length big \<le> m" "length q \<le> n" "n + length big \<le> m + length q"
    by (auto simp: lru_suffix_def)
  show ?thesis
  proof (cases "length q = n")
    case full: True
    then have q: "q \<noteq> []" using n by auto
    from tl_suffix [OF q, of pre] b(1) obtain pre1 pre2 where pre: "tl big = pre1 @ tl q" "big = pre2 @ tl q" by auto
    define e where "e = (if p = -1 then [] else [p])"
    have e: "length e \<le> 1" "distinct e" "set e \<inter> set big = {}" "p = -1 \<longleftrightarrow> e = []" using p by (auto simp: e_def)
    have load: "load n p q = tl q @ e" using full by (simp add: load_def e_def)
    have suf: "lru_suffix n m (tl q @ e) (B @ e)"
      if "B = pre' @ tl q" "distinct B" "set B \<subseteq> set big" "length B + length e \<le> m" "length B < m" for B pre'
      using that e full q n unfolding lru_suffix_def by (auto simp: Suc_le_eq)
    show ?thesis
    proof (cases "length big < m")
      case True
      then have "(if p = -1 \<and> length big < m then big else load m p big) = big @ e" by (simp add: load_def e_def)
      moreover have "length big + length e \<le> m" using True e(1) by linarith
      ultimately show ?thesis using suf [OF pre(2) b(2)] True load by simp
    next
      case False
      have "big \<noteq> []" using b(1) q by simp
      then have l: "length (tl big) + length e \<le> m" "length (tl big) < m" using len e(1) by (cases big; simp)+
      have "(if p = -1 \<and> length big < m then big else load m p big) = tl big @ e" using False by (simp add: load_def e_def)
      moreover have "distinct (tl big)" "set (tl big) \<subseteq> set big" using b(2) by (auto simp: distinct_tl dest: in_set_tlD)
      ultimately show ?thesis using suf [OF pre(1) _ _ l] load by simp
    qed
  next
    case False
    with len have "length q < n" "length big < m" by auto
    with False p f b len show ?thesis by (auto simp: lru_suffix_def load_def)
  qed
qed

lemma lru_suffix_step:
  assumes s: "lru_suffix n m q big" and n: "0 < n"
  shows "lru_suffix n m (lru_spec n p q) (lru_spec m p big)" and "found n p q \<Longrightarrow> found m p big"
proof -
  from s obtain pre where b: "big = pre @ q" "distinct big" and len: "length big \<le> m" "length q \<le> n" "n + length big \<le> m + length q"
    by (auto simp: lru_suffix_def)
  show found: "found n p q \<Longrightarrow> found m p big" using b len by (auto simp: found_def split: if_splits)
  consider "found n p q" "p = -1" | "p \<noteq> -1" "p \<in> set q" | "p \<noteq> -1" "p \<in> set pre" "p \<notin> set q" | "p \<noteq> -1" "p \<notin> set big" | "p = -1" "\<not> found n p q"
    using b(1) by (auto simp: found_def split: if_splits)
  then show "lru_suffix n m (lru_spec n p q) (lru_spec m p big)"
  proof cases
    case 1
    with found s show ?thesis by (simp add: lru_spec_def)
  next
    case 2
    then have "filter (\<lambda>x. x \<noteq> p) pre = pre" using b by (intro filter_True) auto
    with 2 b len length_filter_neq [of q p] show ?thesis by (auto simp: lru_suffix_def lru_spec_def found_def)
  next
    case 3
    then have keep: "filter (\<lambda>x. x \<noteq> p) q = q" by (intro filter_True) auto
    have q: "length q = n \<Longrightarrow> \<exists>pre'. filter (\<lambda>x. x \<noteq> p) pre @ q = pre' @ tl q" using n tl_suffix(2) [of q] by fastforce
    show ?thesis
      using 3 b len n keep q length_filter_neq [of pre p]
      by (cases "length q < n") (auto simp: lru_suffix_def lru_spec_def found_def load_def distinct_tl dest: in_set_tlD)
  next
    case 4
    then have "p \<notin> set q" using b by auto
    with 4 load_suffix [OF s n, of p] show ?thesis by (simp add: lru_spec_def found_def)
  next
    case 5
    then have "length q = n" using len by (simp add: found_def)
    with 5 load_suffix [OF s n, of p] show ?thesis by (auto simp: lru_spec_def found_def)
  qed
qed

lemma lru_faults_mono:
  "lru_suffix n m q big \<Longrightarrow> 0 < n \<Longrightarrow>
   faults (spec_run (lru_spec m) m seq big) \<le> faults (spec_run (lru_spec n) n seq q)"
proof (induction seq arbitrary: q big)
  case (Cons p seq)
  from lru_suffix_step(2) [OF Cons.prems, of p] Cons.IH [OF lru_suffix_step(1) [OF Cons.prems, of p] Cons.prems(2)]
  show ?case by auto
qed simp

section \<open>The range of every index\<close>

fun event_slot :: "page_event \<Rightarrow> nat option" where
  "event_slot EvHit = None"
| "event_slot (EvHitFrame i) = Some i"
| "event_slot (EvPlaced i) = Some i"
| "event_slot (EvReplaced p i) = Some i"

definition slot_ok :: "nat \<Rightarrow> page_event \<times> int list \<Rightarrow> bool" where
  "slot_ok n = (\<lambda>(ev, frames). length frames = n \<and> (case event_slot ev of None \<Rightarrow> True | Some i \<Rightarrow> i < n))"

lemma fifo_step_slot:
  assumes "length (fifo_frames s) = n" and "fifo_ptr s < n" and "fifo_step n p s = (ev, t)"
  shows "length (fifo_frames t) = n" and "fifo_ptr t < n" and "slot_ok n (ev, fifo_frames t)"
  using assms find_frame_Some0 [of _ "fifo_frames s"]
  by (auto simp: fifo_step_def slot_ok_def Let_def intro!: mod_less_divisor split: option.splits)

lemma fifo_run_slots:
  "length (fifo_frames s) = n \<Longrightarrow> fifo_ptr s < n \<Longrightarrow>
   list_all (slot_ok n) (fst (fifo_run n seq s)) \<and> length (fst (fifo_run n seq s)) = length seq"
proof (induction seq arbitrary: s)
  case (Cons p seq)
  obtain ev t where st: "fifo_step n p s = (ev, t)" by fastforce
  from fifo_step_slot [OF Cons.prems st] Cons.IH [of t] st show ?case by (simp add: split_beta)
qed simp

lemma lru_step_slot:
  assumes "length (lru_frames s) = n" and "0 < n" and "lru_step n p s = (ev, t)"
  shows "length (lru_frames t) = n" and "slot_ok n (ev, lru_frames t)"
  using assms find_frame_Some0 [of _ "lru_frames s"] lru_index_least [of n "last_used s"]
  by (auto simp: lru_step_def slot_ok_def Let_def split: option.splits)

lemma lru_run_slots:
  "length (lru_frames s) = n \<Longrightarrow> 0 < n \<Longrightarrow>
   list_all (slot_ok n) (fst (lru_run n seq s)) \<and> length (fst (lru_run n seq s)) = length seq"
proof (induction seq arbitrary: s)
  case (Cons p seq)
  obtain ev t where st: "lru_step n p s = (ev, t)" by fastforce
  from lru_step_slot [OF Cons.prems st] Cons.IH [of t] Cons.prems st show ?case by (simp add: split_beta)
qed simp

lemma simulate_slots:
  assumes "0 < n"
  shows "list_all (slot_ok n) (fst (simulate_fifo seq n))" and "length (fst (simulate_fifo seq n)) = length seq"
    and "list_all (slot_ok n) (fst (simulate_lru seq n))" and "length (fst (simulate_lru seq n)) = length seq"
  using fifo_run_slots [of "fifo_init n" n seq] lru_run_slots [of "lru_init n" n seq] assms
  by (simp_all add: simulate_fifo_def simulate_lru_def fifo_init_def lru_init_def split_beta)

lemma length_read_pages: "length (fst (read_pages n input)) \<le> n"
  by (induction n input rule: read_pages.induct) (auto split: option.split prod.split)

lemma length_read_manual: "length (read_manual_sequence m input) \<le> nat m"
proof -
  have "length (fst (read_pages (nat k) input)) \<le> nat m" if "k \<le> m" for k input
    using length_read_pages [of "nat k" input] that by (simp add: nat_mono le_trans)
  then show ?thesis by (auto simp: read_manual_sequence_def split: option.split)
qed

lemma length_gen_random: "length (gen_random_sequence rnd m input) \<le> nat m"
  by (auto simp: gen_random_sequence_def Let_def split: option.split)

lemma page_main_run:
  assumes "page_main rnd input = Some r"
  shows "1 \<le> frames_used r" and "frames_used r \<le> MAX_FRAMES"
    and "seq_used r \<noteq> []" and "length (seq_used r) \<le> nat MAX_SEQ"
    and "(page_output r, page_faults r) = simulate_fifo (seq_used r) (nat (frames_used r)) \<or>
         (page_output r, page_faults r) = simulate_lru (seq_used r) (nat (frames_used r))"
  using assms length_read_manual [of MAX_SEQ] length_gen_random [of rnd MAX_SEQ]
  by (auto simp: page_main_def Let_def MAX_FRAMES_def MODE_FIFO_def MODE_LRU_def
      split: option.splits prod.splits if_splits)

section \<open>A request for the mark after any reference string\<close>

definition frames_after :: "nat \<Rightarrow> (page_event \<times> int list) list \<Rightarrow> int list" where
  "frames_after n out = (if out = [] then replicate n (-1) else snd (last out))"

lemma fifo_run_snoc:
  "fifo_run n (seq @ [p]) s =
     (let s1 = snd (fifo_run n seq s); (ev, s2) = fifo_step n p s1 in (fst (fifo_run n seq s) @ [(ev, fifo_frames s2)], s2))"
  by (induction seq arbitrary: s) (simp_all add: split_beta Let_def)

lemma lru_run_snoc:
  "lru_run n (seq @ [p]) s =
     (let s1 = snd (lru_run n seq s); (ev, s2) = lru_step n p s1 in (fst (lru_run n seq s) @ [(ev, lru_frames s2)], s2))"
  by (induction seq arbitrary: s) (simp_all add: split_beta Let_def)

lemma fifo_run_frames:
  "fifo_frames (snd (fifo_run n seq s)) = (if fst (fifo_run n seq s) = [] then fifo_frames s else snd (last (fst (fifo_run n seq s))))"
  by (induction seq rule: rev_induct) (simp_all add: fifo_run_snoc split_beta Let_def)

lemma lru_run_frames:
  "lru_frames (snd (lru_run n seq s)) = (if fst (lru_run n seq s) = [] then lru_frames s else snd (last (fst (lru_run n seq s))))"
  by (induction seq rule: rev_induct) (simp_all add: lru_run_snoc split_beta Let_def)

lemma fifo_run_state:
  "length (fifo_frames s) = n \<Longrightarrow> fifo_ptr s < n \<Longrightarrow>
   length (fifo_frames (snd (fifo_run n seq s))) = n \<and> fifo_ptr (snd (fifo_run n seq s)) < n"
proof (induction seq arbitrary: s)
  case (Cons p seq)
  obtain ev t where st: "fifo_step n p s = (ev, t)" by fastforce
  from fifo_step_slot [OF Cons.prems st] Cons.IH [of t] st show ?case by (simp add: split_beta)
qed simp

lemma lru_run_state:
  "length (lru_frames s) = n \<Longrightarrow> 0 < n \<Longrightarrow> length (lru_frames (snd (lru_run n seq s))) = n"
proof (induction seq arbitrary: s)
  case (Cons p seq)
  obtain ev t where st: "lru_step n p s = (ev, t)" by fastforce
  from lru_step_slot [OF Cons.prems st] Cons.IH [of t] Cons.prems st show ?case by (simp add: split_beta)
qed simp

lemma fifo_mark:
  "fifo_step n (-1) s =
     (if -1 \<in> set (fifo_frames s) then (EvHit, s)
      else (EvReplaced (fifo_frames s ! fifo_ptr s) (fifo_ptr s),
            s\<lparr>fifo_page_faults := fifo_page_faults s + 1, fifo_frames := (fifo_frames s)[fifo_ptr s := -1], fifo_ptr := (fifo_ptr s + 1) mod n\<rparr>))"
  using find_frame_None [of "-1" 0 "fifo_frames s"] by (auto simp: fifo_step_def Let_def split: option.split)

lemma lru_mark:
  assumes "length (lru_frames s) = n" and "0 < n"
  shows "\<exists>i < n. if -1 \<in> set (lru_frames s)
    then lru_frames s ! i = -1 \<and> fst (lru_step n (-1) s) = EvHitFrame i \<and> lru_frames (snd (lru_step n (-1) s)) = lru_frames s \<and>
      lru_page_faults (snd (lru_step n (-1) s)) = lru_page_faults s
    else fst (lru_step n (-1) s) = EvReplaced (lru_frames s ! i) i \<and> lru_frames (snd (lru_step n (-1) s)) = (lru_frames s)[i := -1] \<and>
      lru_page_faults (snd (lru_step n (-1) s)) = Suc (lru_page_faults s)"
proof (cases "find_frame (-1) 0 (lru_frames s)")
  case None
  then have "-1 \<notin> set (lru_frames s)" by (simp add: find_frame_None)
  with None lru_index_least [OF assms(2), of "last_used s"] show ?thesis
    by (intro exI [of _ "lru_index (last_used s) n"]) (simp add: lru_step_def Let_def)
next
  case (Some i)
  with find_frame_Some0 [OF Some] assms(1) have "i < n" "lru_frames s ! i = -1" "-1 \<in> set (lru_frames s)"
    by (auto simp: find_frame_None [of _ 0, symmetric] simp del: find_frame_None) (metis nth_mem)
  with Some show ?thesis
    by (intro exI [of _ i]) (auto simp: lru_step_def Let_def)
qed

lemmas spec_simps = fifo_spec_def lru_spec_def load_def found_def

section \<open>Properties\<close>

text \<open>C6. FIFO replacement. On every reference string the simulator reports a fault exactly when the
  page is not resident, keeps exactly the pages of a queue in the order of arrival, throws out
  the page that arrived first and only when every frame is used, and counts
  the faults it reports. The number -1, which marks an empty frame, is the exception that the queue states as well: a request for it is a hit while a
  frame is empty, and otherwise a fault that throws out the oldest page and brings none in.\<close>

theorem simulate_fifo_refines:
  assumes "0 < n"
  shows "map observe (fst (simulate_fifo seq n)) = spec_run (fifo_spec n) n seq [] \<and>
    snd (simulate_fifo seq n) = faults (map observe (fst (simulate_fifo seq n)))"
  using simulate_fifo_spec [OF assms] by simp

theorem simulate_fifo_refines_witness:
  "map observe (fst (simulate_fifo [7, 0, 7, 1, -1] 2)) =
     [(True, None, {7}), (True, None, {7, 0}), (False, None, {7, 0}), (True, Some 7, {0, 1}), (True, Some 0, {1})] \<and>
   snd (simulate_fifo [7, 0, 7, 1, -1] 2) = 4"
  using simulate_fifo_refines [of 2 "[7, 0, 7, 1, -1]"]
  by (simp add: spec_simps insert_commute)

text \<open>C7. LRU replacement. On every reference string the simulator reports a fault exactly when the
  page is not resident, keeps exactly the pages of a list in the order of their last use, throws
  out the page used longest ago and only when every frame is used, and counts the
  faults it reports: the time stamps implement the recency list. The number -1 is the exception that the list states as well: a request for it
  is a hit while a frame is empty, and otherwise a fault that throws out the page used longest ago and brings none in.\<close>

theorem simulate_lru_refines:
  assumes "0 < n"
  shows "map observe (fst (simulate_lru seq n)) = spec_run (lru_spec n) n seq [] \<and>
    snd (simulate_lru seq n) = faults (map observe (fst (simulate_lru seq n)))"
  using simulate_lru_spec [OF assms] by simp

theorem simulate_lru_refines_witness:
  "map observe (fst (simulate_lru [7, 0, 7, 1, -1] 2)) =
     [(True, None, {7}), (True, None, {7, 0}), (False, None, {7, 0}), (True, Some 0, {7, 1}), (True, Some 7, {1})] \<and>
   snd (simulate_lru [7, 0, 7, 1, -1] 2) = 4"
  using simulate_lru_refines [of 2 "[7, 0, 7, 1, -1]"]
  by (simp add: spec_simps insert_commute)

text \<open>C22. LRU has no anomaly: more frames never cause more faults on the same reference string, whatever numbers it has,
  -1 included.\<close>

theorem simulate_lru_monotone:
  assumes "0 < n" and "n \<le> m"
  shows "snd (simulate_lru seq m) \<le> snd (simulate_lru seq n)"
proof -
  have "lru_suffix n m [] []" using assms(2) by (simp add: lru_suffix_def)
  from lru_faults_mono [OF this assms(1)] show ?thesis
    using assms simulate_lru_spec(2) [of n seq] simulate_lru_spec(2) [of m seq] by simp
qed

theorem simulate_lru_monotone_witness:
  "snd (simulate_lru [1, 2, 3, -1, 1, 2, 5, 1, 2, 3, 4, 5] 4) \<le> snd (simulate_lru [1, 2, 3, -1, 1, 2, 5, 1, 2, 3, 4, 5] 3)"
  by (rule simulate_lru_monotone) simp_all

text \<open>FIFO has Belady's anomaly: on one reference string a fourth frame raises the number of
  faults from nine to ten.\<close>

lemma simulate_fifo_belady:
  "snd (simulate_fifo [1, 2, 3, 4, 1, 2, 5, 1, 2, 3, 4, 5] 3) = 9 \<and>
   snd (simulate_fifo [1, 2, 3, 4, 1, 2, 5, 1, 2, 3, 4, 5] 4) = 10"
  by (simp add: simulate_fifo_spec spec_simps)

text \<open>C23. Demand paging: on every reference string both simulators take at least one fault for every page of the
  string other than -1 and at most one for every request; and exactly one for every page other than -1 when the
  numbers in the string, -1 included, are not more than the frames.\<close>

theorem simulate_demand_paging:
  assumes "0 < n"
  shows "card (set seq - {-1}) \<le> snd (simulate_fifo seq n) \<and> snd (simulate_fifo seq n) \<le> length seq \<and>
    card (set seq - {-1}) \<le> snd (simulate_lru seq n) \<and> snd (simulate_lru seq n) \<le> length seq \<and>
    (card (set seq) \<le> n \<longrightarrow>
      snd (simulate_fifo seq n) = card (set seq - {-1}) \<and> snd (simulate_lru seq n) = card (set seq - {-1}))"
proof -
  obtain k where n: "n = Suc k" using assms(1) by (cases n) auto
  have f: "snd (simulate_fifo seq n) = fifo_page_faults (snd (fifo_run (Suc k) seq (fifo_init (Suc k))))"
    and l: "snd (simulate_lru seq n) = lru_page_faults (snd (lru_run (Suc k) seq (lru_init (Suc k))))"
    by (simp_all add: n simulate_fifo_def simulate_lru_def split_beta)
  show ?thesis
    using fifo.run_count_ge [OF fifo.inv_init, of k seq] fifo.run_count_le [OF fifo.inv_init, of k seq]
      fifo.run_count_fit [OF fifo.inv_init, of k seq] lru.run_count_ge [OF lru.inv_init, of k seq]
      lru.run_count_le [OF lru.inv_init, of k seq] lru.run_count_fit [OF lru.inv_init, of k seq]
    unfolding f l by (simp add: fifo.resident_init fifo.count_init lru.resident_init lru.count_init n)
qed

theorem simulate_demand_paging_witness:
  "snd (simulate_fifo [5, 6, -1, 6] 3) = 2 \<and> snd (simulate_lru [5, 6, -1, 6] 3) = 2"
proof -
  have "card (set [5, 6, -1, 6 :: int]) = 3" "card (set [5, 6, -1, 6 :: int] - {-1}) = 2" by code_simp+
  then show ?thesis using simulate_demand_paging [of 3 "[5, 6, -1, 6]"] by (simp del: list.set)
qed

text \<open>C24. Array bounds: whatever is typed in, a simulation that starts has between 1 and
  \<open>MAX_FRAMES\<close> frames and between 1 and \<open>MAX_SEQ\<close> requests, every slot it reports lies
  inside the array of frames, and it prints one line per request.\<close>

theorem page_main_bounds:
  assumes "page_main rnd input = Some r"
  shows "1 \<le> frames_used r \<and> frames_used r \<le> MAX_FRAMES \<and>
    1 \<le> length (seq_used r) \<and> int (length (seq_used r)) \<le> MAX_SEQ \<and>
    list_all (slot_ok (nat (frames_used r))) (page_output r) \<and> length (page_output r) = length (seq_used r)"
proof -
  note run = page_main_run [OF assms]
  have "0 < nat (frames_used r)" using run(1) by simp
  from simulate_slots [OF this, of "seq_used r"] run(5)
  have "list_all (slot_ok (nat (frames_used r))) (page_output r) \<and> length (page_output r) = length (seq_used r)"
    by (metis fst_conv)
  with run(1-4) show ?thesis by (simp add: MAX_SEQ_def Suc_le_eq)
qed

theorem page_main_bounds_witness:
  "\<exists>r. page_main (\<lambda>i. 0) [1, 500, 2, 3, 7, 0, 7] = Some r \<and> frames_used r = 3 \<and>
     list_all (slot_ok (nat (frames_used r))) (page_output r)"
proof -
  have "\<exists>r. page_main (\<lambda>i. 0) [1, 500, 2, 3, 7, 0, 7] = Some r \<and> frames_used r = 3"
    by (simp add: page_main_def Let_def MAX_FRAMES_def MAX_SEQ_def MODE_FIFO_def MODE_LRU_def
        read_manual_sequence_def numeral_eq_Suc split_beta)
  then show ?thesis using page_main_bounds by blast
qed

text \<open>Generated reference strings: with the values of \<open>rand()\<close> not negative every generated
  page lies in the range the user asked for, so it is never the mark of an empty frame.\<close>

lemma gen_random_sequence_range:
  assumes "\<forall>i. 0 \<le> rnd i" and "p \<in> set (gen_random_sequence rnd max_len (n # max_page # input))"
  shows "0 \<le> p \<and> p < max 2 max_page"
  using assms(2) by (auto simp: gen_random_sequence_def Let_def split: if_splits)

text \<open>C25. The mark of an empty frame is also a page number a user can type. After any reference string a request for
  -1 is, in both simulators, a hit that leaves the frames and the number of faults as they are while a frame is
  empty; otherwise it is counted as a fault, throws out a page and leaves its frame marked as empty, so that the next request for
  -1 is a hit again. The page -1 is never loaded.\<close>

theorem page_sentinel:
  assumes "0 < n"
  shows "(case simulate_fifo seq n of (out, k) \<Rightarrow> let f = frames_after n out in
      if -1 \<in> set f then simulate_fifo (seq @ [-1]) n = (out @ [(EvHit, f)], k)
      else \<exists>i < n. simulate_fifo (seq @ [-1]) n = (out @ [(EvReplaced (f ! i) i, f[i := -1])], Suc k)) \<and>
    (case simulate_lru seq n of (out, k) \<Rightarrow> let f = frames_after n out in
      if -1 \<in> set f then \<exists>i < n. f ! i = -1 \<and> simulate_lru (seq @ [-1]) n = (out @ [(EvHitFrame i, f)], k)
      else \<exists>i < n. simulate_lru (seq @ [-1]) n = (out @ [(EvReplaced (f ! i) i, f[i := -1])], Suc k))"
proof
  let ?s = "snd (fifo_run n seq (fifo_init n))"
  have s: "length (fifo_frames ?s) = n" "fifo_ptr ?s < n" using fifo_run_state [of "fifo_init n" n seq] assms by (simp_all add: fifo_init_def)
  have "frames_after n (fst (simulate_fifo seq n)) = fifo_frames ?s"
    using fifo_run_frames [of n seq "fifo_init n"] by (simp add: simulate_fifo_def frames_after_def split_beta fifo_init_def)
  moreover have "simulate_fifo (seq @ [-1]) n =
      (fst (simulate_fifo seq n) @ [(fst (fifo_step n (-1) ?s), fifo_frames (snd (fifo_step n (-1) ?s)))], fifo_page_faults (snd (fifo_step n (-1) ?s)))"
    "snd (simulate_fifo seq n) = fifo_page_faults ?s"
    by (simp_all add: simulate_fifo_def fifo_run_snoc split_beta Let_def)
  ultimately show "case simulate_fifo seq n of (out, k) \<Rightarrow> let f = frames_after n out in
      if -1 \<in> set f then simulate_fifo (seq @ [-1]) n = (out @ [(EvHit, f)], k)
      else \<exists>i < n. simulate_fifo (seq @ [-1]) n = (out @ [(EvReplaced (f ! i) i, f[i := -1])], Suc k)"
    using fifo_mark [of n ?s] s by (auto simp: Let_def split_beta)
  let ?t = "snd (lru_run n seq (lru_init n))"
  have t: "length (lru_frames ?t) = n" using lru_run_state [of "lru_init n" n seq] assms by (simp add: lru_init_def)
  have "frames_after n (fst (simulate_lru seq n)) = lru_frames ?t"
    using lru_run_frames [of n seq "lru_init n"] by (simp add: simulate_lru_def frames_after_def split_beta lru_init_def)
  moreover have "simulate_lru (seq @ [-1]) n =
      (fst (simulate_lru seq n) @ [(fst (lru_step n (-1) ?t), lru_frames (snd (lru_step n (-1) ?t)))], lru_page_faults (snd (lru_step n (-1) ?t)))"
    "snd (simulate_lru seq n) = lru_page_faults ?t"
    by (simp_all add: simulate_lru_def lru_run_snoc split_beta Let_def)
  ultimately show "case simulate_lru seq n of (out, k) \<Rightarrow> let f = frames_after n out in
      if -1 \<in> set f then \<exists>i < n. f ! i = -1 \<and> simulate_lru (seq @ [-1]) n = (out @ [(EvHitFrame i, f)], k)
      else \<exists>i < n. simulate_lru (seq @ [-1]) n = (out @ [(EvReplaced (f ! i) i, f[i := -1])], Suc k)"
    using lru_mark [OF t assms] by (auto simp: Let_def split_beta)
qed

theorem page_sentinel_witness:
  "simulate_fifo ([] @ [-1]) 3 = ([] @ [(EvHit, [-1, -1, -1])], 0) \<and>
   (\<exists>i < 3. simulate_lru ([] @ [-1]) 3 = ([] @ [(EvHitFrame i, [-1, -1, -1])], 0))"
proof -
  have "simulate_fifo [] 3 = ([], 0)" "simulate_lru [] 3 = ([], 0)" "frames_after 3 [] = [-1, -1, -1]"
    by (simp_all add: simulate_fifo_def simulate_lru_def fifo_init_def lru_init_def frames_after_def numeral_eq_Suc)
  with page_sentinel [of 3 "[]"] show ?thesis by (auto simp: Let_def)
qed

end
