(* ===== verification/M2m_Dev.thy ===== *)
theory M2m_Dev
  imports OS_Prelude
begin

text \<open>
  The message queue device of \<^verbatim>\<open>src/3lab/dev/glo_pro.c\<close>: messages of at most \<open>MAX_MSG\<close>
  bytes, a queue that is meant to hold at most \<open>MAX_BYTES\<close> bytes, many readers and many
  writers. This theory has the data, the file operations as one call sees them when no other call
  runs, and the loading and unloading of the module. \<open>M2m_Sys\<close> has the same operations split at
  every point where another thread may run.

  A \<open>size_t\<close> is a 64-bit word, an \<open>atomic_t\<close> a 32-bit word. What the kernel decides (whether an
  allocation succeeds, how many bytes a copy to or from user space leaves out, whether a
  signal is pending, what a registration returns) is an argument.
\<close>

section \<open>Data\<close>

type_synonym size_t = "64 word"
type_synonym bytes = "8 word list"

definition MAX_BYTES :: size_t where "MAX_BYTES = 64 * 1024"
definition MAX_MSG :: size_t where "MAX_MSG = 4 * 1024"

definition EAGAIN :: int where "EAGAIN = 11"
definition ENOMEM :: int where "ENOMEM = 12"
definition EFAULT :: int where "EFAULT = 14"
definition EMSGSIZE :: int where "EMSGSIZE = 90"
definition ERESTARTSYS :: int where "ERESTARTSYS = 512"

lemmas errno_defs = EAGAIN_def ENOMEM_def EFAULT_def EMSGSIZE_def ERESTARTSYS_def

text \<open>\<open>msg_data\<close> are the bytes of the buffer that have been written: none after \<open>msg_alloc\<close>.\<close>

record msg =
  msg_len :: size_t
  msg_data :: bytes

record client_ctx =
  is_reader :: bool
  is_writer :: bool

record m2m_file =
  f_nonblock :: bool
  private_data :: "client_ctx option"

text \<open>A pointer the kernel returns: NULL, an error code, or an object.\<close>

datatype kptr = NullPtr | ErrPtr int | ObjPtr

fun is_err :: "kptr \<Rightarrow> bool" where
  "is_err (ErrPtr e) = True"
| "is_err p = False"

fun ptr_err :: "kptr \<Rightarrow> int" where
  "ptr_err (ErrPtr e) = e"
| "ptr_err p = 0"

definition is_err_or_null :: "kptr \<Rightarrow> bool" where
  "is_err_or_null p \<longleftrightarrow> is_err p \<or> p = NullPtr"

text \<open>The device. The first four fields are the objects the kernel keeps for the module, the last
  one counts the allocations that are not yet freed.\<close>

record mydev =
  region_live :: bool
  cdev_live :: bool
  class_live :: bool
  device_live :: bool
  dev_class :: kptr
  dev_device :: kptr
  msg_list :: "msg list"
  queued_bytes :: size_t
  readers :: "32 word"
  writers :: "32 word"
  kmem :: nat

section \<open>Allocation\<close>

definition kmalloc :: "mydev \<Rightarrow> mydev" where
  "kmalloc dev = dev\<lparr>kmem := kmem dev + 1\<rparr>"

definition kfree :: "mydev \<Rightarrow> mydev" where
  "kfree dev = dev\<lparr>kmem := kmem dev - 1\<rparr>"

text \<open>The two booleans tell whether the two allocations succeed.\<close>

definition msg_alloc :: "bool \<Rightarrow> bool \<Rightarrow> size_t \<Rightarrow> mydev \<Rightarrow> msg option \<times> mydev" where
  "msg_alloc ok_msg ok_data len dev =
     (if \<not> ok_msg then (None, dev)
      else let dev1 = kmalloc dev in
        if \<not> ok_data then (None, kfree dev1)
        else (Some \<lparr>msg_len = len, msg_data = []\<rparr>, kmalloc dev1))"

definition msg_free :: "msg option \<Rightarrow> mydev \<Rightarrow> mydev" where
  "msg_free m dev = (case m of None \<Rightarrow> dev | Some _ \<Rightarrow> kfree (kfree dev))"

section \<open>Open and release\<close>

definition m2m_open :: "bool \<Rightarrow> m2m_file \<Rightarrow> mydev \<Rightarrow> int \<times> m2m_file \<times> mydev" where
  "m2m_open ok filp dev =
     (if \<not> ok then (- ENOMEM, filp, dev)
      else (0, filp\<lparr>private_data := Some \<lparr>is_reader = True, is_writer = True\<rparr>\<rparr>,
            (kmalloc dev)\<lparr>readers := readers dev + 1, writers := writers dev + 1\<rparr>))"

definition m2m_release :: "m2m_file \<Rightarrow> mydev \<Rightarrow> int \<times> m2m_file \<times> mydev" where
  "m2m_release filp dev =
     (case private_data filp of
        None \<Rightarrow> (0, filp, dev)
      | Some ctx \<Rightarrow>
          (0, filp\<lparr>private_data := None\<rparr>,
           kfree (dev\<lparr>readers := readers dev - 1, writers := writers dev - 1\<rparr>)))"

section \<open>Read, write, poll\<close>

text \<open>What the kernel decides during one call. \<open>copy_left\<close> is the number of bytes that
  \<open>copy_to_user\<close> or \<open>copy_from_user\<close> could not copy.\<close>

record m2m_env =
  ok_msg :: bool
  ok_data :: bool
  copy_left :: nat
  signalled :: bool

text \<open>A call returns a value, the user's buffer and the device, or sleeps until another call
  wakes it.\<close>

datatype m2m_outcome = Return int bytes mydev | Sleeping mydev

text \<open>The bytes a copy of \<open>n\<close> bytes that leaves out \<open>left\<close> of them writes to the user's buffer.\<close>

definition copy_to_user :: "nat \<Rightarrow> nat \<Rightarrow> bytes \<Rightarrow> bytes \<Rightarrow> bytes" where
  "copy_to_user n left src buf = take (n - left) src @ drop (n - left) buf"

text \<open>Both ways to find the device, through the context and without it, give \<open>m2m_chardev\<close>. The
  second test of the list, after the wait, can only fail when another call ran in between.\<close>

definition m2m_read :: "m2m_env \<Rightarrow> m2m_file \<Rightarrow> size_t \<Rightarrow> bytes \<Rightarrow> mydev \<Rightarrow> m2m_outcome" where
  "m2m_read env filp cnt buf dev =
     (if f_nonblock filp \<and> msg_list dev = [] then Return (- EAGAIN) buf dev
      else if msg_list dev = [] then
        (if signalled env then Return (- ERESTARTSYS) buf dev else Sleeping dev)
      else
        (case msg_list dev of
           [] \<Rightarrow> Return (- EAGAIN) buf dev
         | m # rest \<Rightarrow>
             let dev1 = dev\<lparr>msg_list := rest, queued_bytes := queued_bytes dev - msg_len m\<rparr>;
                 to_copy = min cnt (msg_len m);
                 buf1 = copy_to_user (unat to_copy) (copy_left env) (msg_data m) buf
             in if copy_left env \<noteq> 0 then Return (- EFAULT) buf1 (msg_free (Some m) dev1)
                else Return (uint to_copy) buf1 (msg_free (Some m) dev1)))"

definition m2m_write :: "m2m_env \<Rightarrow> m2m_file \<Rightarrow> size_t \<Rightarrow> bytes \<Rightarrow> mydev \<Rightarrow> m2m_outcome" where
  "m2m_write env filp cnt buf dev =
     (if cnt = 0 then Return 0 buf dev
      else if cnt > MAX_MSG then Return (- EMSGSIZE) buf dev
      else if \<not> queued_bytes dev + cnt \<le> MAX_BYTES then
        (if f_nonblock filp then Return (- EAGAIN) buf dev
         else if signalled env then Return (- ERESTARTSYS) buf dev
         else Sleeping dev)
      else
        (case msg_alloc (ok_msg env) (ok_data env) cnt dev of
           (None, dev1) \<Rightarrow> Return (- ENOMEM) buf dev1
         | (Some m, dev1) \<Rightarrow>
             if copy_left env \<noteq> 0 then Return (- EFAULT) buf (msg_free (Some m) dev1)
             else let m1 = m\<lparr>msg_data := take (unat cnt) buf\<rparr>
             in Return (uint cnt) buf
                  (dev1\<lparr>msg_list := msg_list dev1 @ [m1],
                        queued_bytes := queued_bytes dev1 + msg_len m1\<rparr>)))"

text \<open>The mask as four flags: POLLIN, POLLRDNORM, POLLOUT, POLLWRNORM.\<close>

record poll_mask =
  pollin :: bool
  pollrdnorm :: bool
  pollout :: bool
  pollwrnorm :: bool

definition m2m_poll :: "mydev \<Rightarrow> poll_mask" where
  "m2m_poll dev =
     (let mask = \<lparr>pollin = False, pollrdnorm = False, pollout = False, pollwrnorm = False\<rparr>;
          mask1 = (if msg_list dev \<noteq> [] then mask\<lparr>pollin := True, pollrdnorm := True\<rparr> else mask)
      in if queued_bytes dev < MAX_BYTES then mask1\<lparr>pollout := True, pollwrnorm := True\<rparr> else mask1)"

section \<open>Loading and unloading\<close>

record init_env =
  chrdev_ret :: int
  cdev_ret :: int
  class_ret :: kptr
  device_ret :: kptr

definition m2m_chardev_zero :: mydev where
  "m2m_chardev_zero = \<lparr>region_live = False, cdev_live = False, class_live = False, device_live = False,
     dev_class = NullPtr, dev_device = NullPtr, msg_list = [], queued_bytes = 0, readers = 0, writers = 0,
     kmem = 0\<rparr>"

definition unregister_chrdev_region :: "mydev \<Rightarrow> mydev" where
  "unregister_chrdev_region dev = dev\<lparr>region_live := False\<rparr>"

definition cdev_del :: "mydev \<Rightarrow> mydev" where
  "cdev_del dev = dev\<lparr>cdev_live := False\<rparr>"

definition class_destroy :: "mydev \<Rightarrow> mydev" where
  "class_destroy dev = dev\<lparr>class_live := False\<rparr>"

definition device_destroy :: "mydev \<Rightarrow> mydev" where
  "device_destroy dev = dev\<lparr>device_live := False\<rparr>"

text \<open>The registration of the device number succeeds or fails the same way for a given and for
  an allocated major number: \<open>chrdev_ret\<close> is what the call that is made returns.\<close>

definition m2m_init :: "init_env \<Rightarrow> mydev \<Rightarrow> int \<times> mydev" where
  "m2m_init env dev =
     (let dev0 = dev\<lparr>msg_list := [], readers := 0, writers := 0, queued_bytes := 0\<rparr> in
      if chrdev_ret env \<noteq> 0 then (chrdev_ret env, dev0)
      else let dev1 = dev0\<lparr>region_live := True\<rparr> in
      if cdev_ret env \<noteq> 0 then (cdev_ret env, unregister_chrdev_region dev1)
      else let dev2 = dev1\<lparr>cdev_live := True\<rparr>;
               dev3 = dev2\<lparr>dev_class := class_ret env, class_live := \<not> is_err (class_ret env)\<rparr> in
      if is_err (dev_class dev3) then
        (ptr_err (dev_class dev3), unregister_chrdev_region (cdev_del dev3))
      else let dev4 = dev3\<lparr>dev_device := device_ret env, device_live := \<not> is_err (device_ret env)\<rparr> in
      if is_err (dev_device dev4) then
        (ptr_err (dev_device dev4), unregister_chrdev_region (cdev_del (class_destroy dev4)))
      else (0, dev4))"

text \<open>The loop over the remaining messages. \<open>queued_bytes\<close> is left as it is.\<close>

fun free_messages :: "msg list \<Rightarrow> mydev \<Rightarrow> mydev" where
  "free_messages [] dev = dev"
| "free_messages (m # ms) dev = free_messages ms (msg_free (Some m) (dev\<lparr>msg_list := ms\<rparr>))"

definition m2m_exit :: "mydev \<Rightarrow> mydev" where
  "m2m_exit dev =
     (let dev1 = (if \<not> is_err_or_null (dev_device dev) then device_destroy dev else dev);
          dev2 = (if \<not> is_err_or_null (dev_class dev1) then class_destroy dev1 else dev1);
          dev3 = unregister_chrdev_region (cdev_del dev2)
      in free_messages (msg_list dev3) dev3)"

section \<open>What the operations change\<close>

lemmas alloc_defs [dev_defs] = kmalloc_def kfree_def msg_alloc_def msg_free_def
lemmas kernel_defs [dev_defs] = unregister_chrdev_region_def cdev_del_def class_destroy_def device_destroy_def

definition no_kernel_objects :: "mydev \<Rightarrow> bool" where
  "no_kernel_objects dev \<longleftrightarrow> \<not> region_live dev \<and> \<not> cdev_live dev \<and> \<not> class_live dev \<and> \<not> device_live dev"

lemma free_messages_result:
  "kmem (free_messages ms dev) = kmem dev - 2 * length ms"
  "msg_list dev = ms \<Longrightarrow> msg_list (free_messages ms dev) = []"
  "no_kernel_objects (free_messages ms dev) = no_kernel_objects dev"
  by (induction ms dev rule: free_messages.induct) (simp_all add: dev_defs no_kernel_objects_def)

lemma m2m_exit_result:
  "kmem (m2m_exit dev) = kmem dev - 2 * length (msg_list dev)" "msg_list (m2m_exit dev) = []"
  by (simp_all add: m2m_exit_def Let_def kernel_defs free_messages_result)

text \<open>A well formed message, and the bytes of a queue.\<close>

definition wf_msg :: "msg \<Rightarrow> bool" where
  "wf_msg m \<longleftrightarrow> 0 < msg_len m \<and> msg_len m \<le> MAX_MSG \<and> length (msg_data m) = unat (msg_len m)"

definition bytes_of :: "msg list \<Rightarrow> nat" where
  "bytes_of ms = (\<Sum>m\<leftarrow>ms. unat (msg_len m))"

lemma bytes_of_simps [simp]:
  "bytes_of [] = 0" "bytes_of (m # ms) = unat (msg_len m) + bytes_of ms"
  "bytes_of (ms @ ms') = bytes_of ms + bytes_of ms'"
  by (simp_all add: bytes_of_def)

lemma unat_MAX [simp]: "unat MAX_BYTES = 65536" "unat MAX_MSG = 4096"
  by (simp_all add: MAX_BYTES_def MAX_MSG_def)

end
