(* ===== verification/M2m_Sys.thy ===== *)
theory M2m_Sys
  imports M2m_Dev
begin

text \<open>
  The message queue device under concurrent calls. Every thread has a file of its own and runs one
  file operation at a time; a step is one thread doing one thing: taking or releasing
  \<open>dev->lock\<close>, one statement of a critical section, one evaluation of a wait condition, a
  copy, a wake-up. So every interleaving the lock allows is an execution.
  A thread in \<open>R_sleep\<close> or \<open>W_sleep\<close> is in \<open>wait_event_interruptible\<close> with a condition
  that was false; only a wake-up of its queue or a signal takes it out of there.

  The fields \<open>sent\<close> and \<open>received\<close> record the messages put into and taken from the list.
\<close>

section \<open>Threads\<close>

datatype m2m_pc =
    Idle
  | R_check_lock | R_check | R_check_unlock bool
  | R_wait | R_sleep
  | R_lock | R_test | R_test_unlock
  | R_sub msg | R_unlock msg | R_copy msg | R_free msg int | R_wake int
  | W_lock | W_check | W_check_unlock bool
  | W_wait | W_sleep
  | W_alloc | W_copy msg | W_fault msg
  | W_add_lock msg | W_append msg | W_add msg | W_add_unlock | W_wake

record m2m_thread =
  pc :: m2m_pc
  filp :: m2m_file
  cnt :: size_t
  ubuf :: bytes
  result :: int

record m2m_sys =
  dev :: mydev
  lock :: "nat option"
  threads :: "m2m_thread list"
  sent :: "msg list"
  received :: "msg list"

datatype m2m_action =
    Open bool bool
  | Release
  | Call_read size_t bytes
  | Call_write size_t bytes
  | Run m2m_env

definition goto :: "m2m_pc \<Rightarrow> nat \<Rightarrow> m2m_sys \<Rightarrow> m2m_sys" where
  "goto p t s = s\<lparr>threads := (threads s)[t := (threads s ! t)\<lparr>pc := p\<rparr>]\<rparr>"

definition finish :: "int \<Rightarrow> nat \<Rightarrow> m2m_sys \<Rightarrow> m2m_sys" where
  "finish r t s = s\<lparr>threads := (threads s)[t := (threads s ! t)\<lparr>pc := Idle, result := r\<rparr>]\<rparr>"

definition acquire :: "m2m_pc \<Rightarrow> nat \<Rightarrow> m2m_sys \<Rightarrow> m2m_sys option" where
  "acquire p t s = (if lock s = None then Some (goto p t (s\<lparr>lock := Some t\<rparr>)) else None)"

definition release :: "m2m_sys \<Rightarrow> m2m_sys" where
  "release s = s\<lparr>lock := None\<rparr>"

text \<open>\<open>wake_up_interruptible\<close> makes every thread of the queue evaluate its condition again.\<close>

definition wake_readq :: "m2m_sys \<Rightarrow> m2m_sys" where
  "wake_readq s = s\<lparr>threads := map (\<lambda>th. if pc th = R_sleep then th\<lparr>pc := R_wait\<rparr> else th) (threads s)\<rparr>"

definition wake_writeq :: "m2m_sys \<Rightarrow> m2m_sys" where
  "wake_writeq s = s\<lparr>threads := map (\<lambda>th. if pc th = W_sleep then th\<lparr>pc := W_wait\<rparr> else th) (threads s)\<rparr>"

section \<open>\<open>m2m_read\<close>, step by step\<close>

definition read_step :: "m2m_env \<Rightarrow> nat \<Rightarrow> m2m_sys \<Rightarrow> m2m_sys option" where
  "read_step env t s =
     (case pc (threads s ! t) of
        R_check_lock \<Rightarrow> acquire R_check t s
      | R_check \<Rightarrow> Some (goto (R_check_unlock (msg_list (dev s) \<noteq> [])) t s)
      | R_check_unlock nonempty \<Rightarrow>
          Some (if nonempty then goto R_wait t (release s) else finish (- EAGAIN) t (release s))
      | R_wait \<Rightarrow>
          Some (if msg_list (dev s) \<noteq> [] then goto R_lock t s
                else if signalled env then finish (- ERESTARTSYS) t s
                else goto R_sleep t s)
      | R_sleep \<Rightarrow> if signalled env then Some (goto R_wait t s) else None
      | R_lock \<Rightarrow> acquire R_test t s
      | R_test \<Rightarrow>
          (case msg_list (dev s) of
             [] \<Rightarrow> Some (goto R_test_unlock t s)
           | m # rest \<Rightarrow>
               Some (goto (R_sub m) t (s\<lparr>dev := (dev s)\<lparr>msg_list := rest\<rparr>, received := received s @ [m]\<rparr>)))
      | R_test_unlock \<Rightarrow> Some (finish (- EAGAIN) t (release s))
      | R_sub m \<Rightarrow>
          Some (goto (R_unlock m) t (s\<lparr>dev := (dev s)\<lparr>queued_bytes := queued_bytes (dev s) - msg_len m\<rparr>\<rparr>))
      | R_unlock m \<Rightarrow> Some (goto (R_copy m) t (release s))
      | R_copy m \<Rightarrow>
          let th = threads s ! t;
              to_copy = min (cnt th) (msg_len m);
              buf1 = copy_to_user (unat to_copy) (copy_left env) (msg_data m) (ubuf th);
              r = (if copy_left env \<noteq> 0 then - EFAULT else uint to_copy)
          in Some (s\<lparr>threads := (threads s)[t := th\<lparr>ubuf := buf1, pc := R_free m r\<rparr>]\<rparr>)
      | R_free m r \<Rightarrow> Some (goto (R_wake r) t (s\<lparr>dev := msg_free (Some m) (dev s)\<rparr>))
      | R_wake r \<Rightarrow> Some (finish r t (wake_writeq s))
      | _ \<Rightarrow> None)"

section \<open>\<open>m2m_write\<close>, step by step\<close>

definition write_step :: "m2m_env \<Rightarrow> nat \<Rightarrow> m2m_sys \<Rightarrow> m2m_sys option" where
  "write_step env t s =
     (let th = threads s ! t in
      case pc th of
        W_lock \<Rightarrow> acquire W_check t s
      | W_check \<Rightarrow> Some (goto (W_check_unlock (queued_bytes (dev s) + cnt th \<le> MAX_BYTES)) t s)
      | W_check_unlock room \<Rightarrow>
          Some (if room then goto W_alloc t (release s)
                else if f_nonblock (filp th) then finish (- EAGAIN) t (release s)
                else goto W_wait t (release s))
      | W_wait \<Rightarrow>
          Some (if queued_bytes (dev s) + cnt th \<le> MAX_BYTES then goto W_lock t s
                else if signalled env then finish (- ERESTARTSYS) t s
                else goto W_sleep t s)
      | W_sleep \<Rightarrow> if signalled env then Some (goto W_wait t s) else None
      | W_alloc \<Rightarrow>
          (case msg_alloc (ok_msg env) (ok_data env) (cnt th) (dev s) of
             (None, dev1) \<Rightarrow> Some (finish (- ENOMEM) t (s\<lparr>dev := dev1\<rparr>))
           | (Some m, dev1) \<Rightarrow> Some (goto (W_copy m) t (s\<lparr>dev := dev1\<rparr>)))
      | W_copy m \<Rightarrow>
          Some (if copy_left env \<noteq> 0 then goto (W_fault m) t s
                else goto (W_add_lock (m\<lparr>msg_data := take (unat (cnt th)) (ubuf th)\<rparr>)) t s)
      | W_fault m \<Rightarrow> Some (finish (- EFAULT) t (s\<lparr>dev := msg_free (Some m) (dev s)\<rparr>))
      | W_add_lock m \<Rightarrow> acquire (W_append m) t s
      | W_append m \<Rightarrow>
          Some (goto (W_add m) t (s\<lparr>dev := (dev s)\<lparr>msg_list := msg_list (dev s) @ [m]\<rparr>, sent := sent s @ [m]\<rparr>))
      | W_add m \<Rightarrow>
          Some (goto W_add_unlock t (s\<lparr>dev := (dev s)\<lparr>queued_bytes := queued_bytes (dev s) + msg_len m\<rparr>\<rparr>))
      | W_add_unlock \<Rightarrow> Some (goto W_wake t (release s))
      | W_wake \<Rightarrow> Some (finish (uint (cnt th)) t (wake_readq s))
      | _ \<Rightarrow> None)"

section \<open>The system\<close>

definition is_read_pc :: "m2m_pc \<Rightarrow> bool" where
  "is_read_pc p = (case p of
     R_check_lock \<Rightarrow> True | R_check \<Rightarrow> True | R_check_unlock b \<Rightarrow> True | R_wait \<Rightarrow> True | R_sleep \<Rightarrow> True
   | R_lock \<Rightarrow> True | R_test \<Rightarrow> True | R_test_unlock \<Rightarrow> True | R_sub m \<Rightarrow> True | R_unlock m \<Rightarrow> True
   | R_copy m \<Rightarrow> True | R_free m r \<Rightarrow> True | R_wake r \<Rightarrow> True | _ \<Rightarrow> False)"

text \<open>A thread between two calls may open its file, close it, or start a call on the open file; the
  checks of \<open>m2m_write\<close> on its argument and the test of \<open>O_NONBLOCK\<close> need no other thread.\<close>

definition m2m_step :: "m2m_action \<Rightarrow> nat \<Rightarrow> m2m_sys \<Rightarrow> m2m_sys option" where
  "m2m_step a t s =
     (if \<not> t < length (threads s) then None
      else let th = threads s ! t in
      case a of
        Run env \<Rightarrow> if is_read_pc (pc th) then read_step env t s else write_step env t s
      | Open ok nonblock \<Rightarrow>
          if pc th \<noteq> Idle \<or> private_data (filp th) \<noteq> None then None
          else let (r, f, d) = m2m_open ok \<lparr>f_nonblock = nonblock, private_data = None\<rparr> (dev s)
            in Some (s\<lparr>dev := d, threads := (threads s)[t := th\<lparr>filp := f, result := r\<rparr>]\<rparr>)
      | Release \<Rightarrow>
          if pc th \<noteq> Idle \<or> private_data (filp th) = None then None
          else let (r, f, d) = m2m_release (filp th) (dev s)
            in Some (s\<lparr>dev := d, threads := (threads s)[t := th\<lparr>filp := f, result := r\<rparr>]\<rparr>)
      | Call_read n buf \<Rightarrow>
          if pc th \<noteq> Idle \<or> private_data (filp th) = None \<or> length buf \<noteq> unat n then None
          else Some (s\<lparr>threads := (threads s)[t := th\<lparr>cnt := n, ubuf := buf,
                 pc := (if f_nonblock (filp th) then R_check_lock else R_wait)\<rparr>]\<rparr>)
      | Call_write n buf \<Rightarrow>
          if pc th \<noteq> Idle \<or> private_data (filp th) = None \<or> length buf \<noteq> unat n then None
          else let th1 = th\<lparr>cnt := n, ubuf := buf\<rparr> in
            if n = 0 then Some (finish 0 t (s\<lparr>threads := (threads s)[t := th1]\<rparr>))
            else if n > MAX_MSG then Some (finish (- EMSGSIZE) t (s\<lparr>threads := (threads s)[t := th1]\<rparr>))
            else Some (goto W_lock t (s\<lparr>threads := (threads s)[t := th1]\<rparr>)))"

inductive m2m_trans :: "m2m_sys \<Rightarrow> m2m_sys \<Rightarrow> bool" where
  m2m_trans: "m2m_step a t s = Some s' \<Longrightarrow> m2m_trans s s'"

inductive_cases m2m_transE: "m2m_trans s s'"

definition idle_thread :: m2m_thread where
  "idle_thread = \<lparr>pc = Idle, filp = \<lparr>f_nonblock = False, private_data = None\<rparr>, cnt = 0, ubuf = [], result = 0\<rparr>"

text \<open>The system after the module is loaded, with \<open>n\<close> threads that have not opened the device.\<close>

definition m2m_start :: "init_env \<Rightarrow> nat \<Rightarrow> m2m_sys" where
  "m2m_start env n = \<lparr>dev = snd (m2m_init env m2m_chardev_zero), lock = None, threads = replicate n idle_thread,
     sent = [], received = []\<rparr>"

text \<open>A schedule: the actions of the threads one after the other.\<close>

fun m2m_exec :: "(m2m_action \<times> nat) list \<Rightarrow> m2m_sys \<Rightarrow> m2m_sys option" where
  "m2m_exec [] s = Some s"
| "m2m_exec ((a, t) # sched) s = (case m2m_step a t s of None \<Rightarrow> None | Some s' \<Rightarrow> m2m_exec sched s')"

lemma m2m_exec_reach: "m2m_exec sched s = Some s' \<Longrightarrow> m2m_trans\<^sup>*\<^sup>* s s'"
proof (induction sched arbitrary: s)
  case (Cons x sched)
  obtain a t where x: "x = (a, t)" by fastforce
  with Cons.prems obtain s1 where "m2m_step a t s = Some s1" "m2m_exec sched s1 = Some s'"
    by (auto split: option.splits)
  with Cons.IH show ?case by (meson converse_rtranclp_into_rtranclp m2m_trans)
qed simp

end
