(* ===== verification/M2m_Inv.thy ===== *)
theory M2m_Inv
  imports M2m_Sys
begin

text \<open>
  The invariants of the message queue device under concurrent calls: mutual exclusion, the byte
  counter, the bound of the queue, the order of the messages, wake-ups and allocations. Each is
  kept by every step of every thread.
\<close>

section \<open>Steps\<close>

lemmas sys_defs [dev_defs] = goto_def finish_def acquire_def release_def wake_readq_def wake_writeq_def
lemmas step_defs = m2m_step_def read_step_def write_step_def is_read_pc_def m2m_open_def m2m_release_def
lemmas step_splits = m2m_pc.splits m2m_action.splits if_splits option.splits prod.splits list.splits

fun crit :: "m2m_pc \<Rightarrow> bool" where
  "crit R_check = True"
| "crit (R_check_unlock b) = True"
| "crit R_test = True"
| "crit R_test_unlock = True"
| "crit (R_sub m) = True"
| "crit (R_unlock m) = True"
| "crit W_check = True"
| "crit (W_check_unlock b) = True"
| "crit (W_append m) = True"
| "crit (W_add m) = True"
| "crit W_add_unlock = True"
| "crit p = False"

text \<open>What a step of thread \<open>t\<close> does to the other threads: a wake-up, or nothing.\<close>

definition woken :: "m2m_pc \<Rightarrow> m2m_thread \<Rightarrow> m2m_thread" where
  "woken p th = (case p of
     R_wake r \<Rightarrow> if pc th = W_sleep then th\<lparr>pc := W_wait\<rparr> else th
   | W_wake \<Rightarrow> if pc th = R_sleep then th\<lparr>pc := R_wait\<rparr> else th
   | _ \<Rightarrow> th)"

lemma woken_cases:
  "woken p th = th \<or> pc th = W_sleep \<and> woken p th = th\<lparr>pc := W_wait\<rparr> \<or>
   pc th = R_sleep \<and> woken p th = th\<lparr>pc := R_wait\<rparr>"
  by (cases p) (simp_all add: woken_def)

lemma step_thread: "m2m_step a t s = Some s' \<Longrightarrow> t < length (threads s) \<and> length (threads s') = length (threads s)"
  by (cases a; cases "pc (threads s ! t)")
    (auto simp: step_defs dev_defs Let_def split: if_splits option.splits list.splits)

lemma step_other:
  "m2m_step a t s = Some s' \<Longrightarrow> u \<noteq> t \<Longrightarrow> u < length (threads s) \<Longrightarrow>
   threads s' ! u = woken (pc (threads s ! t)) (threads s ! u)"
  by (cases a; cases "pc (threads s ! t)")
    (auto simp: step_defs dev_defs woken_def Let_def split: if_splits option.splits list.splits)

text \<open>A quantity that sleeping does not change, summed over the threads, changes by what the
  thread that takes the step changes of it.\<close>

definition awake :: "(m2m_thread \<Rightarrow> 'a) \<Rightarrow> bool" where
  "awake f \<longleftrightarrow> (\<forall>p th. f (woken p th) = f th)"

definition thread_sum :: "(m2m_thread \<Rightarrow> nat) \<Rightarrow> m2m_sys \<Rightarrow> nat" where
  "thread_sum f s = sum_list (map f (threads s))"

lemma awakeI:
  assumes "\<And>th. pc th = W_sleep \<Longrightarrow> f (th\<lparr>pc := W_wait\<rparr>) = f th"
    and "\<And>th. pc th = R_sleep \<Longrightarrow> f (th\<lparr>pc := R_wait\<rparr>) = f th"
  shows "awake f"
  unfolding awake_def using assms woken_cases by metis

lemma step_all:
  assumes "m2m_step a t s = Some s'" and "awake P" and "\<forall>u < length (threads s). P (threads s ! u)"
    and "P (threads s' ! t)"
  shows "\<forall>u < length (threads s'). P (threads s' ! u)"
  using assms step_other [OF assms(1)] step_thread [OF assms(1)] unfolding awake_def by metis

lemma step_sum:
  assumes step: "m2m_step a t s = Some s'" and f: "awake f"
  shows "thread_sum f s' + f (threads s ! t) = thread_sum f s + f (threads s' ! t)"
proof -
  note th = step_thread [OF step]
  have "map f (threads s') = (map f (threads s))[t := f (threads s' ! t)]"
    using th step_other [OF step] f by (intro nth_equalityI) (auto simp: awake_def nth_list_update)
  moreover have "f (threads s ! t) \<le> sum_list (map f (threads s))"
    using th by (intro member_le_sum_list) auto
  ultimately show ?thesis using th by (simp add: thread_sum_def sum_list_update)
qed

lemma thread_sum_ge: "t < length (threads s) \<Longrightarrow> f (threads s ! t) \<le> thread_sum f s"
  unfolding thread_sum_def by (intro member_le_sum_list) auto

text \<open>The threads in a critical section are exactly the owners of the lock: at most one.\<close>

definition lock_inv :: "m2m_sys \<Rightarrow> bool" where
  "lock_inv s \<longleftrightarrow> (\<forall>t. lock s = Some t \<longleftrightarrow> t < length (threads s) \<and> crit (pc (threads s ! t)))"

lemma awake_crit: "crit (pc (woken p th)) = crit (pc th)"
  using woken_cases [of p th] by auto

lemma lock_self: "m2m_step a t s = Some s' \<Longrightarrow>
  (lock s' = lock s \<and> crit (pc (threads s' ! t)) = crit (pc (threads s ! t))) \<or>
  (lock s = None \<and> lock s' = Some t \<and> crit (pc (threads s' ! t))) \<or>
  (crit (pc (threads s ! t)) \<and> lock s' = None \<and> \<not> crit (pc (threads s' ! t)))"
  by (cases a; cases "pc (threads s ! t)")
    (auto simp: step_defs dev_defs Let_def split: if_splits option.splits list.splits)

lemma lock_inv_step:
  assumes step: "m2m_step a t s = Some s'" and inv: "lock_inv s"
  shows "lock_inv s'"
  unfolding lock_inv_def
proof
  fix u
  note th = step_thread [OF step]
  have other: "u \<noteq> t \<Longrightarrow> u < length (threads s) \<Longrightarrow> crit (pc (threads s' ! u)) = crit (pc (threads s ! u))"
    using step_other [OF step] by (simp add: awake_crit)
  have "(lock s = Some t) = crit (pc (threads s ! t))"
    "(lock s = Some u) = (u < length (threads s) \<and> crit (pc (threads s ! u)))"
    using inv th by (auto simp: lock_inv_def)
  with lock_self [OF step] other th show "(lock s' = Some u) = (u < length (threads s') \<and> crit (pc (threads s' ! u)))"
    by (cases "u = t") auto
qed

section \<open>Messages\<close>

text \<open>What a thread carries: a message it has taken from the list or has yet to put there.\<close>

definition writes :: "m2m_thread \<Rightarrow> bool" where
  "writes th \<longleftrightarrow> 0 < cnt th \<and> cnt th \<le> MAX_MSG \<and> length (ubuf th) = unat (cnt th)"

definition wf_thread :: "m2m_thread \<Rightarrow> bool" where
  "wf_thread th = (case pc th of
     R_sub m \<Rightarrow> wf_msg m | R_unlock m \<Rightarrow> wf_msg m | R_copy m \<Rightarrow> wf_msg m | R_free m r \<Rightarrow> wf_msg m
   | W_lock \<Rightarrow> writes th | W_check \<Rightarrow> writes th | W_check_unlock b \<Rightarrow> writes th
   | W_wait \<Rightarrow> writes th | W_sleep \<Rightarrow> writes th | W_alloc \<Rightarrow> writes th
   | W_copy m \<Rightarrow> writes th \<and> msg_len m = cnt th
   | W_add_lock m \<Rightarrow> writes th \<and> m = \<lparr>msg_len = cnt th, msg_data = ubuf th\<rparr>
   | W_append m \<Rightarrow> writes th \<and> m = \<lparr>msg_len = cnt th, msg_data = ubuf th\<rparr>
   | W_add m \<Rightarrow> writes th \<and> m = \<lparr>msg_len = cnt th, msg_data = ubuf th\<rparr>
   | _ \<Rightarrow> True)"

definition wf_inv :: "m2m_sys \<Rightarrow> bool" where
  "wf_inv s \<longleftrightarrow> (\<forall>t < length (threads s). wf_thread (threads s ! t)) \<and> (\<forall>m \<in> set (msg_list (dev s)). wf_msg m)"

lemma writes_msg: "writes th \<Longrightarrow> wf_msg \<lparr>msg_len = cnt th, msg_data = ubuf th\<rparr>"
  by (simp add: writes_def wf_msg_def)

lemma wf_self:
  "m2m_step a t s = Some s' \<Longrightarrow> wf_thread (threads s ! t) \<Longrightarrow> \<forall>m \<in> set (msg_list (dev s)). wf_msg m \<Longrightarrow>
   wf_thread (threads s' ! t) \<and> (\<forall>m \<in> set (msg_list (dev s')). wf_msg m)"
  by (cases a; cases "pc (threads s ! t)")
    (auto simp: step_defs dev_defs Let_def wf_thread_def writes_def wf_msg_def not_less word_gt_0
      split: if_splits option.splits list.splits)

lemma awake_wf: "awake wf_thread"
  by (rule awakeI) (simp_all add: wf_thread_def writes_def)

lemma wf_inv_step: "m2m_step a t s = Some s' \<Longrightarrow> wf_inv s \<Longrightarrow> wf_inv s'"
  using step_all [OF _ awake_wf, of a t s s'] wf_self [of a t s s'] step_thread [of a t s s']
  by (auto simp: wf_inv_def)

lemma order_inv_step: "m2m_step a t s = Some s' \<Longrightarrow> sent s = received s @ msg_list (dev s) \<Longrightarrow>
  sent s' = received s' @ msg_list (dev s')"
  by (cases a; cases "pc (threads s ! t)")
    (auto simp: step_defs dev_defs Let_def split: if_splits option.splits list.splits)

section \<open>The byte counter\<close>

text \<open>The counter lags behind the list between the two statements that change them.\<close>

definition to_add :: "m2m_thread \<Rightarrow> nat" where
  "to_add th = (case pc th of W_add m \<Rightarrow> unat (msg_len m) | _ \<Rightarrow> 0)"

definition to_sub :: "m2m_thread \<Rightarrow> nat" where
  "to_sub th = (case pc th of R_sub m \<Rightarrow> unat (msg_len m) | _ \<Rightarrow> 0)"

text \<open>The bytes of a writer that has passed the check of the limit and is not yet counted.\<close>

definition in_flight :: "m2m_thread \<Rightarrow> nat" where
  "in_flight th = (case pc th of
     W_check_unlock b \<Rightarrow> if b then unat (cnt th) else 0
   | W_alloc \<Rightarrow> unat (cnt th) | W_copy m \<Rightarrow> unat (cnt th)
   | W_add_lock m \<Rightarrow> unat (cnt th) | W_append m \<Rightarrow> unat (cnt th) | W_add m \<Rightarrow> unat (cnt th)
   | _ \<Rightarrow> 0)"

definition count_inv :: "m2m_sys \<Rightarrow> bool" where
  "count_inv s \<longleftrightarrow> unat (queued_bytes (dev s)) + thread_sum to_add s = bytes_of (msg_list (dev s)) + thread_sum to_sub s"

definition limit :: "m2m_sys \<Rightarrow> nat" where
  "limit s = unat MAX_BYTES + (length (threads s) - 1) * unat MAX_MSG"

definition bound_inv :: "m2m_sys \<Rightarrow> bool" where
  "bound_inv s \<longleftrightarrow> unat (queued_bytes (dev s)) + thread_sum in_flight s \<le> limit s"

text \<open>So many threads that the counter could wrap around do not exist: they would need
  more than \<open>2 ^ 51\<close> kernel stacks.\<close>

definition few_threads :: "m2m_sys \<Rightarrow> bool" where
  "few_threads s \<longleftrightarrow> length (threads s) \<le> 2 ^ 51"

lemma awake_bytes: "awake to_add" "awake to_sub" "awake in_flight"
  by (rule awakeI, simp_all add: to_add_def to_sub_def in_flight_def)+

lemma thread_sum_others:
  assumes "t < length (threads s)" and "\<forall>u < length (threads s). u \<noteq> t \<longrightarrow> f (threads s ! u) = 0"
  shows "thread_sum f s = f (threads s ! t)"
proof -
  have "map f (threads s) = (replicate (length (threads s)) 0)[t := f (threads s ! t)]"
    using assms by (intro nth_equalityI) (auto simp: nth_list_update)
  with assms(1) show ?thesis by (simp add: thread_sum_def sum_list_update)
qed

lemma thread_sum_le:
  assumes "\<forall>u < length (threads s). u \<noteq> t \<longrightarrow> f (threads s ! u) \<le> c" and "t < length (threads s)"
  shows "thread_sum f s \<le> f (threads s ! t) + (length (threads s) - 1) * c"
proof -
  let ?g = "\<lambda>u. f (threads s ! u)" and ?n = "length (threads s)"
  have "thread_sum f s = (\<Sum>u<?n. ?g u)"
    by (simp add: thread_sum_def sum_list_sum_nth lessThan_atLeast0)
  also have "\<dots> = ?g t + (\<Sum>u\<in>{..<?n} - {t}. ?g u)" using assms(2) by (simp add: sum.remove)
  also have "(\<Sum>u\<in>{..<?n} - {t}. ?g u) \<le> card ({..<?n} - {t}) * c"
    using assms(1) sum_bounded_above [of "{..<?n} - {t}" ?g c] by auto
  finally show ?thesis using assms(2) by simp
qed

lemma not_crit_counted: "\<not> crit (pc th) \<Longrightarrow> to_add th = 0 \<and> to_sub th = 0"
  by (auto simp: to_add_def to_sub_def split: m2m_pc.split)

text \<open>In the critical section only the owner of the lock has something left to count.\<close>

lemma count_exact:
  assumes "lock_inv s" and "t < length (threads s)" and "lock s = Some t"
  shows "thread_sum to_add s = to_add (threads s ! t)" and "thread_sum to_sub s = to_sub (threads s ! t)"
proof -
  have "u \<noteq> t \<Longrightarrow> u < length (threads s) \<Longrightarrow> \<not> crit (pc (threads s ! u))" for u
    using assms unfolding lock_inv_def by (metis option.inject)
  then have "\<forall>u < length (threads s). u \<noteq> t \<longrightarrow> to_add (threads s ! u) = 0 \<and> to_sub (threads s ! u) = 0"
    using not_crit_counted by blast
  then show "thread_sum to_add s = to_add (threads s ! t)" and "thread_sum to_sub s = to_sub (threads s ! t)"
    using assms(2) by (auto intro: thread_sum_others)
qed

lemma unat_sub_le: "unat (b :: size_t) \<le> unat a \<Longrightarrow> unat (a - b) = unat a - unat b"
  by (simp add: unat_sub word_le_nat_alt)

lemma unat_add_small: "unat (a :: size_t) + unat b < 2 ^ 64 \<Longrightarrow> unat (a + b) = unat a + unat b"
  by (simp add: unat_word_ariths(1))

lemma in_flight_le: "wf_thread th \<Longrightarrow> in_flight th \<le> unat MAX_MSG"
  by (auto simp: in_flight_def wf_thread_def writes_def word_le_nat_alt split: m2m_pc.splits)

text \<open>The thread that takes a step: list, counter and what is left to count change together.\<close>

lemma count_self:
  assumes "m2m_step a t s = Some s'" and "wf_thread (threads s ! t)"
    and "to_sub (threads s ! t) \<le> unat (queued_bytes (dev s))"
    and "unat (queued_bytes (dev s)) + to_add (threads s ! t) < 2 ^ 64"
  shows "unat (queued_bytes (dev s')) + bytes_of (msg_list (dev s)) + to_add (threads s' ! t) + to_sub (threads s ! t) =
    unat (queued_bytes (dev s)) + bytes_of (msg_list (dev s')) + to_add (threads s ! t) + to_sub (threads s' ! t)"
  using assms
  by (cases a; cases "pc (threads s ! t)")
    (auto simp: step_defs dev_defs Let_def to_add_def to_sub_def unat_sub_le unat_add_small
      split: if_splits option.splits list.splits)

lemma bound_self:
  assumes "m2m_step a t s = Some s'" and "wf_thread (threads s ! t)"
    and "to_sub (threads s ! t) \<le> unat (queued_bytes (dev s))"
    and "unat (queued_bytes (dev s)) + unat MAX_MSG < 2 ^ 64"
  shows "unat (queued_bytes (dev s')) + in_flight (threads s' ! t) \<le> unat (queued_bytes (dev s)) + in_flight (threads s ! t) \<or>
    unat (queued_bytes (dev s')) + in_flight (threads s' ! t) \<le> unat MAX_BYTES"
  using assms
  by (cases a; cases "pc (threads s ! t)")
    (auto simp: step_defs dev_defs Let_def in_flight_def to_sub_def wf_thread_def writes_def unat_sub_le unat_add_small
        word_le_nat_alt split: if_splits option.splits list.splits)

definition queue_inv :: "m2m_sys \<Rightarrow> bool" where
  "queue_inv s \<longleftrightarrow> few_threads s \<and> lock_inv s \<and> wf_inv s \<and> count_inv s \<and> bound_inv s"

lemma to_sub_queued:
  assumes "queue_inv s" and "t < length (threads s)"
  shows "to_sub (threads s ! t) \<le> unat (queued_bytes (dev s))"
proof (cases "crit (pc (threads s ! t))")
  case True
  then have "lock s = Some t" using assms by (simp add: queue_inv_def lock_inv_def)
  moreover have "to_sub (threads s ! t) = 0 \<or> to_add (threads s ! t) = 0"
    by (auto simp: to_sub_def to_add_def split: m2m_pc.split)
  ultimately show ?thesis
    using assms count_exact [of s t] by (auto simp: queue_inv_def count_inv_def)
qed (simp add: not_crit_counted)

lemma queued_small: "queue_inv s \<Longrightarrow> unat (queued_bytes (dev s)) + unat MAX_MSG < 2 ^ 64"
proof -
  assume inv: "queue_inv s"
  then have "(length (threads s) - 1) * 4096 \<le> 2 ^ 51 * 4096"
    unfolding queue_inv_def few_threads_def by (intro mult_right_mono) auto
  with inv show ?thesis by (simp add: queue_inv_def bound_inv_def limit_def)
qed

lemma to_add_le: "wf_thread th \<Longrightarrow> to_add th \<le> unat MAX_MSG"
  by (auto simp: to_add_def wf_thread_def writes_def word_le_nat_alt split: m2m_pc.splits)

lemma queue_inv_step:
  assumes step: "m2m_step a t s = Some s'" and inv: "queue_inv s"
  shows "queue_inv s'"
proof -
  note th = step_thread [OF step]
  have wf: "wf_thread (threads s ! t)" using inv th by (simp add: queue_inv_def wf_inv_def)
  have wf': "wf_inv s'" "lock_inv s'" using wf_inv_step [OF step] lock_inv_step [OF step] inv
    by (simp_all add: queue_inv_def)
  have sub: "to_sub (threads s ! t) \<le> unat (queued_bytes (dev s))" using to_sub_queued [OF inv] th by blast
  note small = queued_small [OF inv]
  have add: "unat (queued_bytes (dev s)) + to_add (threads s ! t) < 2 ^ 64"
    using small to_add_le [OF wf] by simp
  have "count_inv s'"
    using count_self [OF step wf sub add] step_sum [OF step awake_bytes(1)] step_sum [OF step awake_bytes(2)] inv
    by (simp add: queue_inv_def count_inv_def)
  moreover have "bound_inv s'"
  proof -
    have "thread_sum in_flight s' \<le> in_flight (threads s' ! t) + (length (threads s') - 1) * unat MAX_MSG"
      using wf' th in_flight_le by (intro thread_sum_le) (auto simp: wf_inv_def)
    then show ?thesis
      using bound_self [OF step wf sub small] step_sum [OF step awake_bytes(3)] inv th
      by (auto simp: queue_inv_def bound_inv_def limit_def)
  qed
  ultimately show ?thesis using wf' inv th by (simp add: queue_inv_def few_threads_def)
qed

lemma m2m_init_fresh:
  "msg_list (snd (m2m_init env m2m_chardev_zero)) = []" "queued_bytes (snd (m2m_init env m2m_chardev_zero)) = 0"
  "kmem (snd (m2m_init env m2m_chardev_zero)) = 0" "readers (snd (m2m_init env m2m_chardev_zero)) = 0"
  "writers (snd (m2m_init env m2m_chardev_zero)) = 0"
  by (auto simp: m2m_init_def m2m_chardev_zero_def Let_def dev_defs)

lemma m2m_start_simps [simp]:
  "threads (m2m_start env n) = replicate n idle_thread" "lock (m2m_start env n) = None"
  "msg_list (dev (m2m_start env n)) = []" "queued_bytes (dev (m2m_start env n)) = 0"
  "kmem (dev (m2m_start env n)) = 0" "readers (dev (m2m_start env n)) = 0" "writers (dev (m2m_start env n)) = 0"
  "sent (m2m_start env n) = []" "received (m2m_start env n) = []"
  by (simp_all add: m2m_start_def m2m_init_fresh)

lemma thread_sum_start: "f idle_thread = 0 \<Longrightarrow> thread_sum f (m2m_start env n) = 0"
  by (simp add: thread_sum_def sum_list_replicate)

lemma queue_inv_start: "n \<le> 2 ^ 51 \<Longrightarrow> queue_inv (m2m_start env n)"
  by (simp add: queue_inv_def few_threads_def lock_inv_def wf_inv_def count_inv_def bound_inv_def thread_sum_start
      idle_thread_def to_add_def to_sub_def in_flight_def wf_thread_def)

interpretation m2m_queue: step_invariant "\<lambda>s. \<exists>env n. n \<le> 2 ^ 51 \<and> s = m2m_start env n" m2m_trans queue_inv
  by unfold_locales (auto intro: queue_inv_start queue_inv_step elim: m2m_transE)

interpretation m2m_order: step_invariant "\<lambda>s. \<exists>env n. s = m2m_start env n" m2m_trans "\<lambda>s. sent s = received s @ msg_list (dev s)"
  by unfold_locales (auto intro: order_inv_step elim!: m2m_transE)

end
