(* ===== verification/M2m_Live.thy ===== *)
theory M2m_Live
  imports M2m_Inv
begin

text \<open>
  Allocations and wake-ups of the message queue device under concurrent calls: every allocation is
  reachable from the list, from a call or from an open file, and no thread sleeps
  while its condition holds unless another thread is about to wake it.
\<close>

section \<open>Allocations\<close>

definition opened :: "m2m_thread \<Rightarrow> nat" where
  "opened th = (if private_data (filp th) = None then 0 else 1)"

definition held :: "m2m_thread \<Rightarrow> nat" where
  "held th = opened th + (case pc th of
     R_sub m \<Rightarrow> 2 | R_unlock m \<Rightarrow> 2 | R_copy m \<Rightarrow> 2 | R_free m r \<Rightarrow> 2
   | W_copy m \<Rightarrow> 2 | W_fault m \<Rightarrow> 2 | W_add_lock m \<Rightarrow> 2 | W_append m \<Rightarrow> 2
   | _ \<Rightarrow> 0)"

definition alloc_inv :: "m2m_sys \<Rightarrow> bool" where
  "alloc_inv s \<longleftrightarrow> kmem (dev s) = 2 * length (msg_list (dev s)) + thread_sum held s \<and>
     readers (dev s) = of_nat (thread_sum opened s) \<and> writers (dev s) = of_nat (thread_sum opened s)"

lemma awake_held: "awake held" "awake opened"
  by (rule awakeI, simp_all add: held_def opened_def)+

lemma held_self:
  assumes "m2m_step a t s = Some s'" and "held (threads s ! t) \<le> kmem (dev s)"
  shows "kmem (dev s') + 2 * length (msg_list (dev s)) + held (threads s ! t) =
    kmem (dev s) + 2 * length (msg_list (dev s')) + held (threads s' ! t)"
  using assms
  by (cases a; cases "pc (threads s ! t)")
    (auto simp: step_defs dev_defs Let_def held_def opened_def split: if_splits option.splits list.splits)

lemma opened_self:
  assumes "m2m_step a t s = Some s'"
  shows "readers (dev s') = readers (dev s) + of_nat (opened (threads s' ! t)) - of_nat (opened (threads s ! t))"
    and "writers (dev s') = writers (dev s) + of_nat (opened (threads s' ! t)) - of_nat (opened (threads s ! t))"
  using assms
  by (cases a; cases "pc (threads s ! t)",
    auto simp: step_defs dev_defs Let_def opened_def split: if_splits option.splits list.splits)+

lemma alloc_inv_step:
  assumes step: "m2m_step a t s = Some s'" and inv: "alloc_inv s"
  shows "alloc_inv s'"
proof -
  have "held (threads s ! t) \<le> kmem (dev s)"
    using thread_sum_ge [of t s held] step_thread [OF step] inv by (auto simp: alloc_inv_def)
  from held_self [OF step this] step_sum [OF step awake_held(1)] inv
  have "kmem (dev s') = 2 * length (msg_list (dev s')) + thread_sum held s'" by (simp add: alloc_inv_def)
  moreover have "of_nat (thread_sum opened s') =
      (of_nat (thread_sum opened s) + of_nat (opened (threads s' ! t)) - of_nat (opened (threads s ! t)) :: 32 word)"
    using arg_cong [OF step_sum [OF step awake_held(2)], of "of_nat :: nat \<Rightarrow> 32 word"]
    by (simp add: algebra_simps)
  ultimately show ?thesis using opened_self [OF step] inv by (simp add: alloc_inv_def)
qed

lemma alloc_inv_start: "alloc_inv (m2m_start env n)"
  by (simp add: alloc_inv_def thread_sum_start held_def opened_def idle_thread_def)

interpretation m2m_alloc: step_invariant "\<lambda>s. \<exists>env n. s = m2m_start env n" m2m_trans alloc_inv
  by unfold_locales (auto intro: alloc_inv_start alloc_inv_step elim!: m2m_transE)

section \<open>Wake-ups\<close>

text \<open>A writer between its change of the list and its wake-up; a reader between its change of
  the counter and its wake-up. None of them waits for anything.\<close>

fun wakes_readers :: "m2m_pc \<Rightarrow> bool" where
  "wakes_readers (W_add m) = True"
| "wakes_readers W_add_unlock = True"
| "wakes_readers W_wake = True"
| "wakes_readers p = False"

fun wakes_writers :: "m2m_pc \<Rightarrow> bool" where
  "wakes_writers (R_unlock m) = True"
| "wakes_writers (R_copy m) = True"
| "wakes_writers (R_free m r) = True"
| "wakes_writers (R_wake r) = True"
| "wakes_writers p = False"

definition fits :: "m2m_sys \<Rightarrow> m2m_thread \<Rightarrow> bool" where
  "fits s th \<longleftrightarrow> unat (queued_bytes (dev s)) + unat (cnt th) \<le> unat MAX_BYTES"

definition readq_inv :: "m2m_sys \<Rightarrow> bool" where
  "readq_inv s \<longleftrightarrow> (\<forall>t < length (threads s). pc (threads s ! t) = R_sleep \<longrightarrow> msg_list (dev s) \<noteq> [] \<longrightarrow>
     (\<exists>u < length (threads s). wakes_readers (pc (threads s ! u))))"

definition writeq_inv :: "m2m_sys \<Rightarrow> bool" where
  "writeq_inv s \<longleftrightarrow> (\<forall>t < length (threads s). pc (threads s ! t) = W_sleep \<longrightarrow> fits s (threads s ! t) \<longrightarrow>
     (\<exists>u < length (threads s). wakes_writers (pc (threads s ! u))))"

lemma woken_wakes [simp]:
  "wakes_readers (pc (woken p th)) = wakes_readers (pc th)"
  "wakes_writers (pc (woken p th)) = wakes_writers (pc th)" "cnt (woken p th) = cnt th"
  using woken_cases [of p th] by auto

lemma woken_sleep:
  "pc (woken p th) = R_sleep \<Longrightarrow> pc th = R_sleep \<and> p \<noteq> W_wake"
  "pc (woken p th) = W_sleep \<Longrightarrow> pc th = W_sleep \<and> (\<forall>r. p \<noteq> R_wake r)"
  by (cases p; auto simp: woken_def split: if_splits)+

lemma readq_self:
  assumes "m2m_step a t s = Some s'"
  shows "pc (threads s' ! t) = R_sleep \<Longrightarrow> msg_list (dev s') = []"
    and "msg_list (dev s) = [] \<Longrightarrow> msg_list (dev s') \<noteq> [] \<Longrightarrow> wakes_readers (pc (threads s' ! t))"
    and "wakes_readers (pc (threads s ! t)) \<Longrightarrow> pc (threads s ! t) \<noteq> W_wake \<Longrightarrow> wakes_readers (pc (threads s' ! t))"
  using assms
  by (cases a; cases "pc (threads s ! t)",
    auto simp: step_defs dev_defs Let_def split: if_splits option.splits list.splits)+

lemma readq_inv_step:
  assumes step: "m2m_step a t s = Some s'" and inv: "readq_inv s"
  shows "readq_inv s'"
  unfolding readq_inv_def
proof (intro allI impI)
  fix v assume v: "v < length (threads s')" "pc (threads s' ! v) = R_sleep" and list: "msg_list (dev s') \<noteq> []"
  note th = step_thread [OF step] and self = readq_self [OF step] and other = step_other [OF step]
  have "v \<noteq> t" using self(1) v list by blast
  then have sleeps: "pc (threads s ! v) = R_sleep" and t: "pc (threads s ! t) \<noteq> W_wake"
    using woken_sleep(1) other v th by metis+
  show "\<exists>u < length (threads s'). wakes_readers (pc (threads s' ! u))"
  proof (cases "msg_list (dev s) = []")
    case False
    with inv sleeps v th obtain u where u: "u < length (threads s)" "wakes_readers (pc (threads s ! u))"
      by (auto simp: readq_inv_def)
    then have "wakes_readers (pc (threads s' ! u))" using self(3) t other by (cases "u = t") auto
    with u th show ?thesis by auto
  qed (use self(2) list th in auto)
qed

lemma writeq_self:
  assumes "m2m_step a t s = Some s'" and "wf_thread (threads s ! t)"
    and "to_sub (threads s ! t) \<le> unat (queued_bytes (dev s))"
    and "unat (queued_bytes (dev s)) + unat MAX_MSG < 2 ^ 64"
  shows "pc (threads s' ! t) = W_sleep \<Longrightarrow> \<not> fits s' (threads s' ! t)"
    and "unat (queued_bytes (dev s)) \<le> unat (queued_bytes (dev s')) \<or> wakes_writers (pc (threads s' ! t))"
    and "wakes_writers (pc (threads s ! t)) \<Longrightarrow> \<forall>r. pc (threads s ! t) \<noteq> R_wake r \<Longrightarrow> wakes_writers (pc (threads s' ! t))"
  using assms
  by (cases a; cases "pc (threads s ! t)",
    auto simp: step_defs dev_defs Let_def fits_def wf_thread_def writes_def unat_add_small word_le_nat_alt
      split: if_splits option.splits list.splits)+

lemma writeq_inv_step:
  assumes step: "m2m_step a t s = Some s'" and inv: "writeq_inv s" and q: "queue_inv s"
  shows "writeq_inv s'"
  unfolding writeq_inv_def
proof (intro allI impI)
  fix v assume v: "v < length (threads s')" "pc (threads s' ! v) = W_sleep" and room: "fits s' (threads s' ! v)"
  note th = step_thread [OF step] and other = step_other [OF step]
  have "wf_thread (threads s ! t)" using q th by (simp add: queue_inv_def wf_inv_def)
  note self = writeq_self [OF step this to_sub_queued [OF q, of t] queued_small [OF q]]
  have "v \<noteq> t" using self(1) v room th by blast
  then have sleeps: "pc (threads s ! v) = W_sleep" and t: "\<forall>r. pc (threads s ! t) \<noteq> R_wake r"
    and n: "cnt (threads s' ! v) = cnt (threads s ! v)"
    using woken_sleep(2) [of "pc (threads s ! t)" "threads s ! v"] other [of v] v th by auto
  show "\<exists>u < length (threads s'). wakes_writers (pc (threads s' ! u))"
  proof (cases "wakes_writers (pc (threads s' ! t))")
    case False
    then have "fits s (threads s ! v)" using self(2) room n th by (simp add: fits_def)
    with inv sleeps v th obtain u where u: "u < length (threads s)" "wakes_writers (pc (threads s ! u))"
      by (auto simp: writeq_inv_def)
    then have "wakes_writers (pc (threads s' ! u))" using self(3) t other th by (cases "u = t") auto
    with u th show ?thesis by auto
  qed (use th in auto)
qed

definition live_inv :: "m2m_sys \<Rightarrow> bool" where
  "live_inv s \<longleftrightarrow> queue_inv s \<and> readq_inv s \<and> writeq_inv s"

interpretation m2m_live: step_invariant "\<lambda>s. \<exists>env n. n \<le> 2 ^ 51 \<and> s = m2m_start env n" m2m_trans live_inv
proof unfold_locales
  fix s s'
  show "live_inv s" if "\<exists>env n. n \<le> 2 ^ 51 \<and> s = m2m_start env n"
    using that queue_inv_start by (auto simp: live_inv_def readq_inv_def writeq_inv_def idle_thread_def)
  show "live_inv s'" if "live_inv s" "m2m_trans s s'"
    using that by (auto simp: live_inv_def elim!: m2m_transE intro: queue_inv_step readq_inv_step writeq_inv_step)
qed

end
