(* ===== verification/M2m_Props.thy ===== *)
theory M2m_Props
  imports M2m_Live
begin

text \<open>
  The properties of the message queue device of \<^verbatim>\<open>src/3lab/dev/glo_pro.c\<close>: what one call does,
  against an abstract queue of messages; what every interleaving of calls keeps; what loading
  and unloading leave behind.
\<close>

section \<open>One call against an abstract queue of messages\<close>

text \<open>The abstract device is the list of the messages; \<open>None\<close> is a call that sleeps.\<close>

definition queue_bytes :: "bytes list \<Rightarrow> nat" where
  "queue_bytes q = sum_list (map length q)"

definition spec_write :: "m2m_env \<Rightarrow> m2m_file \<Rightarrow> bytes \<Rightarrow> bytes list \<Rightarrow> (int \<times> bytes list) option" where
  "spec_write env f data q =
     (if data = [] then Some (0, q)
      else if length data > 4096 then Some (- EMSGSIZE, q)
      else if queue_bytes q + length data > 65536 then
        (if f_nonblock f then Some (- EAGAIN, q) else if signalled env then Some (- ERESTARTSYS, q) else None)
      else if \<not> (ok_msg env \<and> ok_data env) then Some (- ENOMEM, q)
      else if copy_left env \<noteq> 0 then Some (- EFAULT, q)
      else Some (int (length data), q @ [data]))"

text \<open>The bytes a read delivers are the second component.\<close>

definition spec_read :: "m2m_env \<Rightarrow> m2m_file \<Rightarrow> nat \<Rightarrow> bytes list \<Rightarrow> (int \<times> bytes \<times> bytes list) option" where
  "spec_read env f n q =
     (case q of
        [] \<Rightarrow> if f_nonblock f then Some (- EAGAIN, [], q)
              else if signalled env then Some (- ERESTARTSYS, [], q) else None
      | d # q' \<Rightarrow>
          if copy_left env \<noteq> 0 then Some (- EFAULT, take (min n (length d) - copy_left env) d, q')
          else Some (int (min n (length d)), take n d, q'))"

definition dev_ok :: "mydev \<Rightarrow> bool" where
  "dev_ok d \<longleftrightarrow> (\<forall>m \<in> set (msg_list d). wf_msg m) \<and> unat (queued_bytes d) = bytes_of (msg_list d) \<and>
     bytes_of (msg_list d) \<le> 65536 \<and> 2 * length (msg_list d) \<le> kmem d"

definition contents :: "mydev \<Rightarrow> bytes list" where
  "contents d = map msg_data (msg_list d)"

lemma queue_bytes_contents: "\<forall>m \<in> set ms. wf_msg m \<Longrightarrow> queue_bytes (map msg_data ms) = bytes_of ms"
  by (induction ms) (simp_all add: queue_bytes_def wf_msg_def)

lemma write_room:
  assumes "dev_ok d" and "unat n \<le> 4096"
  shows "queued_bytes d + n \<le> MAX_BYTES \<longleftrightarrow> bytes_of (msg_list d) + unat n \<le> 65536"
    and "unat (queued_bytes d + n) = bytes_of (msg_list d) + unat n"
proof -
  have "unat (queued_bytes d) + unat n < 2 ^ 64" using assms by (simp add: dev_ok_def)
  from unat_add_small [OF this] assms(1)
  show "unat (queued_bytes d + n) = bytes_of (msg_list d) + unat n" by (simp add: dev_ok_def)
  then show "queued_bytes d + n \<le> MAX_BYTES \<longleftrightarrow> bytes_of (msg_list d) + unat n \<le> 65536"
    by (simp add: word_le_nat_alt)
qed

lemma write_spec:
  assumes ok: "dev_ok d" and len: "length buf = unat n"
  shows "case m2m_write env f n buf d of
      Sleeping d' \<Rightarrow> d' = d \<and> spec_write env f buf (contents d) = None
    | Return r buf' d' \<Rightarrow> buf' = buf \<and> spec_write env f buf (contents d) = Some (r, contents d') \<and>
        dev_ok d' \<and> kmem d' - 2 * length (msg_list d') = kmem d - 2 * length (msg_list d)"
proof (cases "0 < n \<and> n \<le> MAX_MSG")
  case False
  have "n = 0 \<longleftrightarrow> buf = []" "MAX_MSG < n \<longleftrightarrow> 4096 < length buf"
    using len by (simp_all add: word_less_nat_alt unat_eq_zero flip: length_0_conv)
  with False ok show ?thesis by (auto simp: m2m_write_def spec_write_def word_gt_0 not_le)
next
  case True
  then have n: "n \<noteq> 0" "\<not> MAX_MSG < n" "unat n \<le> 4096"
    by (auto simp: word_le_nat_alt word_less_nat_alt)
  then have buf: "buf \<noteq> []" using len by (auto simp: unat_eq_zero)
  have msgs: "\<forall>m \<in> set (msg_list d). wf_msg m" using ok by (simp add: dev_ok_def)
  have room: "queued_bytes d + n \<le> MAX_BYTES \<longleftrightarrow> queue_bytes (contents d) + length buf \<le> 65536"
    using write_room(1) [OF ok n(3)] queue_bytes_contents [OF msgs] len by (simp add: contents_def)
  show ?thesis
  proof (cases "queued_bytes d + n \<le> MAX_BYTES")
    case False
    with n room buf len ok show ?thesis by (simp add: m2m_write_def spec_write_def)
  next
    case fit: True
    have small: "bytes_of (msg_list d) + unat n \<le> 65536" using write_room(1) [OF ok n(3)] fit by simp
    have new: "wf_msg \<lparr>msg_len = n, msg_data = buf\<rparr>" using True len by (simp add: wf_msg_def)
    show ?thesis
    proof (cases "ok_msg env \<and> ok_data env \<and> copy_left env = 0")
      case True
      have "uint n = int (length buf)" using len by simp
      with True n fit room buf len ok small new write_room(2) [OF ok n(3)] show ?thesis
        by (simp add: m2m_write_def spec_write_def dev_defs Let_def contents_def dev_ok_def)
    qed (use n fit room buf len ok in \<open>auto simp: m2m_write_def spec_write_def dev_defs Let_def contents_def dev_ok_def\<close>)
  qed
qed

lemma read_spec:
  assumes ok: "dev_ok d" and len: "length buf = unat n"
  shows "case m2m_read env f n buf d of
      Sleeping d' \<Rightarrow> d' = d \<and> spec_read env f (unat n) (contents d) = None
    | Return r buf' d' \<Rightarrow> \<exists>out. spec_read env f (unat n) (contents d) = Some (r, out, contents d') \<and>
        buf' = out @ drop (length out) buf \<and> dev_ok d' \<and>
        kmem d' - 2 * length (msg_list d') = kmem d - 2 * length (msg_list d)"
proof (cases "msg_list d")
  case Nil
  with ok show ?thesis by (simp add: m2m_read_def spec_read_def contents_def)
next
  case (Cons m ms)
  have m: "length (msg_data m) = unat (msg_len m)" and k: "2 \<le> kmem d" "0 < unat (msg_len m)"
    and q: "unat (msg_len m) \<le> unat (queued_bytes d)"
    using ok Cons by (auto simp: dev_ok_def wf_msg_def unat_gt_0 word_gt_0)
  have c: "unat (min n (msg_len m)) = min (unat n) (length (msg_data m))"
    using m by (auto simp: min_def word_le_nat_alt)
  have "uint (min n (msg_len m)) = int (min (unat n) (length (msg_data m)))" using c by (simp flip: c)
  with Cons ok k m c len unat_sub_le [OF q] show ?thesis
    by (auto simp: m2m_read_def spec_read_def contents_def dev_ok_def dev_defs copy_to_user_def Let_def min_def)
qed

section \<open>A call that runs alone\<close>

lemmas alone_simps = m2m_step_def read_step_def write_step_def is_read_pc_def dev_defs Let_def

text \<open>Thread \<open>t\<close> has come back from its call with result \<open>r\<close> and buffer \<open>buf\<close>.\<close>

definition came_back :: "nat \<Rightarrow> int \<Rightarrow> bytes \<Rightarrow> mydev \<Rightarrow> m2m_sys \<Rightarrow> bool" where
  "came_back t r buf d s \<longleftrightarrow> lock s = None \<and> dev s = d \<and> pc (threads s ! t) = Idle \<and>
     result (threads s ! t) = r \<and> ubuf (threads s ! t) = buf"

lemma read_alone:
  assumes start: "lock s = None" "t < length (threads s)" "filp (threads s ! t) = f"
      "pc (threads s ! t) = (if f_nonblock f then R_check_lock else R_wait)"
    and ret: "m2m_read env f (cnt (threads s ! t)) (ubuf (threads s ! t)) (dev s) = Return r buf d"
  shows "\<exists>k s'. m2m_exec (replicate k (Run env, t)) s = Some s' \<and> came_back t r buf d s'"
proof (cases "msg_list (dev s)")
  case Nil
  with start ret show ?thesis
    by (intro exI [of _ "if f_nonblock f then 3 else 1"])
      (auto simp: came_back_def m2m_read_def alone_simps numeral_eq_Suc split: if_splits)
next
  case (Cons m ms)
  with start ret show ?thesis
    by (intro exI [of _ "if f_nonblock f then 11 else 8"])
      (auto simp: came_back_def m2m_read_def alone_simps numeral_eq_Suc split: if_splits)
qed

lemma write_alone:
  assumes start: "lock s = None" "t < length (threads s)" "filp (threads s ! t) = f" "pc (threads s ! t) = W_lock"
    and n: "cnt (threads s ! t) \<noteq> 0" "cnt (threads s ! t) \<le> MAX_MSG"
    and ret: "m2m_write env f (cnt (threads s ! t)) (ubuf (threads s ! t)) (dev s) = Return r buf d"
  shows "\<exists>k s'. m2m_exec (replicate k (Run env, t)) s = Some s' \<and> came_back t r buf d s'"
proof (cases "queued_bytes (dev s) + cnt (threads s ! t) \<le> MAX_BYTES")
  case False
  with start n ret show ?thesis
    by (intro exI [of _ "if f_nonblock f then 3 else 4"])
      (auto simp: came_back_def m2m_write_def alone_simps numeral_eq_Suc split: if_splits)
next
  case True
  with start n ret show ?thesis
    by (intro exI [of _ "if \<not> (ok_msg env \<and> ok_data env) then 4 else if copy_left env \<noteq> 0 then 6 else 10"])
      (auto simp: came_back_def m2m_write_def alone_simps numeral_eq_Suc split: if_splits)
qed

section \<open>The device as a message queue\<close>

text \<open>What a user of the device relies on: a message that fits is accepted and becomes the last
  one; the first message is delivered as it was written.\<close>

fun put_all :: "('d \<Rightarrow> bytes \<Rightarrow> 'd option) \<Rightarrow> bytes list \<Rightarrow> 'd \<Rightarrow> 'd option" where
  "put_all put [] d = Some d"
| "put_all put (b # bs) d = (case put d b of None \<Rightarrow> None | Some d' \<Rightarrow> put_all put bs d')"

fun get_all :: "('d \<Rightarrow> (bytes \<times> 'd) option) \<Rightarrow> nat \<Rightarrow> 'd \<Rightarrow> (bytes list \<times> 'd) option" where
  "get_all get 0 d = Some ([], d)"
| "get_all get (Suc k) d =
     (case get d of
        None \<Rightarrow> None
      | Some (b, d') \<Rightarrow> (case get_all get k d' of None \<Rightarrow> None | Some (bs, d'') \<Rightarrow> Some (b # bs, d'')))"

locale message_queue =
  fixes put :: "'d \<Rightarrow> bytes \<Rightarrow> 'd option" and get :: "'d \<Rightarrow> (bytes \<times> 'd) option"
    and ok :: "'d \<Rightarrow> bool" and abs :: "'d \<Rightarrow> bytes list" and max_msg :: nat and max_bytes :: nat
  assumes put_fits: "ok d \<Longrightarrow> b \<noteq> [] \<Longrightarrow> length b \<le> max_msg \<Longrightarrow> queue_bytes (abs d) + length b \<le> max_bytes \<Longrightarrow>
      \<exists>d'. put d b = Some d' \<and> ok d' \<and> abs d' = abs d @ [b]"
    and get_first: "ok d \<Longrightarrow> abs d = b # q \<Longrightarrow> length b \<le> max_msg \<Longrightarrow> \<exists>d'. get d = Some (b, d') \<and> ok d' \<and> abs d' = q"
begin

lemma put_all_fits:
  "ok d \<Longrightarrow> \<forall>b \<in> set bs. b \<noteq> [] \<and> length b \<le> max_msg \<Longrightarrow> queue_bytes (abs d) + queue_bytes bs \<le> max_bytes \<Longrightarrow>
   \<exists>d'. put_all put bs d = Some d' \<and> ok d' \<and> abs d' = abs d @ bs"
proof (induction bs arbitrary: d)
  case (Cons b bs)
  then obtain d1 where d1: "put d b = Some d1" "ok d1" "abs d1 = abs d @ [b]"
    using put_fits [of d b] by (auto simp: queue_bytes_def)
  have "queue_bytes (abs d1) + queue_bytes bs \<le> max_bytes"
    using Cons.prems(3) d1(3) by (simp add: queue_bytes_def)
  with Cons.IH [OF d1(2)] Cons.prems(2) obtain d2 where "put_all put bs d1 = Some d2" "ok d2" "abs d2 = abs d1 @ bs"
    by auto
  with d1 show ?case by simp
qed simp

lemma get_all_order:
  "ok d \<Longrightarrow> abs d = bs @ q \<Longrightarrow> \<forall>b \<in> set bs. length b \<le> max_msg \<Longrightarrow>
   \<exists>d'. get_all get (length bs) d = Some (bs, d') \<and> ok d' \<and> abs d' = q"
proof (induction bs arbitrary: d)
  case (Cons b bs)
  then obtain d1 where d1: "get d = Some (b, d1)" "ok d1" "abs d1 = bs @ q"
    using get_first [of d b "bs @ q"] by auto
  with Cons.IH [OF d1(2,3)] Cons.prems(3) show ?case by auto
qed simp

lemma put_get_all:
  assumes "ok d" and "abs d = []" and "\<forall>b \<in> set bs. b \<noteq> [] \<and> length b \<le> max_msg" and "queue_bytes bs \<le> max_bytes"
  shows "\<exists>d1 d2. put_all put bs d = Some d1 \<and> get_all get (length bs) d1 = Some (bs, d2) \<and> ok d2 \<and> abs d2 = []"
proof -
  obtain d1 where "put_all put bs d = Some d1" "ok d1" "abs d1 = bs @ []"
    using put_all_fits [OF assms(1,3)] assms(2,4) by (auto simp: queue_bytes_def)
  with get_all_order [of d1 bs "[]"] assms(3) show ?thesis by blast
qed

end

text \<open>A call without a fault, a signal or a lack of memory; a message is read with a buffer
  that holds the longest one.\<close>

definition calm :: m2m_env where
  "calm = \<lparr>ok_msg = True, ok_data = True, copy_left = 0, signalled = False\<rparr>"

definition m2m_put :: "m2m_file \<Rightarrow> mydev \<Rightarrow> bytes \<Rightarrow> mydev option" where
  "m2m_put f d b =
     (case m2m_write calm f (of_nat (length b)) b d of
        Return r buf d' \<Rightarrow> if r = int (length b) then Some d' else None
      | Sleeping d' \<Rightarrow> None)"

definition m2m_get :: "m2m_file \<Rightarrow> mydev \<Rightarrow> (bytes \<times> mydev) option" where
  "m2m_get f d =
     (case m2m_read calm f MAX_MSG (replicate (unat MAX_MSG) 0) d of
        Return r buf d' \<Rightarrow> if r < 0 then None else Some (take (nat r) buf, d')
      | Sleeping d' \<Rightarrow> None)"

definition queue_ok :: "nat \<Rightarrow> mydev \<Rightarrow> bool" where
  "queue_ok c d \<longleftrightarrow> dev_ok d \<and> kmem d - 2 * length (msg_list d) = c"

interpretation m2m_mq: message_queue "m2m_put f" "m2m_get f" "queue_ok c" contents 4096 65536
proof unfold_locales
  fix d and b :: bytes assume ok: "queue_ok c d" and b: "b \<noteq> []" "length b \<le> 4096" "queue_bytes (contents d) + length b \<le> 65536"
  have "length b = unat (of_nat (length b) :: size_t)" using b(2) by (simp add: unat_of_nat)
  from write_spec [OF _ this, of d calm f] ok b
  show "\<exists>d'. m2m_put f d b = Some d' \<and> queue_ok c d' \<and> contents d' = contents d @ [b]"
    by (auto simp: m2m_put_def queue_ok_def spec_write_def calm_def split: m2m_outcome.splits)
next
  fix d and b :: bytes and q assume ok: "queue_ok c d" and b: "contents d = b # q" "length b \<le> 4096"
  have "length (replicate (unat MAX_MSG) (0 :: 8 word)) = unat MAX_MSG" by simp
  from read_spec [OF _ this, of d calm f] ok b
  show "\<exists>d'. m2m_get f d = Some (b, d') \<and> queue_ok c d' \<and> contents d' = q"
    by (auto simp: m2m_get_def queue_ok_def spec_read_def calm_def split: m2m_outcome.splits)
qed

section \<open>Properties of one call\<close>

text \<open>C29. One call. On a device whose counter is right, \<open>m2m_write\<close> and \<open>m2m_read\<close> do what the abstract queue of messages
  does, on every branch. A write does nothing for no bytes, returns \<open>-EMSGSIZE\<close> above
  \<open>MAX_MSG\<close>, \<open>-EAGAIN\<close> or \<open>-ERESTARTSYS\<close> or sleeps when the message does not fit,
  returns \<open>-ENOMEM\<close> or \<open>-EFAULT\<close> without a change, and otherwise appends the message. A read returns \<open>-EAGAIN\<close> or
  \<open>-ERESTARTSYS\<close> or sleeps on the empty queue; otherwise the
  first message leaves the queue and the caller gets its first bytes, as many as fit into the
  buffer: the rest of a longer message is dropped, and a fault drops the whole message. The counter stays right and no allocation
  is lost.\<close>

theorem m2m_call_refines:
  assumes "dev_ok d" and "length buf = unat n"
  shows "(case m2m_write env f n buf d of
      Sleeping d' \<Rightarrow> d' = d \<and> spec_write env f buf (contents d) = None
    | Return r buf' d' \<Rightarrow> buf' = buf \<and> spec_write env f buf (contents d) = Some (r, contents d') \<and>
        dev_ok d' \<and> kmem d' - 2 * length (msg_list d') = kmem d - 2 * length (msg_list d)) \<and>
    (case m2m_read env f n buf d of
      Sleeping d' \<Rightarrow> d' = d \<and> spec_read env f (unat n) (contents d) = None
    | Return r buf' d' \<Rightarrow> \<exists>out. spec_read env f (unat n) (contents d) = Some (r, out, contents d') \<and>
        buf' = out @ drop (length out) buf \<and> dev_ok d' \<and>
        kmem d' - 2 * length (msg_list d') = kmem d - 2 * length (msg_list d))"
  using write_spec [OF assms] read_spec [OF assms] by (rule conjI)

theorem m2m_call_refines_witness:
  "let d = m2m_chardev_zero\<lparr>msg_list := [\<lparr>msg_len = 2, msg_data = [7, 8]\<rparr>], queued_bytes := 2, kmem := 2\<rparr>;
       f = \<lparr>f_nonblock = True, private_data = None\<rparr>
   in (\<exists>d'. m2m_write calm f 1 [9] d = Return 1 [9] d' \<and> dev_ok d' \<and> contents d' = [[7, 8], [9]]) \<and>
      (\<exists>d'. m2m_read calm f 1 [9] d = Return 1 [7] d' \<and> dev_ok d' \<and> contents d' = [])"
proof -
  let ?d = "m2m_chardev_zero\<lparr>msg_list := [\<lparr>msg_len = 2, msg_data = [7, 8]\<rparr>], queued_bytes := 2, kmem := 2\<rparr>"
  have "dev_ok ?d" by (simp add: dev_ok_def m2m_chardev_zero_def wf_msg_def MAX_MSG_def)
  from m2m_call_refines [OF this, of "[9]" 1 calm "\<lparr>f_nonblock = True, private_data = None\<rparr>"]
  show ?thesis
    by (auto simp: Let_def spec_write_def spec_read_def calm_def contents_def queue_bytes_def split: m2m_outcome.splits)
qed

text \<open>C30. Round trip. Messages of 1 to 4096 bytes, 65536 bytes in all, that are written to the
  empty device come back whole and in their order, one per read; afterwards the device is
  empty and every allocation is freed.\<close>

theorem m2m_roundtrip:
  assumes "dev_ok d" and "contents d = []" and "\<forall>b \<in> set bs. b \<noteq> [] \<and> length b \<le> 4096" and "queue_bytes bs \<le> 65536"
  shows "\<exists>d1 d2. put_all (m2m_put f) bs d = Some d1 \<and> get_all (m2m_get f) (length bs) d1 = Some (bs, d2) \<and>
    contents d2 = [] \<and> kmem d2 = kmem d"
proof -
  have "queue_ok (kmem d) d" using assms(1,2) by (simp add: queue_ok_def contents_def)
  from m2m_mq.put_get_all [OF this assms(2-4), of f] show ?thesis
    by (fastforce simp: queue_ok_def contents_def)
qed

theorem m2m_roundtrip_witness:
  "\<exists>d1 d2. put_all (m2m_put \<lparr>f_nonblock = True, private_data = None\<rparr>) [[1], [2, 3]] m2m_chardev_zero = Some d1 \<and>
     get_all (m2m_get \<lparr>f_nonblock = True, private_data = None\<rparr>) (length [[1], [2, 3] :: bytes]) d1 = Some ([[1], [2, 3]], d2) \<and>
     contents d2 = [] \<and> kmem d2 = kmem m2m_chardev_zero"
  by (rule m2m_roundtrip) (simp_all add: dev_ok_def contents_def m2m_chardev_zero_def queue_bytes_def)

end
