(* ===== verification/M2m_Conc.thy ===== *)
theory M2m_Conc
  imports M2m_Props
begin

text \<open>
  The message queue device under concurrent calls: safety, order, progress and allocations over every
  interleaving, and two interleavings in which the device does what it should not. Loading and
  unloading of the module close the theory.
\<close>

section \<open>Reachable states\<close>

definition m2m_reach :: "init_env \<Rightarrow> nat \<Rightarrow> m2m_sys \<Rightarrow> bool" where
  "m2m_reach env n s \<longleftrightarrow> m2m_trans\<^sup>*\<^sup>* (m2m_start env n) s"

interpretation m2m_len: step_invariant "\<lambda>s. \<exists>env. s = m2m_start env n" m2m_trans "\<lambda>s. length (threads s) = n"
  by unfold_locales (auto elim!: m2m_transE dest: step_thread)

lemma reach_length: "m2m_reach env n s \<Longrightarrow> length (threads s) = n"
  unfolding m2m_reach_def by (rule m2m_len.inv_reachable) auto

lemma reach_queue: "n \<le> 2 ^ 51 \<Longrightarrow> m2m_reach env n s \<Longrightarrow> queue_inv s"
  unfolding m2m_reach_def by (rule m2m_queue.inv_reachable) auto

lemma reach_live: "n \<le> 2 ^ 51 \<Longrightarrow> m2m_reach env n s \<Longrightarrow> live_inv s"
  unfolding m2m_reach_def by (rule m2m_live.inv_reachable) auto

lemma reach_order: "m2m_reach env n s \<Longrightarrow> sent s = received s @ msg_list (dev s)"
  unfolding m2m_reach_def by (rule m2m_order.inv_reachable) auto

lemma reach_alloc: "m2m_reach env n s \<Longrightarrow> alloc_inv s"
  unfolding m2m_reach_def by (rule m2m_alloc.inv_reachable) auto

lemma reach_start: "m2m_reach env n (m2m_start env n)"
  by (simp add: m2m_reach_def)

lemma reach_exec: "m2m_reach env n s \<Longrightarrow> m2m_exec sched s = Some s' \<Longrightarrow> m2m_reach env n s'"
  unfolding m2m_reach_def using m2m_exec_reach by (metis rtranclp_trans)

lemma exec_append: "m2m_exec (xs @ ys) s = (case m2m_exec xs s of None \<Rightarrow> None | Some s' \<Rightarrow> m2m_exec ys s')"
  by (induction xs arbitrary: s) (auto split: option.splits)

lemma thread_sum_zero: "\<forall>t < length (threads s). f (threads s ! t) = 0 \<Longrightarrow> thread_sum f s = 0"
  by (auto simp: thread_sum_def in_set_conv_nth)

lemma queue_unlocked:
  assumes "queue_inv s" and "lock s = None"
  shows "unat (queued_bytes (dev s)) = bytes_of (msg_list (dev s))"
proof -
  have "\<forall>t < length (threads s). to_add (threads s ! t) = 0 \<and> to_sub (threads s ! t) = 0"
    using assms not_crit_counted by (simp add: queue_inv_def lock_inv_def)
  then have "thread_sum to_add s = 0" "thread_sum to_sub s = 0" by (simp_all add: thread_sum_zero)
  with assms(1) show ?thesis by (simp add: queue_inv_def count_inv_def)
qed

section \<open>A state in which nothing can run\<close>

lemma stuck_pc:
  assumes "t < length (threads s)" and "\<forall>env. \<not> signalled env \<longrightarrow> m2m_step (Run env) t s = None"
  shows "pc (threads s ! t) \<in> {Idle, R_sleep, W_sleep} \<or>
    lock s \<noteq> None \<and> \<not> crit (pc (threads s ! t)) \<and> \<not> wakes_readers (pc (threads s ! t)) \<and> \<not> wakes_writers (pc (threads s ! t))"
  using assms(2) [rule_format, of calm] assms(1)
  by (cases "pc (threads s ! t)")
    (auto simp: step_defs dev_defs Let_def calm_def split: if_splits option.splits list.splits prod.splits)

text \<open>Without the lock taken, and it is not when nothing can run, every thread is idle or asleep.\<close>

lemma stuck_sleep:
  assumes inv: "live_inv s" and stuck: "\<forall>t < length (threads s). \<forall>env. \<not> signalled env \<longrightarrow> m2m_step (Run env) t s = None"
  shows "lock s = None" and "t < length (threads s) \<Longrightarrow> pc (threads s ! t) \<in> {Idle, R_sleep, W_sleep}"
    and "t < length (threads s) \<Longrightarrow> pc (threads s ! t) = R_sleep \<Longrightarrow> msg_list (dev s) = []"
    and "t < length (threads s) \<Longrightarrow> pc (threads s ! t) = W_sleep \<Longrightarrow> \<not> fits s (threads s ! t)"
proof -
  have lock: "lock s = Some u \<longleftrightarrow> u < length (threads s) \<and> crit (pc (threads s ! u))" for u
    using inv by (simp add: live_inv_def queue_inv_def lock_inv_def)
  show free: "lock s = None"
  proof (cases "lock s")
    case (Some u)
    then have u: "u < length (threads s)" "crit (pc (threads s ! u))" using lock by auto
    with stuck_pc [OF u(1)] stuck show ?thesis by auto
  qed
  show pcs: "t < length (threads s) \<Longrightarrow> pc (threads s ! t) \<in> {Idle, R_sleep, W_sleep}" for t
    using stuck_pc [of t s] stuck free by auto
  have none: "\<not> wakes_readers (pc (threads s ! u)) \<and> \<not> wakes_writers (pc (threads s ! u))"
    if "u < length (threads s)" for u
    using pcs [OF that] by auto
  show "t < length (threads s) \<Longrightarrow> pc (threads s ! t) = R_sleep \<Longrightarrow> msg_list (dev s) = []"
    and "t < length (threads s) \<Longrightarrow> pc (threads s ! t) = W_sleep \<Longrightarrow> \<not> fits s (threads s ! t)"
    using inv none by (auto simp: live_inv_def readq_inv_def writeq_inv_def)
qed

section \<open>Executions\<close>

text \<open>A module that loads, calls that neither fault nor lack memory, and the longest message.\<close>

definition ok_init :: init_env where
  "ok_init = \<lparr>chrdev_ret = 0, cdev_ret = 0, class_ret = ObjPtr, device_ret = ObjPtr\<rparr>"

text \<open>Two idle threads with open files, and \<open>k\<close> longest messages in the queue.\<close>

definition filled :: "nat \<Rightarrow> m2m_sys \<Rightarrow> bool" where
  "filled k s \<longleftrightarrow> (\<exists>a b. threads s = [a, b] \<and> pc a = Idle \<and> pc b = Idle \<and> private_data (filp a) \<noteq> None \<and>
     private_data (filp b) \<noteq> None) \<and> lock s = None \<and> unat (queued_bytes (dev s)) = k * 4096"

definition runs :: "nat list \<Rightarrow> (m2m_action \<times> nat) list" where
  "runs ts = map (\<lambda>t. (Run calm, t)) ts"

definition page :: bytes where "page = replicate 4096 0"

lemma length_page: "length page = unat MAX_MSG" by (simp add: page_def)

lemma MAX_MSG_ok [simp]: "MAX_MSG \<noteq> 0" by (simp_all add: MAX_MSG_def)

lemma room_unat: "unat (q :: size_t) + 4096 \<le> 65536 \<Longrightarrow> q + MAX_MSG \<le> MAX_BYTES \<and> unat (q + MAX_MSG) = unat q + 4096"
  using unat_add_small [of q MAX_MSG] by (simp add: word_le_nat_alt)

lemma fill_step:
  assumes "filled k s" and "k < 16"
  shows "\<exists>s'. m2m_exec ((Call_write MAX_MSG page, 0) # runs [0, 0, 0, 0, 0, 0, 0, 0, 0, 0]) s = Some s' \<and> filled (Suc k) s'"
proof -
  have "unat (queued_bytes (dev s)) + 4096 \<le> 65536" using assms by (simp add: filled_def)
  from room_unat [OF this] assms show ?thesis
    by (auto simp: filled_def alone_simps calm_def length_page runs_def simp del: unat_MAX not_None_eq)
qed

lemma fill: "k \<le> 16 \<Longrightarrow> \<exists>s. m2m_reach ok_init 2 s \<and> filled k s"
proof (induction k)
  case 0
  have "\<exists>s'. m2m_exec [(Open True False, 0), (Open True False, 1)] (m2m_start ok_init 2) = Some s' \<and> filled 0 s'"
    by (simp add: m2m_step_def m2m_start_def m2m_open_def filled_def idle_thread_def numeral_eq_Suc dev_defs
         m2m_init_def ok_init_def m2m_chardev_zero_def)
  then show ?case using reach_exec [OF reach_start] by blast
next
  case (Suc k)
  then obtain s where s: "m2m_reach ok_init 2 s" "filled k s" by auto
  from fill_step [OF s(2)] Suc.prems obtain s' where
    "m2m_exec ((Call_write MAX_MSG page, 0) # runs [0, 0, 0, 0, 0, 0, 0, 0, 0, 0]) s = Some s'" "filled (Suc k) s'" by auto
  with reach_exec [OF s(1)] show ?case by blast
qed

lemma race_exec:
  assumes "filled 15 s"
  shows "\<exists>s'. m2m_exec ([(Call_write MAX_MSG page, 0), (Call_write MAX_MSG page, 1)] @
     runs [0, 0, 0, 1, 1, 1, 0, 0, 0, 0, 0, 0, 0, 1, 1, 1, 1, 1, 1, 1]) s = Some s' \<and>
    lock s' = None \<and> unat (queued_bytes (dev s')) = 69632 \<and> result (threads s' ! 0) = uint MAX_MSG \<and> result (threads s' ! 1) = uint MAX_MSG"
proof -
  let ?q = "queued_bytes (dev s)"
  have q: "unat ?q + 4096 \<le> 65536" "unat ?q = 61440" using assms by (simp_all add: filled_def)
  have "unat (?q + MAX_MSG + MAX_MSG) = 69632"
    using room_unat [OF q(1)] unat_add_small [of "?q + MAX_MSG" MAX_MSG] q by simp
  with room_unat [OF q(1)] assms show ?thesis
    by (auto simp: filled_def alone_simps calm_def length_page runs_def simp del: unat_MAX not_None_eq)
qed

text \<open>A reader with \<open>O_NONBLOCK\<close>, a writer without, and one message of one byte.\<close>

definition one_message :: "(m2m_action \<times> nat) list" where
  "one_message = [(Open True True, 0), (Open True False, 1), (Call_write 1 [7], 1)] @ runs [1, 1, 1, 1, 1, 1, 1, 1, 1, 1]"

lemma m2m_start_two:
  "m2m_start ok_init 2 = \<lparr>dev = snd (m2m_init ok_init m2m_chardev_zero), lock = None,
     threads = [idle_thread, idle_thread], sent = [], received = []\<rparr>"
  by (simp add: m2m_start_def numeral_eq_Suc)

lemmas exec_simps = runs_def alone_simps m2m_open_def m2m_release_def calm_def idle_thread_def
  m2m_init_def ok_init_def m2m_chardev_zero_def MAX_MSG_def MAX_BYTES_def

lemma one_message_state:
  "\<exists>s a b. m2m_exec one_message (m2m_start ok_init 2) = Some s \<and> threads s = [a, b] \<and> lock s = None \<and>
     pc a = Idle \<and> f_nonblock (filp a) \<and> private_data (filp a) \<noteq> None \<and>
     pc b = Idle \<and> \<not> f_nonblock (filp b) \<and> private_data (filp b) \<noteq> None \<and>
     msg_list (dev s) = [\<lparr>msg_len = 1, msg_data = [7]\<rparr>]"
  unfolding m2m_start_two by (simp add: one_message_def exec_simps)

lemma nonblock_exec:
  assumes "threads s = [a, b]" "lock s = None" "pc a = Idle" "f_nonblock (filp a)" "private_data (filp a) \<noteq> None"
    "pc b = Idle" "\<not> f_nonblock (filp b)" "private_data (filp b) \<noteq> None" "msg_list (dev s) = [\<lparr>msg_len = 1, msg_data = [7]\<rparr>]"
  shows "\<exists>s'. m2m_exec ((Call_read 1 [0], 0) # runs [0, 0, 0] @ (Call_read 1 [0], 1) # runs [1, 1, 1, 1, 1, 1, 1, 1, 0]) s = Some s' \<and>
      f_nonblock (filp (threads s' ! 0)) \<and> pc (threads s' ! 0) = R_sleep"
    and "\<exists>s'. m2m_exec ((Call_read 1 [0], 1) # runs [1] @ (Call_read 1 [0], 0) # runs [0, 0, 0, 0, 0, 0, 0, 0, 0, 0, 0, 1, 1, 1]) s = Some s' \<and>
      \<not> f_nonblock (filp (threads s' ! 1)) \<and> pc (threads s' ! 1) = Idle \<and> result (threads s' ! 1) = - EAGAIN"
  using assms by (simp_all add: runs_def alone_simps calm_def del: not_None_eq)

lemma asleep_state:
  "\<exists>s a b. m2m_exec ([(Open True False, 0), (Call_read 1 [0], 0)] @ runs [0]) (m2m_start ok_init 2) = Some s \<and>
     threads s = [a, b] \<and> pc a = R_sleep \<and> pc b = Idle"
  unfolding m2m_start_two by (simp add: exec_simps)

lemma closed_state:
  "\<exists>s a b. m2m_exec (one_message @ [(Release, 0), (Release, 1)]) (m2m_start ok_init 2) = Some s \<and>
     threads s = [a, b] \<and> pc a = Idle \<and> pc b = Idle \<and> private_data (filp a) = None \<and> private_data (filp b) = None"
  unfolding m2m_start_two by (simp add: one_message_def exec_simps)

section \<open>Properties\<close>

text \<open>C28. The two models agree. A call that starts while the lock is free and runs without another thread
  returns what \<open>m2m_read\<close> or \<open>m2m_write\<close> returns, with the same bytes and the same device.\<close>

theorem m2m_calls_alone:
  assumes "lock s = None" and "t < length (threads s)" and "pc (threads s ! t) = Idle"
    and "filp (threads s ! t) = f" and "private_data f \<noteq> None" and "length buf = unat n"
  shows "(m2m_read env f n buf (dev s) = Return r buf' d \<longrightarrow>
      (\<exists>k s'. m2m_exec ((Call_read n buf, t) # replicate k (Run env, t)) s = Some s' \<and> came_back t r buf' d s')) \<and>
    (m2m_write env f n buf (dev s) = Return r buf' d \<longrightarrow>
      (\<exists>k s'. m2m_exec ((Call_write n buf, t) # replicate k (Run env, t)) s = Some s' \<and> came_back t r buf' d s'))"
proof (intro conjI impI)
  let ?th = "(threads s ! t)\<lparr>cnt := n, ubuf := buf\<rparr>"
  assume ret: "m2m_read env f n buf (dev s) = Return r buf' d"
  let ?s = "s\<lparr>threads := (threads s)[t := ?th\<lparr>pc := (if f_nonblock f then R_check_lock else R_wait)\<rparr>]\<rparr>"
  have "m2m_step (Call_read n buf) t s = Some ?s" using assms by (simp add: m2m_step_def Let_def)
  moreover have "\<exists>k s'. m2m_exec (replicate k (Run env, t)) ?s = Some s' \<and> came_back t r buf' d s'"
    by (rule read_alone) (use assms ret in auto)
  ultimately show "\<exists>k s'. m2m_exec ((Call_read n buf, t) # replicate k (Run env, t)) s = Some s' \<and> came_back t r buf' d s'"
    by simp
next
  let ?th = "(threads s ! t)\<lparr>cnt := n, ubuf := buf\<rparr>"
  assume ret: "m2m_write env f n buf (dev s) = Return r buf' d"
  let ?s = "s\<lparr>threads := (threads s)[t := ?th\<lparr>pc := W_lock\<rparr>]\<rparr>"
  show "\<exists>k s'. m2m_exec ((Call_write n buf, t) # replicate k (Run env, t)) s = Some s' \<and> came_back t r buf' d s'"
  proof (cases "n = 0 \<or> n > MAX_MSG")
    case True
    with assms ret show ?thesis
      by (intro exI [of _ 0]) (auto simp: m2m_step_def Let_def finish_def came_back_def m2m_write_def split: if_splits)
  next
    case False
    have "m2m_step (Call_write n buf) t s = Some ?s" using assms False by (simp add: m2m_step_def Let_def goto_def)
    moreover have "\<exists>k s'. m2m_exec (replicate k (Run env, t)) ?s = Some s' \<and> came_back t r buf' d s'"
      by (rule write_alone) (use assms ret False in \<open>auto simp: not_less\<close>)
    ultimately show ?thesis by simp
  qed
qed

theorem m2m_calls_alone_witness:
  "\<exists>k s'. m2m_exec ((Call_read 1 [0], 0) # replicate k (Run calm, 0))
      ((m2m_start ok_init 1)\<lparr>threads := [idle_thread\<lparr>filp := \<lparr>f_nonblock = True, private_data = Some \<lparr>is_reader = True, is_writer = True\<rparr>\<rparr>\<rparr>]\<rparr>) = Some s' \<and>
    came_back 0 (- EAGAIN) [0] (dev (m2m_start ok_init 1)) s'"
  using m2m_calls_alone [of "(m2m_start ok_init 1)\<lparr>threads := [idle_thread\<lparr>filp := \<lparr>f_nonblock = True, private_data = Some \<lparr>is_reader = True, is_writer = True\<rparr>\<rparr>\<rparr>]\<rparr>"
      0 "\<lparr>f_nonblock = True, private_data = Some \<lparr>is_reader = True, is_writer = True\<rparr>\<rparr>" "[0]" 1 calm "- EAGAIN" "[0]" "dev (m2m_start ok_init 1)"]
  by (simp add: m2m_read_def idle_thread_def del: m2m_exec.simps)

text \<open>C1. Safety. In every interleaving at most one thread is in a critical section, every queued message is
  well formed (1 to 4096 bytes, all of them written), and whenever the lock is free
  \<open>queued_bytes\<close> is exactly the number of bytes in the list: the counter never wraps around.\<close>

theorem m2m_queue_safe:
  assumes "n \<le> 2 ^ 51" and "m2m_reach env n s"
  shows "(\<forall>t < n. \<forall>u < n. crit (pc (threads s ! t)) \<longrightarrow> crit (pc (threads s ! u)) \<longrightarrow> t = u) \<and>
    (\<forall>m \<in> set (msg_list (dev s)). wf_msg m) \<and>
    (lock s = None \<longrightarrow> unat (queued_bytes (dev s)) = bytes_of (msg_list (dev s)))"
proof -
  note inv = reach_queue [OF assms] and len = reach_length [OF assms(2)]
  have "\<forall>t < n. \<forall>u < n. crit (pc (threads s ! t)) \<longrightarrow> crit (pc (threads s ! u)) \<longrightarrow> t = u"
    using inv len unfolding queue_inv_def lock_inv_def by (metis option.inject)
  with inv queue_unlocked [OF inv] show ?thesis by (simp add: queue_inv_def wf_inv_def)
qed

theorem m2m_queue_safe_witness:
  "\<exists>s. m2m_reach ok_init 2 s \<and> filled 16 s \<and> unat (queued_bytes (dev s)) = bytes_of (msg_list (dev s))"
proof -
  obtain s where s: "m2m_reach ok_init 2 s" "filled 16 s" using fill [of 16] by auto
  with m2m_queue_safe [OF _ s(1)] show ?thesis by (auto simp: filled_def)
qed

text \<open>C26. The bound that holds. With \<open>n\<close> threads the counter never exceeds
  \<open>MAX_BYTES + (n - 1) * MAX_MSG\<close>; for a single writer this is \<open>MAX_BYTES\<close>.\<close>

theorem m2m_queue_bound:
  assumes "n \<le> 2 ^ 51" and "m2m_reach env n s"
  shows "unat (queued_bytes (dev s)) \<le> unat MAX_BYTES + (n - 1) * unat MAX_MSG"
  using reach_queue [OF assms] reach_length [OF assms(2)]
  by (simp add: queue_inv_def bound_inv_def limit_def)

theorem m2m_queue_bound_witness:
  "\<exists>s. m2m_reach ok_init 2 s \<and> filled 16 s \<and> unat (queued_bytes (dev s)) \<le> unat MAX_BYTES + (2 - 1) * unat MAX_MSG"
proof -
  obtain s where s: "m2m_reach ok_init 2 s" "filled 16 s" using fill [of 16] by auto
  with m2m_queue_bound [OF _ s(1)] show ?thesis by auto
qed

text \<open>C2. Delivery. In every interleaving the messages put into the list are, in this order, those taken from it
  followed by those still in it: no message is lost in the list, duplicated or overtaken.\<close>

theorem m2m_fifo_delivery:
  assumes "m2m_reach env n s"
  shows "sent s = received s @ msg_list (dev s)"
  by (rule reach_order [OF assms])

theorem m2m_fifo_delivery_witness:
  "\<exists>s. m2m_exec one_message (m2m_start ok_init 2) = Some s \<and> msg_list (dev s) \<noteq> [] \<and> sent s = received s @ msg_list (dev s)"
proof -
  obtain s where s: "m2m_exec one_message (m2m_start ok_init 2) = Some s" "msg_list (dev s) \<noteq> []"
    using one_message_state by fastforce
  with m2m_fifo_delivery [OF reach_exec [OF reach_start s(1)]] show ?thesis by blast
qed

text \<open>C3. Progress. When no thread can take a step and no signal comes, the lock is free and every thread is
  between two calls, or asleep with its condition false: a reader at the empty list, a writer
  whose message does not fit. So no wake-up is lost and there is no deadlock; and in such
  a state there are never a sleeping reader and a sleeping writer together.\<close>

theorem m2m_progress:
  assumes "n \<le> 2 ^ 51" and "m2m_reach env n s"
    and "\<forall>t < n. \<forall>e. \<not> signalled e \<longrightarrow> m2m_step (Run e) t s = None"
  shows "lock s = None \<and>
    (\<forall>t < n. pc (threads s ! t) = Idle \<or>
       (pc (threads s ! t) = R_sleep \<and> msg_list (dev s) = []) \<or>
       (pc (threads s ! t) = W_sleep \<and> unat (queued_bytes (dev s)) + unat (cnt (threads s ! t)) > unat MAX_BYTES)) \<and>
    \<not> (\<exists>t < n. \<exists>u < n. pc (threads s ! t) = R_sleep \<and> pc (threads s ! u) = W_sleep)"
proof -
  note inv = reach_live [OF assms(1,2)] and len = reach_length [OF assms(2)]
  note stuck = stuck_sleep [OF inv assms(3) [folded len]]
  have "\<not> (pc (threads s ! t) = R_sleep \<and> pc (threads s ! u) = W_sleep)" if "t < n" "u < n" for t u
  proof
    assume p: "pc (threads s ! t) = R_sleep \<and> pc (threads s ! u) = W_sleep"
    then have "msg_list (dev s) = []" using stuck(3) that len by blast
    then have "unat (queued_bytes (dev s)) = 0"
      using inv queue_unlocked [of s] stuck(1) by (simp add: live_inv_def)
    moreover have "wf_thread (threads s ! u)"
      using inv that len by (simp add: live_inv_def queue_inv_def wf_inv_def)
    then have "unat (cnt (threads s ! u)) \<le> 4096"
      using p by (simp add: wf_thread_def writes_def word_le_nat_alt)
    ultimately show False using stuck(4) [of u] p that len by (simp add: fits_def)
  qed
  then show ?thesis using stuck len by (fastforce simp: fits_def not_le)
qed

theorem m2m_progress_witness:
  "\<exists>s. m2m_reach ok_init 2 s \<and> pc (threads s ! 0) = R_sleep \<and> lock s = None \<and> msg_list (dev s) = []"
proof -
  obtain s a b where s: "m2m_exec ([(Open True False, 0), (Call_read 1 [0], 0)] @ runs [0]) (m2m_start ok_init 2) = Some s"
    "threads s = [a, b]" "pc a = R_sleep" "pc b = Idle" using asleep_state by blast
  have r: "m2m_reach ok_init 2 s" by (rule reach_exec [OF reach_start s(1)])
  have "\<forall>t < 2. \<forall>e. \<not> signalled e \<longrightarrow> m2m_step (Run e) t s = None"
    using s(2-4) by (auto simp: less_2_cases_iff alone_simps)
  with m2m_progress [OF _ r] s r show ?thesis by force
qed

text \<open>C27. Allocations. In every interleaving, whatever allocations and copies fail, the live allocations are
  two for each queued message, two for each message a call holds and one for each open file;
  once all files are closed, \<open>m2m_exit\<close> frees the rest.\<close>

theorem m2m_no_leak:
  assumes "m2m_reach env n s"
  shows "kmem (dev s) = 2 * length (msg_list (dev s)) + thread_sum held s \<and>
    ((\<forall>t < n. pc (threads s ! t) = Idle \<and> private_data (filp (threads s ! t)) = None) \<longrightarrow>
     kmem (m2m_exit (dev s)) = 0 \<and> msg_list (m2m_exit (dev s)) = [])"
proof -
  have k: "kmem (dev s) = 2 * length (msg_list (dev s)) + thread_sum held s"
    using reach_alloc [OF assms] by (simp add: alloc_inv_def)
  moreover have "thread_sum held s = 0"
    if "\<forall>t < n. pc (threads s ! t) = Idle \<and> private_data (filp (threads s ! t)) = None"
    using that reach_length [OF assms] by (intro thread_sum_zero) (simp add: held_def opened_def)
  ultimately show ?thesis by (simp add: m2m_exit_result)
qed

theorem m2m_no_leak_witness:
  "\<exists>s. m2m_reach ok_init 2 s \<and> kmem (m2m_exit (dev s)) = 0 \<and> msg_list (m2m_exit (dev s)) = []"
proof -
  obtain s a b where s: "m2m_exec (one_message @ [(Release, 0), (Release, 1)]) (m2m_start ok_init 2) = Some s"
    "threads s = [a, b]" "pc a = Idle" "pc b = Idle" "private_data (filp a) = None" "private_data (filp b) = None"
    using closed_state by blast
  have r: "m2m_reach ok_init 2 s" by (rule reach_exec [OF reach_start s(1)])
  have "\<forall>t < 2. pc (threads s ! t) = Idle \<and> private_data (filp (threads s ! t)) = None"
    using s(2-6) by (auto simp: less_2_cases_iff)
  with m2m_no_leak [OF r] r show ?thesis by blast
qed

text \<open>The limit is not kept. Two writers that both pass the check before either appends leave 69632 bytes in
  the queue, above \<open>MAX_BYTES\<close> and exactly at the bound for two threads: check and append are two critical
  sections.\<close>

lemma limit_exceeded:
  "\<exists>s. m2m_reach ok_init 2 s \<and> lock s = None \<and> unat MAX_BYTES < unat (queued_bytes (dev s)) \<and>
     unat (queued_bytes (dev s)) = unat MAX_BYTES + (2 - 1) * unat MAX_MSG"
proof -
  obtain s where s: "m2m_reach ok_init 2 s" "filled 15 s" using fill [of 15] by auto
  from race_exec [OF s(2)] reach_exec [OF s(1)] show ?thesis by fastforce
qed

text \<open>The flag \<open>O_NONBLOCK\<close> is not kept either way by \<open>m2m_read\<close>, because the test of the list and the
  removal are in different critical sections: a read with the flag may fall asleep, and one without
  it may return \<open>-EAGAIN\<close>, when another reader takes the message in between.\<close>

lemma read_race:
  "(\<exists>s. m2m_reach ok_init 2 s \<and> f_nonblock (filp (threads s ! 0)) \<and> pc (threads s ! 0) = R_sleep) \<and>
   (\<exists>s. m2m_reach ok_init 2 s \<and> \<not> f_nonblock (filp (threads s ! 1)) \<and> pc (threads s ! 1) = Idle \<and>
      result (threads s ! 1) = - EAGAIN)"
proof -
  obtain s a b where s: "m2m_exec one_message (m2m_start ok_init 2) = Some s" "threads s = [a, b]" "lock s = None"
    "pc a = Idle" "f_nonblock (filp a)" "private_data (filp a) \<noteq> None"
    "pc b = Idle" "\<not> f_nonblock (filp b)" "private_data (filp b) \<noteq> None" "msg_list (dev s) = [\<lparr>msg_len = 1, msg_data = [7]\<rparr>]"
    using one_message_state by blast
  note r = reach_exec [OF reach_exec [OF reach_start s(1)]]
  from nonblock_exec [OF s(2-10)] r show ?thesis by blast
qed

text \<open>C31. Test and act in two critical sections. Two writers that both pass the check before either appends leave 69632 bytes in
  the queue, above \<open>MAX_BYTES\<close> and exactly at the bound for two threads. A read with \<open>O_NONBLOCK\<close> may fall asleep, and one without
  it may return \<open>-EAGAIN\<close>, when another reader takes the message between the test and the removal.\<close>

theorem m2m_split_sections:
  "(\<exists>s. m2m_reach ok_init 2 s \<and> lock s = None \<and> unat MAX_BYTES < unat (queued_bytes (dev s)) \<and>
      unat (queued_bytes (dev s)) = unat MAX_BYTES + (2 - 1) * unat MAX_MSG) \<and>
   (\<exists>s. m2m_reach ok_init 2 s \<and> f_nonblock (filp (threads s ! 0)) \<and> pc (threads s ! 0) = R_sleep) \<and>
   (\<exists>s. m2m_reach ok_init 2 s \<and> \<not> f_nonblock (filp (threads s ! 1)) \<and> pc (threads s ! 1) = Idle \<and>
      result (threads s ! 1) = - EAGAIN)"
  by (rule conjI [OF limit_exceeded read_race])

text \<open>Poll. On a device whose counter is right, \<open>POLLIN\<close> is set exactly when a read with \<open>O_NONBLOCK\<close> would
  not return \<open>-EAGAIN\<close>, and \<open>POLLOUT\<close> exactly when a write of one byte would not; a longer write may
  still be refused.\<close>

lemma m2m_poll_exact:
  assumes "dev_ok d" and "f_nonblock f"
  shows "(pollin (m2m_poll d) \<longleftrightarrow> m2m_read calm f n buf d \<noteq> Return (- EAGAIN) buf d) \<and>
    (pollout (m2m_poll d) \<longleftrightarrow> m2m_write calm f 1 [b] d \<noteq> Return (- EAGAIN) [b] d)"
proof -
  have "queued_bytes d + 1 \<le> MAX_BYTES \<longleftrightarrow> queued_bytes d < MAX_BYTES"
    using write_room(1) [OF assms(1), of 1] assms(1) by (auto simp: dev_ok_def word_less_nat_alt)
  moreover have "1 \<le> MAX_MSG" by (simp add: MAX_MSG_def)
  moreover have "uint (min n (msg_len m)) \<noteq> - EAGAIN" for m :: msg
  proof -
    have "0 \<le> uint (min n (msg_len m))" by simp
    then show ?thesis unfolding EAGAIN_def by linarith
  qed
  ultimately show ?thesis using assms(2)
    by (cases "msg_list d") (auto simp: m2m_poll_def m2m_read_def m2m_write_def dev_defs calm_def Let_def EAGAIN_def)
qed

section \<open>Loading and unloading\<close>

text \<open>What \<open>class_create\<close> and \<open>device_create\<close> promise: an object, or an error code, which is negative.\<close>

definition kernel_ptr :: "kptr \<Rightarrow> bool" where
  "kernel_ptr p \<longleftrightarrow> p = ObjPtr \<or> (\<exists>e < 0. p = ErrPtr e)"

text \<open>C32. Loading and unloading. \<open>m2m_init\<close> returns 0 exactly when all four registrations succeed, and then
  \<open>m2m_exit\<close> undoes all of them; when one fails it returns an error and leaves no kernel object behind.\<close>

theorem m2m_init_exit:
  assumes "no_kernel_objects d" and "kernel_ptr (class_ret env)" and "kernel_ptr (device_ret env)"
    and "m2m_init env d = (ret, d')"
  shows "(ret = 0 \<longleftrightarrow> chrdev_ret env = 0 \<and> cdev_ret env = 0 \<and> class_ret env = ObjPtr \<and> device_ret env = ObjPtr) \<and>
    (ret \<noteq> 0 \<longrightarrow> no_kernel_objects d') \<and>
    (ret = 0 \<longrightarrow> region_live d' \<and> cdev_live d' \<and> class_live d' \<and> device_live d' \<and> no_kernel_objects (m2m_exit d'))"
proof -
  note defs = m2m_init_def kernel_defs Let_def no_kernel_objects_def
  consider "chrdev_ret env \<noteq> 0 \<or> cdev_ret env \<noteq> 0" | e where "chrdev_ret env = 0" "cdev_ret env = 0" "class_ret env = ErrPtr e" "e < 0"
    | e where "chrdev_ret env = 0" "cdev_ret env = 0" "class_ret env = ObjPtr" "device_ret env = ErrPtr e" "e < 0"
    | "chrdev_ret env = 0" "cdev_ret env = 0" "class_ret env = ObjPtr" "device_ret env = ObjPtr"
    using assms(2,3) unfolding kernel_ptr_def by blast
  then show ?thesis
  proof cases
    case 1
    then show ?thesis using assms(1,4) by (auto simp: defs split: if_splits)
  next
    case 4
    then have "ret = 0" "region_live d' \<and> cdev_live d' \<and> class_live d' \<and> device_live d'" "dev_class d' = ObjPtr" "dev_device d' = ObjPtr"
      using assms(4) by (auto simp: defs)
    then show ?thesis using 4
      by (simp add: m2m_exit_def free_messages_result is_err_or_null_def Let_def) (simp add: defs)
  qed (use assms(1,4) in \<open>auto simp: defs\<close>)
qed

theorem m2m_init_exit_witness:
  "no_kernel_objects (snd (m2m_init \<lparr>chrdev_ret = 0, cdev_ret = 0, class_ret = ObjPtr, device_ret = ErrPtr (-12)\<rparr> m2m_chardev_zero)) \<and>
   fst (m2m_init \<lparr>chrdev_ret = 0, cdev_ret = 0, class_ret = ObjPtr, device_ret = ErrPtr (-12)\<rparr> m2m_chardev_zero) \<noteq> 0"
  using m2m_init_exit [of m2m_chardev_zero "\<lparr>chrdev_ret = 0, cdev_ret = 0, class_ret = ObjPtr, device_ret = ErrPtr (-12)\<rparr>",
      OF _ _ _ surjective_pairing]
  by (simp add: no_kernel_objects_def m2m_chardev_zero_def kernel_ptr_def)

end
