(* ===== verification/Chat.thy ===== *)
theory Chat
  imports M2m_Props
begin

text \<open>
  The two user programs of the message queue device, \<^verbatim>\<open>src/3lab/dev/write.c\<close> and \<^verbatim>\<open>src/3lab/dev/read.c\<close>, one round of the loop of
  each and whole runs, on top of the device of \<open>M2m_Dev\<close>. Standard input is the list of the characters still to be read.
\<close>

section \<open>C strings\<close>

definition NEWLINE :: char where "NEWLINE = CHR 0x0A"
definition NUL :: char where "NUL = CHR 0x00"

definition to_bytes :: "string \<Rightarrow> bytes" where
  "to_bytes s = map of_char s"

definition from_bytes :: "bytes \<Rightarrow> string" where
  "from_bytes b = map (\<lambda>w. char_of (unat w)) b"

text \<open>The string an array holds: up to its first 0. Without one there is no string, and \<open>printf\<close> and \<open>strcmp\<close> leave the array.\<close>

definition cstring :: "bytes \<Rightarrow> string option" where
  "cstring b = (if 0 \<in> set b then Some (from_bytes (takeWhile (\<lambda>w. w \<noteq> 0) b)) else None)"

text \<open>\<open>fgets\<close> with room for \<open>n\<close> characters and the 0: up to the end of the line, which it keeps.\<close>

fun fgets :: "nat \<Rightarrow> string \<Rightarrow> string \<times> string" where
  "fgets 0 input = ([], input)"
| "fgets (Suc n) [] = ([], [])"
| "fgets (Suc n) (c # input) =
     (if c = NEWLINE then ([c], input) else let (got, rest) = fgets n input in (c # got, rest))"

definition strlen :: "string \<Rightarrow> nat" where
  "strlen s = length (takeWhile (\<lambda>c. c \<noteq> NUL) s)"

section \<open>\<open>write.c\<close>\<close>

text \<open>One round of the loop. The result of \<open>fgets\<close> is not looked at: at the end of the input it leaves \<open>buffer\<close> as it is, and the
  last line is written again.\<close>

definition writer_round :: "m2m_env \<Rightarrow> m2m_file \<Rightarrow> string \<Rightarrow> string \<Rightarrow> mydev \<Rightarrow> string \<times> string \<times> m2m_outcome" where
  "writer_round env f buffer input d =
     (let (got, rest) = fgets 1023 input;
          buffer1 = (if got = [] then buffer else got);
          n = strlen buffer1
      in (buffer1, rest, m2m_write env f (of_nat n) (to_bytes (take n buffer1)) d))"

text \<open>The loop has no end; a run of it is as many rounds as there are environments in the list. \<open>None\<close> is a run that sleeps in
  \<open>write\<close>. When the device cannot be open_ok \<open>main\<close> exits with \<open>EXIT_FAILURE\<close>, 1.\<close>

fun writer_loop :: "m2m_env list \<Rightarrow> m2m_file \<Rightarrow> string \<Rightarrow> string \<Rightarrow> mydev \<Rightarrow> (string \<times> string \<times> mydev) option" where
  "writer_loop [] f buffer input d = Some (buffer, input, d)"
| "writer_loop (env # envs) f buffer input d =
     (case writer_round env f buffer input d of
        (buffer1, rest, Return r b d1) \<Rightarrow> writer_loop envs f buffer1 rest d1
      | (buffer1, rest, Sleeping d1) \<Rightarrow> None)"

definition writer_main :: "bool \<Rightarrow> m2m_env list \<Rightarrow> m2m_file \<Rightarrow> string \<Rightarrow> string \<Rightarrow> mydev \<Rightarrow> int + (string \<times> string \<times> mydev) option" where
  "writer_main open_ok envs f buffer input d =
     (if \<not> open_ok then Inl 1 else Inr (writer_loop envs f buffer input d))"

section \<open>\<open>read.c\<close>\<close>

text \<open>One round of the loop: what is printed, whether the loop ends, and the device. \<open>None\<close> is a round that sleeps in \<open>read\<close>.\<close>

definition reader_round :: "m2m_env \<Rightarrow> m2m_file \<Rightarrow> mydev \<Rightarrow> (string option \<times> bool \<times> mydev) option" where
  "reader_round env f d =
     (case m2m_read env f 1024 (replicate 1024 0) d of
        Sleeping d1 \<Rightarrow> None
      | Return r num d1 \<Rightarrow> Some (cstring num, cstring num = Some ''quit'', d1))"

text \<open>The loop: what the rounds print and whether it has ended. When the device cannot be open_ok one line says so.\<close>

fun reader_loop :: "m2m_env list \<Rightarrow> m2m_file \<Rightarrow> mydev \<Rightarrow> (string option list \<times> bool \<times> mydev) option" where
  "reader_loop [] f d = Some ([], False, d)"
| "reader_loop (env # envs) f d =
     (case reader_round env f d of
        None \<Rightarrow> None
      | Some (p, quit, d1) \<Rightarrow>
          if quit then Some ([p], True, d1)
          else map_option (\<lambda>(ps, q, d2). (p # ps, q, d2)) (reader_loop envs f d1))"

definition reader_main :: "bool \<Rightarrow> m2m_env list \<Rightarrow> m2m_file \<Rightarrow> mydev \<Rightarrow> (string option list \<times> bool \<times> mydev) option" where
  "reader_main open_ok envs f d =
     (if open_ok then reader_loop envs f d else Some ([Some ''device open failure''], True, d))"

section \<open>Facts\<close>

lemma fgets_line:
  "NEWLINE \<notin> set s \<Longrightarrow> length s < n \<Longrightarrow> fgets n (s @ NEWLINE # rest) = (s @ [NEWLINE], rest)"
proof (induction s arbitrary: n)
  case Nil
  then show ?case by (cases n) auto
next
  case (Cons c s)
  then show ?case by (cases n) auto
qed

lemma strlen_line: "NUL \<notin> set s \<Longrightarrow> strlen s = length s"
proof -
  assume "NUL \<notin> set s"
  then have "takeWhile (\<lambda>c. c \<noteq> NUL) s = s" by (auto simp: takeWhile_eq_all_conv)
  then show ?thesis unfolding strlen_def by (rule arg_cong)
qed

lemma unat_of_size: "k \<le> 1024 \<Longrightarrow> unat (of_nat k :: size_t) = k"
  by (simp add: unat_of_nat)

lemma unat_of_char: "unat (of_char c :: 8 word) = of_char c"
proof -
  have "(of_char c :: 8 word) = of_nat (of_char c)" by (simp only: of_nat_of_char)
  then have "unat (of_char c :: 8 word) = of_char c mod 2 ^ LENGTH(8)" by (metis unat_of_nat)
  then show ?thesis by simp
qed

lemma from_to_bytes: "from_bytes (to_bytes s) = s"
  by (simp add: from_bytes_def to_bytes_def unat_of_char comp_def)

lemma zero_byte: "(of_char c :: 8 word) = 0 \<longleftrightarrow> c = NUL"
proof -
  have "(of_char c :: 8 word) = 0 \<longleftrightarrow> (of_char c :: nat) = of_char NUL"
    by (simp add: unat_eq_zero NUL_def flip: unat_of_char)
  then show ?thesis by simp
qed

lemma cstring_line:
  assumes "NUL \<notin> set s" and "0 < k"
  shows "cstring (to_bytes s @ replicate k 0) = Some s"
proof -
  have nz: "\<forall>w \<in> set (to_bytes s). w \<noteq> 0" using assms(1) by (auto simp: to_bytes_def zero_byte)
  then have "takeWhile (\<lambda>w. w \<noteq> 0) (to_bytes s @ replicate k 0) = to_bytes s"
    using assms(2) by (cases k) (auto simp: takeWhile_append2)
  then show ?thesis using assms(2) by (simp add: cstring_def from_to_bytes)
qed

lemma length_to_bytes [simp]: "length (to_bytes s) = length s"
  by (simp add: to_bytes_def)

text \<open>A line as it is typed: at most 1022 characters and the newline.\<close>

definition line_ok :: "string \<Rightarrow> bool" where
  "line_ok s \<longleftrightarrow> NEWLINE \<notin> set s \<and> NUL \<notin> set s \<and> length s \<le> 1022"

definition typed :: "string \<Rightarrow> string" where
  "typed s = s @ [NEWLINE]"

lemma typed_facts:
  assumes "line_ok s"
  shows "NUL \<notin> set (typed s)" and "length (typed s) < 1024" and "typed s \<noteq> []" and "typed s \<noteq> ''quit''"
  using assms by (auto simp: line_ok_def typed_def NEWLINE_def NUL_def append_eq_Cons_conv)

lemma writer_puts:
  assumes "dev_ok d" and "line_ok s" and "queue_bytes (contents d) + length (typed s) \<le> 65536"
  shows "\<exists>d1. writer_round calm f buffer (typed s @ rest) d = (typed s, rest, Return (int (length (typed s))) (to_bytes (typed s)) d1) \<and>
    dev_ok d1 \<and> contents d1 = contents d @ [to_bytes (typed s)]"
proof -
  note t = typed_facts [OF assms(2)]
  have len: "length (to_bytes (typed s)) = unat (of_nat (length (typed s)) :: size_t)"
    using t(2) by (subst unat_of_size) simp_all
  from write_spec [OF assms(1) len, of calm f] assms(3) t(2,3) obtain d1 where
    w: "m2m_write calm f (of_nat (length (typed s))) (to_bytes (typed s)) d = Return (int (length (typed s))) (to_bytes (typed s)) d1"
    and d1: "dev_ok d1" "contents d1 = contents d @ [to_bytes (typed s)]"
    by (auto simp: spec_write_def calm_def to_bytes_def split: m2m_outcome.splits)
  have "fgets 1023 (typed s @ rest) = (typed s, rest)"
    using fgets_line [of s 1023 rest] assms(2) by (simp add: typed_def line_ok_def)
  with w d1 t(3) show ?thesis by (simp add: writer_round_def strlen_line [OF t(1)] Let_def)
qed

lemma reader_gets:
  assumes "dev_ok d" and "contents d = to_bytes s # q" and "NUL \<notin> set s" and "length s < 1024"
  shows "\<exists>d1. reader_round calm f d = Some (Some s, s = ''quit'', d1) \<and> dev_ok d1 \<and> contents d1 = q"
proof -
  have "length (replicate 1024 (0 :: 8 word)) = unat (1024 :: size_t)" by simp
  from read_spec [OF assms(1) this, of calm f] assms(2,4) obtain r d1 where
    r: "m2m_read calm f 1024 (replicate 1024 0) d = Return r (to_bytes s @ replicate (1024 - length s) 0) d1"
    and d1: "dev_ok d1" "contents d1 = q"
    by (auto simp: spec_read_def calm_def split: m2m_outcome.splits)
  have "cstring (to_bytes s @ replicate (1024 - length s) 0) = Some s" using assms(3,4) by (intro cstring_line) auto
  with r d1 show ?thesis by (simp add: reader_round_def)
qed

lemma writer_loop_puts:
  "dev_ok d \<Longrightarrow> \<forall>s \<in> set ls. line_ok s \<Longrightarrow> queue_bytes (contents d) + length (concat (map typed ls)) \<le> 65536 \<Longrightarrow>
   \<exists>b d1. writer_loop (replicate (length ls) calm) f buffer (concat (map typed ls) @ rest) d = Some (b, rest, d1) \<and>
     dev_ok d1 \<and> contents d1 = contents d @ map (to_bytes \<circ> typed) ls"
proof (induction ls arbitrary: d buffer)
  case (Cons s ls)
  have s: "line_ok s" "\<forall>s \<in> set ls. line_ok s" using Cons.prems(2) by simp_all
  have "queue_bytes (contents d) + length (typed s) \<le> 65536" using Cons.prems(3) by simp
  from writer_puts [OF Cons.prems(1) s(1) this, of f buffer "concat (map typed ls) @ rest"] obtain d1 where
    d1: "writer_round calm f buffer (typed s @ concat (map typed ls) @ rest) d =
      (typed s, concat (map typed ls) @ rest, Return (int (length (typed s))) (to_bytes (typed s)) d1)"
      "dev_ok d1" "contents d1 = contents d @ [to_bytes (typed s)]"
    by blast
  have "queue_bytes (contents d1) + length (concat (map typed ls)) \<le> 65536"
    using Cons.prems(3) d1(3) by (simp add: queue_bytes_def)
  from Cons.IH [OF d1(2) s(2) this, of "typed s"] d1(1,3) show ?case by auto
qed simp

lemma reader_loop_gets:
  "dev_ok d \<Longrightarrow> \<forall>s \<in> set ls. line_ok s \<Longrightarrow> contents d = map (to_bytes \<circ> typed) ls @ q \<Longrightarrow>
   \<exists>d1. reader_loop (replicate (length ls) calm) f d = Some (map (Some \<circ> typed) ls, False, d1) \<and> dev_ok d1 \<and> contents d1 = q"
proof (induction ls arbitrary: d)
  case (Cons s ls)
  have s: "line_ok s" "\<forall>s \<in> set ls. line_ok s" using Cons.prems(2) by simp_all
  note t = typed_facts [OF s(1)]
  have "contents d = to_bytes (typed s) # (map (to_bytes \<circ> typed) ls @ q)" using Cons.prems(3) by simp
  from reader_gets [OF Cons.prems(1) this t(1,2), of f] t(4) obtain d1 where
    d1: "reader_round calm f d = Some (Some (typed s), False, d1)" "dev_ok d1" "contents d1 = map (to_bytes \<circ> typed) ls @ q"
    by auto
  from Cons.IH [OF d1(2) s(2) d1(3)] d1(1) show ?case by auto
qed simp

section \<open>Properties\<close>

text \<open>C40. Typed lines. Lines of at most 1022 characters, 65536 bytes in all with their newlines, that are typed into the writing program
  are accepted by the empty device, and the reading program prints them in their order, each with its newline, and goes on: no line
  ends the reader, \<open>quit\<close> neither, since the newline is part of the message. The device is empty again.\<close>

theorem chat_lines:
  assumes "dev_ok d" and "contents d = []" and "\<forall>s \<in> set ls. line_ok s" and "length (concat (map typed ls)) \<le> 65536"
  shows "\<exists>b d1 d2. writer_main True (replicate (length ls) calm) f buffer (concat (map typed ls) @ rest) d = Inr (Some (b, rest, d1)) \<and>
    reader_main True (replicate (length ls) calm) g d1 = Some (map (Some \<circ> typed) ls, False, d2) \<and> contents d2 = []"
proof -
  have "queue_bytes (contents d) + length (concat (map typed ls)) \<le> 65536" using assms(2,4) by (simp add: queue_bytes_def)
  from writer_loop_puts [OF assms(1,3) this, of f buffer rest] obtain b d1 where
    d1: "writer_loop (replicate (length ls) calm) f buffer (concat (map typed ls) @ rest) d = Some (b, rest, d1)"
      "dev_ok d1" "contents d1 = map (to_bytes \<circ> typed) ls @ []"
    using assms(2) by auto
  from reader_loop_gets [OF d1(2) assms(3) d1(3), of g] d1(1) show ?thesis
    by (auto simp: writer_main_def reader_main_def)
qed

theorem chat_lines_witness:
  "\<exists>b d1 d2. writer_main True (replicate (length [''hi'', ''quit'']) calm) \<lparr>f_nonblock = False, private_data = None\<rparr> []
      (concat (map typed [''hi'', ''quit'']) @ []) m2m_chardev_zero = Inr (Some (b, [], d1)) \<and>
    reader_main True (replicate (length [''hi'', ''quit'']) calm) \<lparr>f_nonblock = False, private_data = None\<rparr> d1 =
      Some (map (Some \<circ> typed) [''hi'', ''quit''], False, d2) \<and> contents d2 = []"
  by (rule chat_lines) (simp_all add: dev_ok_def contents_def m2m_chardev_zero_def line_ok_def typed_def NEWLINE_def NUL_def)

text \<open>A message \<open>quit\<close> without a newline, which \<open>write.c\<close> sends only at the end of its input, does end the reader.\<close>

lemma reader_quits:
  assumes "dev_ok d" and "contents d = to_bytes ''quit'' # q"
  shows "\<exists>d1. reader_loop (calm # envs) f d = Some ([Some ''quit''], True, d1) \<and> contents d1 = q"
  using reader_gets [OF assms, of f] by (auto simp: NUL_def)

text \<open>A message of 1024 bytes or more without a 0 leaves the reader without a string: \<open>num\<close> has no room for the 0 that ends it.\<close>

lemma reader_overrun:
  assumes "dev_ok d" and "contents d = [b]" and "1024 \<le> length b" and "0 \<notin> set b"
  shows "\<exists>d1. reader_round calm f d = Some (None, False, d1)"
proof -
  have "length (replicate 1024 (0 :: 8 word)) = unat (1024 :: size_t)" by simp
  from read_spec [OF assms(1) this, of calm f] assms(2,3) obtain r d1 where
    r: "m2m_read calm f 1024 (replicate 1024 0) d = Return r (take 1024 b) d1"
    by (auto simp: spec_read_def calm_def split: m2m_outcome.splits)
  have "0 \<notin> set (take 1024 b)" using assms(4) by (meson in_set_takeD)
  with r show ?thesis by (simp add: reader_round_def cstring_def)
qed

end
