(* ===== verification/Globalvar.thy ===== *)
theory Globalvar
  imports M2m_Dev
begin

text \<open>
  The ring buffer device of \<^verbatim>\<open>src/3lab/dev/globalvar.c\<close>: \<open>MAXNUM\<close> bytes between a read and a write
  pointer, a semaphore and a flag that wakes a blocked reader. The pointers are offsets into
  \<open>buffer\<close>. A call runs alone: the semaphore is 1 whenever no call is in progress. The types of words, bytes
  and of the kernel's decisions are those of \<open>M2m_Dev\<close>.
\<close>

section \<open>Data\<close>

definition MAXNUM :: nat where "MAXNUM = 100"

text \<open>\<open>ready\<close> tells that the pointers have been set; they are NULL in the fresh module.\<close>

record scull_dev =
  gsem :: nat
  flag :: int
  gbuffer :: bytes
  ready :: bool
  rd :: nat
  wr :: nat
  gend :: nat
  gregion :: bool
  gcdev :: bool
  gclass :: bool
  module_refs :: nat

text \<open>What the kernel decides in a call: the outcome of the wait for the flag, of
  \<open>down_interruptible\<close> and of the copy.\<close>

record gv_env =
  wait_signal :: bool
  down_signal :: bool
  gcopy_left :: nat

datatype gv_outcome = GReturn int bytes scull_dev | GSleeping scull_dev

section \<open>Operations\<close>

definition globalvar_zero :: scull_dev where
  "globalvar_zero = \<lparr>gsem = 0, flag = 0, gbuffer = replicate (MAXNUM + 1) 0, ready = False, rd = 0, wr = 0, gend = 0,
     gregion = False, gcdev = False, gclass = False, module_refs = 0\<rparr>"

text \<open>\<open>result\<close> and \<open>err\<close> are what the registration of the number and \<open>cdev_add\<close> return.\<close>

definition globalvar_init :: "int \<Rightarrow> int \<Rightarrow> scull_dev \<Rightarrow> int \<times> scull_dev" where
  "globalvar_init result err d =
     (if result < 0 then (result, d)
      else let d1 = d\<lparr>gregion := True\<rparr>;
               d2 = (if err \<noteq> 0 then d1
                     else d1\<lparr>gcdev := True, gsem := 1, ready := True, rd := 0, wr := 0, gend := MAXNUM, flag := 0\<rparr>)
      in (0, d2\<lparr>gclass := True\<rparr>))"

definition globalvar_open :: "scull_dev \<Rightarrow> int \<times> scull_dev" where
  "globalvar_open d = (0, d\<lparr>module_refs := module_refs d + 1\<rparr>)"

definition globalvar_release :: "scull_dev \<Rightarrow> int \<times> scull_dev" where
  "globalvar_release d = (0, d\<lparr>module_refs := module_refs d - 1\<rparr>)"

definition globalvar_exit :: "scull_dev \<Rightarrow> scull_dev" where
  "globalvar_exit d = d\<lparr>gclass := False, gcdev := False, gregion := False\<rparr>"

definition up :: "scull_dev \<Rightarrow> scull_dev" where
  "up d = d\<lparr>gsem := gsem d + 1\<rparr>"

definition down :: "scull_dev \<Rightarrow> scull_dev" where
  "down d = d\<lparr>gsem := gsem d - 1\<rparr>"

text \<open>How many bytes a call may move: up to the other pointer or the end of the buffer.\<close>

definition read_len :: "size_t \<Rightarrow> scull_dev \<Rightarrow> size_t" where
  "read_len len d = (if rd d < wr d then min len (of_nat (wr d - rd d)) else min len (of_nat (gend d - rd d)))"

definition write_len :: "size_t \<Rightarrow> scull_dev \<Rightarrow> size_t" where
  "write_len len d = (if rd d \<le> wr d then min len (of_nat (gend d - wr d)) else min len (of_nat (rd d - wr d - 1)))"

text \<open>What the two calls do between \<open>down\<close> and \<open>up\<close>, but for the flag: the number of bytes moved or \<open>-EFAULT\<close>, the reader's buffer, the device.\<close>

definition read_body :: "gv_env \<Rightarrow> size_t \<Rightarrow> bytes \<Rightarrow> scull_dev \<Rightarrow> int \<times> bytes \<times> scull_dev" where
  "read_body env len0 buf d =
     (let len = read_len len0 d;
          buf1 = copy_to_user (unat len) (gcopy_left env) (drop (rd d) (gbuffer d)) buf
      in if gcopy_left env \<noteq> 0 then (- EFAULT, buf1, d)
         else let d1 = d\<lparr>rd := rd d + unat len\<rparr>
              in (uint len, buf1, if rd d1 = gend d1 then d1\<lparr>rd := 0\<rparr> else d1))"

definition globalvar_read :: "gv_env \<Rightarrow> size_t \<Rightarrow> bytes \<Rightarrow> scull_dev \<Rightarrow> gv_outcome" where
  "globalvar_read env len0 buf d =
     (if flag d = 0 then (if wait_signal env then GReturn (- ERESTARTSYS) buf d else GSleeping d)
      else if gsem d = 0 then (if down_signal env then GReturn (- ERESTARTSYS) buf d else GSleeping d)
      else let (r, buf1, d1) = read_body env len0 buf ((down d)\<lparr>flag := 0\<rparr>) in GReturn r buf1 (up d1))"

text \<open>\<open>copy_from_user\<close> into the ring: a copy of \<open>n\<close> bytes to offset \<open>at\<close> that leaves out \<open>left\<close> of them.\<close>

definition copy_into :: "nat \<Rightarrow> nat \<Rightarrow> nat \<Rightarrow> bytes \<Rightarrow> bytes \<Rightarrow> bytes" where
  "copy_into at n left data ring =
     take at ring @ take (n - left) data @ drop (at + (n - left)) ring"

definition write_body :: "gv_env \<Rightarrow> size_t \<Rightarrow> bytes \<Rightarrow> scull_dev \<Rightarrow> int \<times> scull_dev" where
  "write_body env len0 data d =
     (let len = write_len len0 d;
          d1 = d\<lparr>gbuffer := copy_into (wr d) (unat len) (gcopy_left env) data (gbuffer d)\<rparr>
      in if gcopy_left env \<noteq> 0 then (- EFAULT, d1)
         else let d2 = d1\<lparr>wr := wr d1 + unat len\<rparr>
              in (uint len, if wr d2 = gend d2 then d2\<lparr>wr := 0\<rparr> else d2))"

text \<open>A write that fails neither sets the flag nor wakes a reader.\<close>

definition globalvar_write :: "gv_env \<Rightarrow> size_t \<Rightarrow> bytes \<Rightarrow> scull_dev \<Rightarrow> gv_outcome" where
  "globalvar_write env len0 data d =
     (if gsem d = 0 then (if down_signal env then GReturn (- ERESTARTSYS) data d else GSleeping d)
      else let (r, d1) = write_body env len0 data (down d) in
        GReturn r data (if r < 0 then up d1 else (up d1)\<lparr>flag := 1\<rparr>))"

section \<open>Invariant and abstraction\<close>

definition ring_inv :: "scull_dev \<Rightarrow> bool" where
  "ring_inv d \<longleftrightarrow> ready d \<and> gsem d = 1 \<and> length (gbuffer d) = MAXNUM + 1 \<and> gend d = MAXNUM \<and> rd d < MAXNUM \<and> wr d < MAXNUM"

text \<open>The part of it that holds during a call as well.\<close>

definition ring_geom :: "scull_dev \<Rightarrow> bool" where
  "ring_geom d \<longleftrightarrow> ready d \<and> length (gbuffer d) = MAXNUM + 1 \<and> gend d = MAXNUM \<and> rd d < MAXNUM \<and> wr d < MAXNUM"

lemma ring_inv_geom: "ring_inv d \<longleftrightarrow> ring_geom d \<and> gsem d = 1"
  by (auto simp: ring_inv_def ring_geom_def)

lemma ring_geom_frame [simp]:
  "ring_geom (d\<lparr>gsem := x\<rparr>) = ring_geom d" "ring_geom (d\<lparr>flag := y\<rparr>) = ring_geom d" "ring_geom (d\<lparr>module_refs := z\<rparr>) = ring_geom d"
  by (simp_all add: ring_geom_def)

text \<open>The unread bytes.\<close>

definition unread :: "scull_dev \<Rightarrow> bytes" where
  "unread d =
     (if rd d \<le> wr d then take (wr d - rd d) (drop (rd d) (gbuffer d))
      else take (gend d - rd d) (drop (rd d) (gbuffer d)) @ take (wr d) (gbuffer d))"

text \<open>The number of bytes a read can deliver and a write can take at once: up to the other pointer or the end
  of the buffer.\<close>

definition readable :: "scull_dev \<Rightarrow> nat" where
  "readable d = (if rd d < wr d then wr d - rd d else MAXNUM - rd d)"

definition writable :: "scull_dev \<Rightarrow> nat" where
  "writable d = (if rd d \<le> wr d then MAXNUM - wr d else rd d - wr d - 1)"

lemma readable_le: "ring_geom d \<Longrightarrow> readable d \<le> MAXNUM" "ring_geom d \<Longrightarrow> rd d + readable d \<le> MAXNUM"
  by (auto simp: readable_def ring_geom_def)

lemma writable_le: "ring_geom d \<Longrightarrow> writable d \<le> MAXNUM" "ring_geom d \<Longrightarrow> wr d + writable d \<le> MAXNUM"
  by (auto simp: writable_def ring_geom_def)

lemma unat_min_of_nat:
  assumes "k \<le> MAXNUM"
  shows "unat (min n (of_nat k :: size_t)) = min (unat n) k"
proof -
  have "unat (of_nat k :: size_t) = k"
    using assms by (simp add: unat_of_nat MAXNUM_def)
  then show ?thesis by (simp add: min_def word_le_nat_alt)
qed

lemma unat_read_len:
  assumes "ring_geom d"
  shows "unat (read_len n d) = min (unat n) (readable d)"
proof -
  have "read_len n d = min n (of_nat (readable d))"
    using assms unfolding read_len_def readable_def ring_geom_def by presburger
  then show ?thesis using unat_min_of_nat [OF readable_le(1) [OF assms]] by simp
qed

lemma unat_write_len:
  assumes "ring_geom d"
  shows "unat (write_len n d) = min (unat n) (writable d)"
proof -
  have "write_len n d = min n (of_nat (writable d))"
    using assms unfolding write_len_def writable_def ring_geom_def by presburger
  then show ?thesis using unat_min_of_nat [OF writable_le(1) [OF assms]] by simp
qed

lemma len_frame [simp]:
  "read_len n (d\<lparr>gsem := x, flag := y\<rparr>) = read_len n d" "write_len n (d\<lparr>gsem := x\<rparr>) = write_len n d"
  by (simp_all add: read_len_def write_len_def)

lemma length_copy_into: "at + n \<le> length ring \<Longrightarrow> n \<le> length data \<Longrightarrow> length (copy_into at n left data ring) = length ring"
  by (simp add: copy_into_def)

text \<open>What the two calls return when nothing interrupts them and no copy fails.\<close>

definition gv_calm :: gv_env where
  "gv_calm = \<lparr>wait_signal = False, down_signal = False, gcopy_left = 0\<rparr>"

lemma EFAULT_pos: "0 < EFAULT"
  by (simp add: EFAULT_def)

text \<open>No outcome of a copy takes the pointers out of the buffer.\<close>

lemma read_body_geom:
  assumes "ring_geom d" and "read_body env len buf d = (r, buf', d')"
  shows "ring_geom d'" and "gsem d' = gsem d" and "flag d' = flag d"
proof -
  have "rd d + unat (read_len len d) \<le> MAXNUM"
    using unat_read_len [OF assms(1), of len] readable_le(2) [OF assms(1)] by simp
  with assms show "ring_geom d'" and "gsem d' = gsem d" and "flag d' = flag d"
    by (auto simp: read_body_def Let_def ring_geom_def split: if_splits)
qed

lemma write_body_geom:
  assumes "ring_geom d" and "length data = unat len" and "write_body env len data d = (r, d')"
  shows "ring_geom d'" and "gsem d' = gsem d" and "flag d' = flag d"
proof -
  let ?n = "unat (write_len len d)"
  have n: "wr d + ?n \<le> MAXNUM" "?n \<le> length data"
    using unat_write_len [OF assms(1), of len] writable_le(2) [OF assms(1)] assms(2) by simp_all
  then have "length (copy_into (wr d) ?n left data (gbuffer d)) = MAXNUM + 1" for left
    using assms(1) by (simp add: length_copy_into ring_geom_def)
  with n(1) assms(1,3) show "ring_geom d'" and "gsem d' = gsem d" and "flag d' = flag d"
    by (auto simp: write_body_def Let_def ring_geom_def split: if_splits)
qed

lemma read_result:
  assumes inv: "ring_inv d" and "flag d \<noteq> 0" and n: "n = min (unat len) (readable d)"
  shows "globalvar_read gv_calm len buf d =
    GReturn (int n) (take n (drop (rd d) (gbuffer d)) @ drop n buf)
      (d\<lparr>gsem := 1, flag := 0, rd := (if rd d + n = MAXNUM then 0 else rd d + n)\<rparr>)"
proof -
  have u: "unat (read_len len d) = n" using unat_read_len [of d] inv n by (simp add: ring_inv_geom)
  then have "uint (read_len len d) = int n" by (simp flip: u)
  with u assms(1,2) show ?thesis
    by (simp add: globalvar_read_def read_body_def gv_calm_def copy_to_user_def Let_def up_def down_def ring_inv_def)
qed

lemma write_result:
  assumes inv: "ring_inv d" and n: "n = min (unat len) (writable d)"
  shows "globalvar_write gv_calm len data d =
    GReturn (int n) data
      (d\<lparr>gsem := 1, gbuffer := copy_into (wr d) n 0 data (gbuffer d), wr := (if wr d + n = MAXNUM then 0 else wr d + n), flag := 1\<rparr>)"
proof -
  have u: "unat (write_len len d) = n" using unat_write_len [of d] inv n by (simp add: ring_inv_geom)
  then have "uint (write_len len d) = int n" by (simp flip: u)
  with u assms(1) show ?thesis
    by (simp add: globalvar_write_def write_body_def gv_calm_def Let_def up_def down_def ring_inv_def)
qed

end
