(* ===== verification/Globalvar_Props.thy ===== *)
theory Globalvar_Props
  imports Globalvar
begin

text \<open>
  The properties of the ring buffer device of \<^verbatim>\<open>src/3lab/dev/globalvar.c\<close>: no call leaves
  the buffer, in which states the calls append to and take from a stream of bytes, and what
  happens in the others.
\<close>

section \<open>Every call keeps the pointers in range\<close>

text \<open>One call with any outcome of the waits and copies and a buffer as long as it says.\<close>

inductive gv_trans :: "scull_dev \<Rightarrow> scull_dev \<Rightarrow> bool" where
  gv_read: "length buf = unat len \<Longrightarrow> globalvar_read env len buf d = GReturn r buf' d' \<Longrightarrow> gv_trans d d'"
| gv_write: "length data = unat len \<Longrightarrow> globalvar_write env len data d = GReturn r data' d' \<Longrightarrow> gv_trans d d'"
| gv_open: "globalvar_open d = (r, d') \<Longrightarrow> gv_trans d d'"
| gv_release: "globalvar_release d = (r, d') \<Longrightarrow> gv_trans d d'"

inductive_cases gv_transE: "gv_trans d d'"

definition fresh :: scull_dev where
  "fresh = snd (globalvar_init 0 0 globalvar_zero)"

lemma ring_inv_fresh: "ring_inv fresh"
  by (simp add: fresh_def globalvar_init_def ring_inv_def globalvar_zero_def MAXNUM_def Let_def)

lemma fresh_simps [simp]: "rd fresh = 0" "wr fresh = 0" "flag fresh = 0" "gbuffer fresh = replicate 101 0"
  by (simp_all add: fresh_def globalvar_init_def globalvar_zero_def MAXNUM_def Let_def)

lemma read_keeps:
  assumes "ring_inv d" and "globalvar_read env len buf d = GReturn r buf' d'"
  shows "ring_inv d'"
proof -
  obtain r1 buf1 d1 where b: "read_body env len buf ((down d)\<lparr>flag := 0\<rparr>) = (r1, buf1, d1)" by (metis prod_cases3)
  with read_body_geom [OF _ b] assms show ?thesis
    by (auto simp: globalvar_read_def ring_inv_geom up_def down_def split: if_splits)
qed

lemma write_keeps:
  assumes "ring_inv d" and "length data = unat len" and "globalvar_write env len data d = GReturn r data' d'"
  shows "ring_inv d'"
proof -
  obtain r1 d1 where b: "write_body env len data (down d) = (r1, d1)" by (metis surj_pair)
  with write_body_geom [OF _ assms(2) b] assms(1,3) show ?thesis
    by (auto simp: globalvar_write_def ring_inv_geom up_def down_def split: if_splits)
qed

lemma open_keeps:
  "ring_inv d \<Longrightarrow> globalvar_open d = (r, d') \<Longrightarrow> ring_inv d'" "ring_inv d \<Longrightarrow> globalvar_release d = (r, d') \<Longrightarrow> ring_inv d'"
  by (auto simp: globalvar_open_def globalvar_release_def ring_inv_def)

interpretation ring: step_invariant "\<lambda>d. d = fresh" gv_trans ring_inv
proof unfold_locales
  show "ring_inv d" if "d = fresh" for d using that ring_inv_fresh by simp
  show "ring_inv d'" if "ring_inv d" "gv_trans d d'" for d d'
    using that(2,1)
    by (cases rule: gv_trans.cases) (auto intro: read_keeps write_keeps open_keeps)
qed

section \<open>The stream of unread bytes\<close>

lemma take_two: "length xs = k \<Longrightarrow> n \<le> length ys \<Longrightarrow> take (k + n) (xs @ take n ys @ zs) = xs @ take n ys"
  by simp

lemma unread_write:
  assumes inv: "ring_inv d" and n: "n \<le> writable d" "n \<le> length data" and wrap: "0 < rd d \<or> wr d + n < MAXNUM"
    and d': "rd d' = rd d" "gend d' = gend d" "gbuffer d' = copy_into (wr d) n 0 data (gbuffer d)"
      "wr d' = (if wr d + n = MAXNUM then 0 else wr d + n)"
  shows "unread d' = unread d @ take n data"
proof (cases "rd d \<le> wr d")
  case True
  with n inv have fit: "wr d + n \<le> MAXNUM" by (auto simp: writable_def ring_inv_def)
  have b: "drop (rd d) (gbuffer d') = take (wr d - rd d) (drop (rd d) (gbuffer d)) @ take n data @ drop (wr d + n) (gbuffer d)"
    using True inv n by (simp add: d' copy_into_def drop_take ring_inv_def)
  have x: "length (take (wr d - rd d) (drop (rd d) (gbuffer d))) = wr d - rd d"
    using inv True by (auto simp: ring_inv_def min_def)
  have two: "take ((wr d - rd d) + n) (drop (rd d) (gbuffer d')) = unread d @ take n data"
    unfolding b take_two [OF x n(2)] using True by (simp add: unread_def)
  show ?thesis
  proof (cases "wr d + n = MAXNUM")
    case wrapped: True
    with wrap have "\<not> rd d \<le> wr d'" "gend d' - rd d = (wr d - rd d) + n" using d' inv True by (auto simp: ring_inv_def)
    with two wrapped d'(1,4) show ?thesis by (simp add: unread_def [of d'])
  next
    case False
    then have "rd d \<le> wr d'" "wr d' - rd d = (wr d - rd d) + n" using d' True by auto
    with two d'(1) show ?thesis by (simp add: unread_def [of d'])
  qed
next
  case False
  with n inv have "wr d + n < rd d" by (auto simp: writable_def ring_inv_def)
  with False inv n d' show ?thesis
    by (simp add: unread_def ring_inv_def copy_into_def)
qed

lemma unread_first:
  assumes "ring_inv d" and "rd d \<noteq> wr d" and "n \<le> readable d"
  shows "take n (drop (rd d) (gbuffer d)) = take n (unread d)"
  using assms by (auto simp: unread_def readable_def ring_inv_def min_def)

lemma unread_read:
  assumes "ring_inv d" and "rd d \<noteq> wr d" and "n \<le> readable d"
    and "rd d' = (if rd d + n = MAXNUM then 0 else rd d + n)" "gend d' = gend d" "gbuffer d' = gbuffer d" "wr d' = wr d"
  shows "unread d' = drop n (unread d)"
  using assms
  by (cases "rd d < wr d") (auto simp: unread_def readable_def ring_inv_def drop_take add.commute)

section \<open>Properties\<close>

text \<open>Bounds. In every state that calls lead to, whatever waits are interrupted and copies fail, the pointers lie
  inside the buffer, the semaphore is free again, and the bytes a read or a write moves lie between its
  pointer and the end of the buffer.\<close>

lemma ring_bounds:
  assumes "gv_trans\<^sup>*\<^sup>* fresh d"
  shows "rd d < MAXNUM \<and> wr d < MAXNUM \<and> gsem d = 1 \<and> length (gbuffer d) = MAXNUM + 1 \<and>
    rd d + unat (read_len len d) \<le> MAXNUM \<and> wr d + unat (write_len len d) \<le> MAXNUM"
proof -
  have "ring_inv d" by (rule ring.inv_reachable [OF refl assms])
  then have inv: "ring_geom d" "gsem d = 1" by (simp_all add: ring_inv_geom)
  then show ?thesis
    using unat_read_len [OF inv(1), of len] unat_write_len [OF inv(1), of len] readable_le(2) [OF inv(1)] writable_le(2) [OF inv(1)]
    unfolding ring_geom_def by (auto simp: min_def)
qed

text \<open>C8. Stream. Unless the read pointer is at the start of the buffer and the write reaches its end, a write appends the
  bytes it accepts to the unread ones. A read that finds the pointers apart delivers the first unread bytes, as many as
  asked for up to the wrap, and these leave the stream. Both return the number of bytes moved.\<close>

theorem ring_stream:
  assumes "ring_inv d"
  shows "(length data = unat len \<longrightarrow> n = min (unat len) (writable d) \<longrightarrow> \<not> (rd d = 0 \<and> wr d + n = MAXNUM) \<longrightarrow>
      (\<exists>d'. globalvar_write gv_calm len data d = GReturn (int n) data d' \<and> unread d' = unread d @ take n data \<and> flag d' = 1)) \<and>
    (flag d \<noteq> 0 \<longrightarrow> rd d \<noteq> wr d \<longrightarrow> k = min (unat len) (readable d) \<longrightarrow>
      (\<exists>d'. globalvar_read gv_calm len buf d = GReturn (int k) (take k (unread d) @ drop k buf) d' \<and>
         unread d' = drop k (unread d) \<and> flag d' = 0))"
proof (intro conjI impI)
  assume len: "length data = unat len" and n: "n = min (unat len) (writable d)" and wrap: "\<not> (rd d = 0 \<and> wr d + n = MAXNUM)"
  have "wr d + n \<le> MAXNUM" using n writable_le(2) [of d] assms by (simp add: ring_inv_geom)
  with unread_write [OF assms, of n data] wrap n len write_result [OF assms n, of data]
  show "\<exists>d'. globalvar_write gv_calm len data d = GReturn (int n) data d' \<and> unread d' = unread d @ take n data \<and> flag d' = 1"
    by auto
next
  assume "flag d \<noteq> 0" "rd d \<noteq> wr d" and k: "k = min (unat len) (readable d)"
  with unread_read [OF assms, of k] unread_first [OF assms, of k] read_result [OF assms _ k, of buf]
  show "\<exists>d'. globalvar_read gv_calm len buf d = GReturn (int k) (take k (unread d) @ drop k buf) d' \<and>
         unread d' = drop k (unread d) \<and> flag d' = 0"
    by auto
qed

theorem ring_stream_witness:
  "\<exists>d. globalvar_write gv_calm 2 [7, 8] fresh = GReturn 2 [7, 8] d \<and> unread d = [7, 8]"
  using ring_stream [OF ring_inv_fresh, of "[7, 8]" 2 2]
  by (auto simp: writable_def MAXNUM_def unread_def)

text \<open>C33. Four faults of the device. A full buffer looks empty: after 100 bytes a further byte overwrites the first one and the
  reader gets only that byte. A read clears the flag even when bytes remain, and the next read sleeps. A write of no
  bytes wakes a reader, which gets 100 bytes that nobody wrote. Loading reports success when \<open>cdev_add\<close> failed and
  the device was never set up.\<close>

theorem ring_flaws:
  "(\<exists>d1 d2 d3 buf. globalvar_write gv_calm 100 (replicate 100 7) fresh = GReturn 100 (replicate 100 7) d1 \<and>
      globalvar_write gv_calm 1 [9] d1 = GReturn 1 [9] d2 \<and>
      globalvar_read gv_calm 100 (replicate 100 0) d2 = GReturn 1 buf d3 \<and> take 1 buf = [9] \<and> unread d3 = []) \<and>
   (\<exists>d1 d2. globalvar_write gv_calm 2 [7, 8] fresh = GReturn 2 [7, 8] d1 \<and>
      globalvar_read gv_calm 1 [0] d1 = GReturn 1 [7] d2 \<and> unread d2 = [8] \<and>
      globalvar_read gv_calm 1 [0] d2 = GSleeping d2) \<and>
   (\<exists>d1 d2 buf. globalvar_write gv_calm 0 [] fresh = GReturn 0 [] d1 \<and>
      globalvar_read gv_calm 100 (replicate 100 1) d1 = GReturn 100 buf d2 \<and> buf = replicate 100 0) \<and>
   fst (globalvar_init 0 (- 12) globalvar_zero) = 0 \<and> \<not> ready (snd (globalvar_init 0 (- 12) globalvar_zero))"
proof (intro conjI)
  show "\<exists>d1 d2 d3 buf. globalvar_write gv_calm 100 (replicate 100 7) fresh = GReturn 100 (replicate 100 7) d1 \<and>
      globalvar_write gv_calm 1 [9] d1 = GReturn 1 [9] d2 \<and>
      globalvar_read gv_calm 100 (replicate 100 0) d2 = GReturn 1 buf d3 \<and> take 1 buf = [9] \<and> unread d3 = []"
  proof -
    obtain d1 where d1: "globalvar_write gv_calm 100 (replicate 100 7) fresh = GReturn 100 (replicate 100 7) d1"
      "rd d1 = 0" "wr d1 = 0" "gbuffer d1 = copy_into 0 100 0 (replicate 100 7) (replicate 101 0)"
      using write_result [OF ring_inv_fresh, of 100 100 "replicate 100 7"] by (simp add: writable_def MAXNUM_def)
    have i1: "ring_inv d1" by (rule write_keeps [OF ring_inv_fresh _ d1(1)]) simp
    obtain d2 where d2: "globalvar_write gv_calm 1 [9] d1 = GReturn 1 [9] d2" "rd d2 = 0" "wr d2 = 1" "flag d2 = 1"
      "gbuffer d2 = copy_into 0 1 0 [9] (gbuffer d1)"
      using write_result [OF i1, of 1 1 "[9]"] d1 by (simp add: writable_def MAXNUM_def)
    have i2: "ring_inv d2" by (rule write_keeps [OF i1 _ d2(1)]) simp
    show ?thesis
      using read_result [OF i2, of 1 100 "replicate 100 0"] d1 d2
      by (auto simp: readable_def MAXNUM_def copy_into_def unread_def)
  qed
  show "\<exists>d1 d2. globalvar_write gv_calm 2 [7, 8] fresh = GReturn 2 [7, 8] d1 \<and>
      globalvar_read gv_calm 1 [0] d1 = GReturn 1 [7] d2 \<and> unread d2 = [8] \<and> globalvar_read gv_calm 1 [0] d2 = GSleeping d2"
  proof -
    obtain d1 where d1: "globalvar_write gv_calm 2 [7, 8] fresh = GReturn 2 [7, 8] d1" "rd d1 = 0" "wr d1 = 2" "flag d1 = 1"
      "gbuffer d1 = copy_into 0 2 0 [7, 8] (replicate 101 0)"
      using write_result [OF ring_inv_fresh, of 2 2 "[7, 8]"] by (simp add: writable_def MAXNUM_def)
    have i1: "ring_inv d1" by (rule write_keeps [OF ring_inv_fresh _ d1(1)]) simp
    show ?thesis
      using read_result [OF i1, of 1 1 "[0]"] d1
      by (auto simp: readable_def MAXNUM_def copy_into_def unread_def globalvar_read_def [of _ _ _ "d1\<lparr>gsem := x, flag := 0, rd := y\<rparr>" for x y] gv_calm_def)
  qed
  show "\<exists>d1 d2 buf. globalvar_write gv_calm 0 [] fresh = GReturn 0 [] d1 \<and>
      globalvar_read gv_calm 100 (replicate 100 1) d1 = GReturn 100 buf d2 \<and> buf = replicate 100 0"
  proof -
    obtain d1 where d1: "globalvar_write gv_calm 0 [] fresh = GReturn 0 [] d1" "rd d1 = 0" "wr d1 = 0" "flag d1 = 1"
      "gbuffer d1 = replicate 101 0"
      using write_result [OF ring_inv_fresh, of 0 0 "[]"] by (simp add: writable_def MAXNUM_def copy_into_def)
    have i1: "ring_inv d1" by (rule write_keeps [OF ring_inv_fresh _ d1(1)]) simp
    show ?thesis
      using read_result [OF i1, of 100 100 "replicate 100 1"] d1 by (simp add: readable_def MAXNUM_def)
  qed
qed (simp_all add: globalvar_init_def globalvar_zero_def)

end
