(* ===== verification/Globalvar_Conc.thy ===== *)
theory Globalvar_Conc
  imports Globalvar_Props
begin

text \<open>
  The ring buffer device of \<^verbatim>\<open>src/3lab/dev/globalvar.c\<close> under concurrent calls. Every thread runs one call at a time; a step is one
  thread testing the flag, taking or releasing the semaphore, doing the body of the critical section, writing the flag or waking the
  readers. Only \<open>flag\<close> is touched outside the semaphore, so the body is one step and the flag has steps of its own.
  A thread in \<open>GR_sleep\<close> is in \<open>wait_event_interruptible\<close>; a wake-up or a signal takes it out of there.
\<close>

section \<open>Threads\<close>

datatype gv_pc =
    GIdle
  | GR_wait | GR_sleep | GR_down | GR_clear | GR_copy | GR_up int
  | GW_down | GW_copy | GW_up int | GW_flag int | GW_wake int

record gv_thread =
  gpc :: gv_pc
  glen :: size_t
  gbuf :: bytes
  gresult :: int

record gv_sys =
  gdev :: scull_dev
  gthreads :: "gv_thread list"

definition ggoto :: "gv_pc \<Rightarrow> nat \<Rightarrow> gv_sys \<Rightarrow> gv_sys" where
  "ggoto p t s = s\<lparr>gthreads := (gthreads s)[t := (gthreads s ! t)\<lparr>gpc := p\<rparr>]\<rparr>"

definition gfinish :: "int \<Rightarrow> nat \<Rightarrow> gv_sys \<Rightarrow> gv_sys" where
  "gfinish r t s = s\<lparr>gthreads := (gthreads s)[t := (gthreads s ! t)\<lparr>gpc := GIdle, gresult := r\<rparr>]\<rparr>"

definition wake_outq :: "gv_sys \<Rightarrow> gv_sys" where
  "wake_outq s = s\<lparr>gthreads := map (\<lambda>th. if gpc th = GR_sleep then th\<lparr>gpc := GR_wait\<rparr> else th) (gthreads s)\<rparr>"

text \<open>\<open>down_interruptible\<close>: takes the semaphore when it can, otherwise waits or is interrupted.\<close>

definition gdown :: "gv_env \<Rightarrow> gv_pc \<Rightarrow> nat \<Rightarrow> gv_sys \<Rightarrow> gv_sys option" where
  "gdown env p t s =
     (if 0 < gsem (gdev s) then Some (ggoto p t (s\<lparr>gdev := down (gdev s)\<rparr>))
      else if down_signal env then Some (gfinish (- ERESTARTSYS) t s)
      else None)"

section \<open>Steps\<close>

definition gread_step :: "gv_env \<Rightarrow> nat \<Rightarrow> gv_sys \<Rightarrow> gv_sys option" where
  "gread_step env t s =
     (let th = gthreads s ! t in
      case gpc th of
        GR_wait \<Rightarrow>
          Some (if flag (gdev s) \<noteq> 0 then ggoto GR_down t s
                else if wait_signal env then gfinish (- ERESTARTSYS) t s
                else ggoto GR_sleep t s)
      | GR_sleep \<Rightarrow> if wait_signal env then Some (ggoto GR_wait t s) else None
      | GR_down \<Rightarrow> gdown env GR_clear t s
      | GR_clear \<Rightarrow> Some (ggoto GR_copy t (s\<lparr>gdev := (gdev s)\<lparr>flag := 0\<rparr>\<rparr>))
      | GR_copy \<Rightarrow>
          (case read_body env (glen th) (gbuf th) (gdev s) of
             (r, buf1, d1) \<Rightarrow> Some (s\<lparr>gdev := d1, gthreads := (gthreads s)[t := th\<lparr>gpc := GR_up r, gbuf := buf1\<rparr>]\<rparr>))
      | GR_up r \<Rightarrow> Some (gfinish r t (s\<lparr>gdev := up (gdev s)\<rparr>))
      | _ \<Rightarrow> None)"

definition gwrite_step :: "gv_env \<Rightarrow> nat \<Rightarrow> gv_sys \<Rightarrow> gv_sys option" where
  "gwrite_step env t s =
     (let th = gthreads s ! t in
      case gpc th of
        GW_down \<Rightarrow> gdown env GW_copy t s
      | GW_copy \<Rightarrow>
          (case write_body env (glen th) (gbuf th) (gdev s) of
             (r, d1) \<Rightarrow> Some (ggoto (GW_up r) t (s\<lparr>gdev := d1\<rparr>)))
      | GW_up r \<Rightarrow>
          let s1 = s\<lparr>gdev := up (gdev s)\<rparr> in
          Some (if r < 0 then gfinish r t s1 else ggoto (GW_flag r) t s1)
      | GW_flag r \<Rightarrow> Some (ggoto (GW_wake r) t (s\<lparr>gdev := (gdev s)\<lparr>flag := 1\<rparr>\<rparr>))
      | GW_wake r \<Rightarrow> Some (gfinish r t (wake_outq s))
      | _ \<Rightarrow> None)"

text \<open>A thread outside a call may start one; the buffer it passes is as long as it says.\<close>

datatype gv_action = GRead bytes | GWrite bytes | GRun gv_env

definition is_write_pc :: "gv_pc \<Rightarrow> bool" where
  "is_write_pc p = (case p of GW_down \<Rightarrow> True | GW_copy \<Rightarrow> True | GW_up r \<Rightarrow> True | GW_flag r \<Rightarrow> True | GW_wake r \<Rightarrow> True | _ \<Rightarrow> False)"

definition gv_step :: "gv_action \<Rightarrow> nat \<Rightarrow> gv_sys \<Rightarrow> gv_sys option" where
  "gv_step a t s =
     (if \<not> t < length (gthreads s) then None
      else let th = gthreads s ! t in
      case a of
        GRead buf \<Rightarrow>
          if gpc th = GIdle \<and> int (length buf) < 2 ^ 64
          then Some (s\<lparr>gthreads := (gthreads s)[t := th\<lparr>gpc := GR_wait, glen := of_nat (length buf), gbuf := buf\<rparr>]\<rparr>) else None
      | GWrite buf \<Rightarrow>
          if gpc th = GIdle \<and> int (length buf) < 2 ^ 64
          then Some (s\<lparr>gthreads := (gthreads s)[t := th\<lparr>gpc := GW_down, glen := of_nat (length buf), gbuf := buf\<rparr>]\<rparr>) else None
      | GRun env \<Rightarrow> if is_write_pc (gpc th) then gwrite_step env t s else gread_step env t s)"

definition gv_start :: "nat \<Rightarrow> gv_sys" where
  "gv_start n = \<lparr>gdev = fresh, gthreads = replicate n \<lparr>gpc = GIdle, glen = 0, gbuf = [], gresult = 0\<rparr>\<rparr>"

inductive gv_sys_trans :: "gv_sys \<Rightarrow> gv_sys \<Rightarrow> bool" where
  gv_sys_trans: "gv_step a t s = Some s' \<Longrightarrow> gv_sys_trans s s'"

inductive_cases gv_sys_transE: "gv_sys_trans s s'"

fun gv_exec :: "(gv_action \<times> nat) list \<Rightarrow> gv_sys \<Rightarrow> gv_sys option" where
  "gv_exec [] s = Some s"
| "gv_exec ((a, t) # as) s = (case gv_step a t s of None \<Rightarrow> None | Some s' \<Rightarrow> gv_exec as s')"

lemma gv_exec_reach: "gv_exec as s = Some s' \<Longrightarrow> gv_sys_trans\<^sup>*\<^sup>* s s'"
proof (induction as s rule: gv_exec.induct)
  case (2 a t as s)
  then obtain s1 where "gv_step a t s = Some s1" "gv_exec as s1 = Some s'" by (auto split: option.splits)
  with 2 show ?case by (meson converse_rtranclp_into_rtranclp gv_sys_trans)
qed simp

section \<open>The invariant\<close>

fun gcrit :: "gv_pc \<Rightarrow> bool" where
  "gcrit GR_clear = True"
| "gcrit GR_copy = True"
| "gcrit (GR_up r) = True"
| "gcrit GW_copy = True"
| "gcrit (GW_up r) = True"
| "gcrit p = False"

definition gholders :: "gv_thread list \<Rightarrow> nat set" where
  "gholders ths = {t. t < length ths \<and> gcrit (gpc (ths ! t))}"

text \<open>Bounds of the pointers; the semaphore counts the threads in a critical section; a writer's buffer is as long as it says; a
  reader sleeps while the flag is set only when a writer is about to wake it.\<close>

definition buf_ok :: "gv_thread \<Rightarrow> bool" where
  "buf_ok th \<longleftrightarrow> is_write_pc (gpc th) \<longrightarrow> length (gbuf th) = unat (glen th)"

definition no_lost_wake :: "gv_sys \<Rightarrow> bool" where
  "no_lost_wake s \<longleftrightarrow> flag (gdev s) = 0 \<or> (\<forall>th \<in> set (gthreads s). gpc th \<noteq> GR_sleep) \<or> (\<exists>th \<in> set (gthreads s). \<exists>r. gpc th = GW_wake r)"

definition gv_inv :: "gv_sys \<Rightarrow> bool" where
  "gv_inv s \<longleftrightarrow> ring_geom (gdev s) \<and> gsem (gdev s) + card (gholders (gthreads s)) = 1 \<and>
     (\<forall>th \<in> set (gthreads s). buf_ok th) \<and> no_lost_wake s"

lemma finite_gholders [simp]: "finite (gholders ths)"
  by (simp add: gholders_def)

lemma gholders_mem: "t < length ths \<Longrightarrow> t \<in> gholders ths \<longleftrightarrow> gcrit (gpc (ths ! t))"
  by (simp add: gholders_def)

lemma gholders_update:
  "t < length ths \<Longrightarrow> gholders (ths[t := th]) = (if gcrit (gpc th) then insert t (gholders ths) else gholders ths - {t})"
  by (auto simp: gholders_def nth_list_update split: if_splits)

lemma card_gholders:
  assumes "t < length ths"
  shows "card (gholders (ths[t := th])) + (if gcrit (gpc (ths ! t)) then 1 else 0) = card (gholders ths) + (if gcrit (gpc th) then 1 else 0)"
proof (cases "gcrit (gpc (ths ! t))")
  case True
  then have "t \<in> gholders ths" using assms by (simp add: gholders_mem)
  then show ?thesis using True assms card_Suc_Diff1 [of "gholders ths" t] by (auto simp: gholders_update insert_absorb)
next
  case False
  then have "t \<notin> gholders ths" using assms by (simp add: gholders_mem)
  then show ?thesis using False assms by (simp add: gholders_update)
qed

definition woken :: "gv_thread \<Rightarrow> gv_thread" where
  "woken th = (if gpc th = GR_sleep then th\<lparr>gpc := GR_wait\<rparr> else th)"

lemma wake_outq_woken: "gthreads (wake_outq s) = map woken (gthreads s)" "gdev (wake_outq s) = gdev s"
  by (simp_all add: wake_outq_def woken_def)

lemma gholders_woken: "gholders (map woken ths) = gholders ths"
  by (auto simp: gholders_def woken_def split: if_splits)

lemma woken_simps: "buf_ok (woken th) = buf_ok th" "gpc (woken th) \<noteq> GR_sleep" "gbuf (woken th) = gbuf th" "glen (woken th) = glen th"
  by (auto simp: buf_ok_def woken_def is_write_pc_def)

text \<open>A step that changes one thread: what it has to keep.\<close>

lemma gv_inv_update:
  assumes inv: "gv_inv s" and t: "t < length (gthreads s)" and th: "gthreads s' = (gthreads s)[t := th]"
    and geom: "ring_geom (gdev s')" and buf: "buf_ok th"
    and sem: "gsem (gdev s') + (if gcrit (gpc th) then 1 else 0) = gsem (gdev s) + (if gcrit (gpc (gthreads s ! t)) then 1 else 0)"
    and wake: "flag (gdev s') = 0 \<or> (\<exists>r. gpc th = GW_wake r) \<or>
      flag (gdev s') = flag (gdev s) \<and> gpc th \<noteq> GR_sleep \<and> (\<forall>r. gpc (gthreads s ! t) \<noteq> GW_wake r)"
  shows "gv_inv s'"
proof -
  have "gsem (gdev s') + card (gholders (gthreads s')) = 1"
    using card_gholders [OF t, of th] sem inv th by (auto simp: gv_inv_def split: if_splits)
  moreover have "\<forall>x \<in> set (gthreads s'). buf_ok x"
    using inv buf th set_update_subset_insert [of "gthreads s" t th] by (auto simp: gv_inv_def)
  moreover have "no_lost_wake s'"
  proof (cases "flag (gdev s') = 0 \<or> (\<exists>r. gpc th = GW_wake r)")
    case True
    then show ?thesis using th t set_update_memI [of t "gthreads s" th] by (auto simp: no_lost_wake_def)
  next
    case False
    with wake have w: "flag (gdev s') = flag (gdev s)" "gpc th \<noteq> GR_sleep" "\<forall>r. gpc (gthreads s ! t) \<noteq> GW_wake r" by auto
    have "no_lost_wake s" using inv by (simp add: gv_inv_def)
    then consider "flag (gdev s) = 0" | "\<forall>x \<in> set (gthreads s). gpc x \<noteq> GR_sleep"
      | u r where "u < length (gthreads s)" "gpc (gthreads s ! u) = GW_wake r"
      by (auto simp: no_lost_wake_def in_set_conv_nth)
    then show ?thesis
    proof cases
      case 2
      with w(2) th set_update_subset_insert [of "gthreads s" t th] show ?thesis by (auto simp: no_lost_wake_def)
    next
      case 3
      then have "u \<noteq> t" using w(3) by auto
      then have "gthreads s' ! u = gthreads s ! u" "u < length (gthreads s')" using 3(1) th by simp_all
      with 3(2) have "\<exists>x \<in> set (gthreads s'). \<exists>r. gpc x = GW_wake r" by (metis nth_mem)
      then show ?thesis by (simp add: no_lost_wake_def)
    qed (use w(1) in \<open>simp add: no_lost_wake_def\<close>)
  qed
  ultimately show ?thesis using geom by (simp add: gv_inv_def)
qed

lemmas gv_defs = ggoto_def gfinish_def gdown_def up_def down_def

lemma gdown_inv:
  assumes inv: "gv_inv s" and t: "t < length (gthreads s)" and pc: "gpc (gthreads s ! t) \<in> {GR_down, GW_down}"
    and p: "gcrit p" "is_write_pc p \<longrightarrow> gpc (gthreads s ! t) = GW_down" and step: "gdown env p t s = Some s'"
  shows "gv_inv s'"
proof -
  have b: "buf_ok (gthreads s ! t)" and g: "ring_geom (gdev s)" using inv t by (auto simp: gv_inv_def)
  have "p \<noteq> GR_sleep" using p(1) by auto
  show ?thesis
  proof (cases "0 < gsem (gdev s)")
    case True
    then have "s' = ggoto p t (s\<lparr>gdev := down (gdev s)\<rparr>)" using step by (simp add: gdown_def)
    with inv t pc p b g True \<open>p \<noteq> GR_sleep\<close> show ?thesis
      by (intro gv_inv_update [OF inv t, where th = "(gthreads s ! t)\<lparr>gpc := p\<rparr>"])
        (auto simp: gv_defs buf_ok_def is_write_pc_def)
  next
    case False
    then have "s' = gfinish (- ERESTARTSYS) t s" using step by (simp add: gdown_def split: if_splits)
    with inv t pc g show ?thesis
      by (intro gv_inv_update [OF inv t, where th = "(gthreads s ! t)\<lparr>gpc := GIdle, gresult := - ERESTARTSYS\<rparr>"])
        (auto simp: gv_defs buf_ok_def is_write_pc_def)
  qed
qed

lemma gread_inv:
  assumes inv: "gv_inv s" and t: "t < length (gthreads s)" and step: "gread_step env t s = Some s'"
  shows "gv_inv s'"
proof -
  note upd = gv_inv_update [OF inv t]
  have g: "ring_geom (gdev s)" using inv by (simp add: gv_inv_def)
  show ?thesis
  proof (cases "gpc (gthreads s ! t)")
    case GR_wait
    have "s' = (if flag (gdev s) \<noteq> 0 then ggoto GR_down t s else if wait_signal env then gfinish (- ERESTARTSYS) t s else ggoto GR_sleep t s)"
      using step GR_wait by (simp add: gread_step_def)
    then obtain th where "gdev s' = gdev s" "gthreads s' = (gthreads s)[t := th]"
      "gpc th \<in> {GR_down, GIdle} \<or> gpc th = GR_sleep \<and> flag (gdev s) = 0"
      by (auto simp: gv_defs split: if_splits)
    with GR_wait g show ?thesis by (intro upd [of s' th]) (auto simp: buf_ok_def is_write_pc_def)
  next
    case GR_sleep
    with step g show ?thesis
      by (intro upd [where th = "(gthreads s ! t)\<lparr>gpc := GR_wait\<rparr>"])
        (auto simp: gread_step_def gv_defs buf_ok_def is_write_pc_def split: if_splits)
  next
    case GR_down
    with step gdown_inv [OF inv t, of GR_clear] show ?thesis by (auto simp: gread_step_def is_write_pc_def)
  next
    case GR_clear
    with step g show ?thesis
      by (intro upd [where th = "(gthreads s ! t)\<lparr>gpc := GR_copy\<rparr>"])
        (auto simp: gread_step_def gv_defs buf_ok_def is_write_pc_def)
  next
    case GR_copy
    obtain r buf1 d1 where b: "read_body env (glen (gthreads s ! t)) (gbuf (gthreads s ! t)) (gdev s) = (r, buf1, d1)" by (metis prod_cases3)
    note geom = read_body_geom [OF g b]
    from step GR_copy b have "s' = s\<lparr>gdev := d1, gthreads := (gthreads s)[t := (gthreads s ! t)\<lparr>gpc := GR_up r, gbuf := buf1\<rparr>]\<rparr>"
      by (simp add: gread_step_def)
    with GR_copy geom show ?thesis
      by (intro upd [where th = "(gthreads s ! t)\<lparr>gpc := GR_up r, gbuf := buf1\<rparr>"]) (auto simp: buf_ok_def is_write_pc_def)
  next
    case (GR_up r)
    with step g show ?thesis
      by (intro upd [where th = "(gthreads s ! t)\<lparr>gpc := GIdle, gresult := r\<rparr>"])
        (auto simp: gread_step_def gv_defs buf_ok_def is_write_pc_def)
  qed (use step in \<open>simp_all add: gread_step_def\<close>)
qed

lemma gwake_inv:
  assumes inv: "gv_inv s" and t: "t < length (gthreads s)" and pc: "gpc (gthreads s ! t) = GW_wake r"
  shows "gv_inv (gfinish r t (wake_outq s))"
proof -
  let ?ths = "map woken (gthreads s)" and ?th = "(woken (gthreads s ! t))\<lparr>gpc := GIdle, gresult := r\<rparr>"
  have ths: "gthreads (gfinish r t (wake_outq s)) = ?ths[t := ?th]" "gdev (gfinish r t (wake_outq s)) = gdev s"
    using t by (simp_all add: gfinish_def wake_outq_woken)
  have "gpc (woken (gthreads s ! t)) = GW_wake r" using pc by (simp add: woken_def)
  then have "card (gholders (?ths[t := ?th])) = card (gholders (gthreads s))"
    using card_gholders [of t ?ths ?th] t by (simp add: gholders_woken)
  moreover have "\<forall>x \<in> set (?ths[t := ?th]). buf_ok x \<and> gpc x \<noteq> GR_sleep"
  proof
    fix x assume "x \<in> set (?ths[t := ?th])"
    then have "x = ?th \<or> x \<in> woken ` set (gthreads s)" using set_update_subset_insert [of ?ths t ?th] by auto
    then show "buf_ok x \<and> gpc x \<noteq> GR_sleep" using inv by (auto simp: gv_inv_def woken_simps) (simp add: buf_ok_def is_write_pc_def)
  qed
  ultimately show ?thesis using inv ths by (simp add: gv_inv_def no_lost_wake_def)
qed

lemma gwrite_inv:
  assumes inv: "gv_inv s" and t: "t < length (gthreads s)" and step: "gwrite_step env t s = Some s'"
  shows "gv_inv s'"
proof -
  note upd = gv_inv_update [OF inv t]
  have g: "ring_geom (gdev s)" and b: "buf_ok (gthreads s ! t)" using inv t by (simp_all add: gv_inv_def)
  show ?thesis
  proof (cases "gpc (gthreads s ! t)")
    case GW_down
    with step gdown_inv [OF inv t, of GW_copy] show ?thesis by (auto simp: gwrite_step_def is_write_pc_def)
  next
    case GW_copy
    then have len: "length (gbuf (gthreads s ! t)) = unat (glen (gthreads s ! t))" using b by (simp add: buf_ok_def is_write_pc_def)
    obtain r d1 where w: "write_body env (glen (gthreads s ! t)) (gbuf (gthreads s ! t)) (gdev s) = (r, d1)" by (metis surj_pair)
    note geom = write_body_geom [OF g len w]
    from step GW_copy w have "s' = ggoto (GW_up r) t (s\<lparr>gdev := d1\<rparr>)" by (simp add: gwrite_step_def)
    with GW_copy geom len show ?thesis
      by (intro upd [where th = "(gthreads s ! t)\<lparr>gpc := GW_up r\<rparr>"]) (auto simp: gv_defs buf_ok_def)
  next
    case (GW_up r)
    then obtain th where "gdev s' = up (gdev s)" "gthreads s' = (gthreads s)[t := th]" "gpc th \<in> {GIdle, GW_flag r}"
      "gbuf th = gbuf (gthreads s ! t)" "glen th = glen (gthreads s ! t)"
      using step by (auto simp: gwrite_step_def gv_defs Let_def split: if_splits)
    with GW_up g b show ?thesis by (intro upd [of s' th]) (auto simp: buf_ok_def is_write_pc_def up_def)
  next
    case (GW_flag r)
    with step g b show ?thesis
      by (intro upd [where th = "(gthreads s ! t)\<lparr>gpc := GW_wake r\<rparr>"])
        (auto simp: gwrite_step_def gv_defs buf_ok_def is_write_pc_def)
  next
    case (GW_wake r)
    with step gwake_inv [OF inv t] show ?thesis by (auto simp: gwrite_step_def)
  qed (use step in \<open>simp_all add: gwrite_step_def\<close>)
qed

lemma gv_inv_step:
  assumes inv: "gv_inv s" and step: "gv_step a t s = Some s'"
  shows "gv_inv s'"
proof -
  have t: "t < length (gthreads s)" using step by (simp add: gv_step_def split: if_splits)
  show ?thesis
  proof (cases a)
    case (GRun env)
    with step t gread_inv [OF inv t] gwrite_inv [OF inv t] show ?thesis by (auto simp: gv_step_def split: if_splits)
  next
    case (GRead buf)
    let ?th = "(gthreads s ! t)\<lparr>gpc := GR_wait, glen := of_nat (length buf), gbuf := buf\<rparr>"
    have s': "s' = s\<lparr>gthreads := (gthreads s)[t := ?th]\<rparr>" "gpc (gthreads s ! t) = GIdle" "length buf < 2 ^ 64"
      using step GRead t by (simp_all add: gv_step_def Let_def split: if_splits)
    with inv show ?thesis
      by (intro gv_inv_update [OF inv t, where th = ?th]) (auto simp: gv_inv_def buf_ok_def is_write_pc_def)
  next
    case (GWrite buf)
    let ?th = "(gthreads s ! t)\<lparr>gpc := GW_down, glen := of_nat (length buf), gbuf := buf\<rparr>"
    have s': "s' = s\<lparr>gthreads := (gthreads s)[t := ?th]\<rparr>" "gpc (gthreads s ! t) = GIdle" "length buf < 2 ^ 64"
      using step GWrite t by (simp_all add: gv_step_def Let_def split: if_splits)
    with inv show ?thesis
      by (intro gv_inv_update [OF inv t, where th = ?th]) (auto simp: gv_inv_def buf_ok_def is_write_pc_def unat_of_nat)
  qed
qed

lemma gv_inv_start: "gv_inv (gv_start n)"
proof -
  have "gholders (gthreads (gv_start n)) = {}" by (auto simp: gholders_def gv_start_def)
  then show ?thesis
    using ring_inv_fresh by (auto simp: gv_inv_def gv_start_def ring_inv_geom buf_ok_def is_write_pc_def no_lost_wake_def)
qed

interpretation ring_conc: step_invariant "\<lambda>s. \<exists>n. s = gv_start n" gv_sys_trans gv_inv
  by unfold_locales (auto intro: gv_inv_start gv_inv_step elim!: gv_sys_transE)

section \<open>A call that runs alone\<close>

text \<open>Thread \<open>t\<close> has come back from its call with result \<open>r\<close> and buffer \<open>buf\<close>.\<close>

definition gcame_back :: "nat \<Rightarrow> int \<Rightarrow> bytes \<Rightarrow> scull_dev \<Rightarrow> gv_sys \<Rightarrow> bool" where
  "gcame_back t r buf d s \<longleftrightarrow> gdev s = d \<and> gpc (gthreads s ! t) = GIdle \<and> gresult (gthreads s ! t) = r \<and> gbuf (gthreads s ! t) = buf"

lemmas gv_alone_simps = gv_step_def gread_step_def gwrite_step_def is_write_pc_def gv_defs Let_def wake_outq_def

lemma gread_alone:
  assumes "t < length (gthreads s)" "gpc (gthreads s ! t) = GR_wait"
    and "globalvar_read env (glen (gthreads s ! t)) (gbuf (gthreads s ! t)) (gdev s) = GReturn r buf d"
  shows "\<exists>k s'. gv_exec (replicate k (GRun env, t)) s = Some s' \<and> gcame_back t r buf d s'"
  using assms
  by (intro exI [of _ "if flag (gdev s) = 0 then 1 else if gsem (gdev s) = 0 then 2 else 5"])
    (auto simp: gcame_back_def globalvar_read_def gv_alone_simps numeral_eq_Suc split: if_splits prod.splits)

lemma gwrite_alone:
  assumes "t < length (gthreads s)" "gpc (gthreads s ! t) = GW_down"
    and "globalvar_write env (glen (gthreads s ! t)) (gbuf (gthreads s ! t)) (gdev s) = GReturn r buf d"
  shows "\<exists>k s'. gv_exec (replicate k (GRun env, t)) s = Some s' \<and> gcame_back t r buf d s'"
  using assms
  by (intro exI [of _ "if gsem (gdev s) = 0 then 1
      else if fst (write_body env (glen (gthreads s ! t)) (gbuf (gthreads s ! t)) (down (gdev s))) < 0 then 3 else 5"])
    (auto simp: gcame_back_def globalvar_write_def gv_alone_simps numeral_eq_Suc split: if_splits prod.splits)

section \<open>Two readers\<close>

text \<open>One byte is written while two readers wait; both see the flag before the first of them takes the byte.\<close>

definition two_readers :: "(gv_action \<times> nat) list" where
  "two_readers = [(GWrite [7], 2)] @ replicate 5 (GRun gv_calm, 2) @ [(GRead [1, 1, 1], 0), (GRead [1, 1, 1], 1), (GRun gv_calm, 0), (GRun gv_calm, 1)] @
     replicate 4 (GRun gv_calm, 0) @ replicate 4 (GRun gv_calm, 1)"

definition read_results :: "gv_sys \<Rightarrow> (int \<times> bytes) list" where
  "read_results s = map (\<lambda>th. (gresult th, gbuf th)) (gthreads s)"

text \<open>The calls an execution makes, without the steps in between.\<close>

definition calls_made :: "(gv_action \<times> nat) list \<Rightarrow> (gv_action \<times> nat) list" where
  "calls_made as = filter (\<lambda>(a, t). case a of GRun env \<Rightarrow> False | _ \<Rightarrow> True) as"

text \<open>The same calls, each with all the steps it can do before the next one starts.\<close>

definition one_by_one :: "(gv_action \<times> nat) list" where
  "one_by_one = [(GWrite [7], 2)] @ replicate 5 (GRun gv_calm, 2) @ [(GRead [1, 1, 1], 0)] @ replicate 5 (GRun gv_calm, 0) @
     [(GRead [1, 1, 1], 1), (GRun gv_calm, 1)]"

lemma one_by_one_result:
  "map_option (\<lambda>s. (read_results s, map gpc (gthreads s))) (gv_exec one_by_one (gv_start 3)) =
     Some ([(1, [7, 1, 1]), (0, [1, 1, 1]), (1, [7])], [GIdle, GR_sleep, GIdle])"
  by code_simp

lemma two_readers_result:
  "map_option (\<lambda>s. (read_results s, map gpc (gthreads s))) (gv_exec two_readers (gv_start 3)) =
     Some ([(1, [7, 1, 1]), (3, [0, 0, 0]), (1, [7])], [GIdle, GIdle, GIdle])"
  by code_simp

section \<open>Properties\<close>

lemma gv_stuck:
  assumes inv: "gv_inv s" and stuck: "\<forall>t. gv_step (GRun gv_calm) t s = None" and th: "th \<in> set (gthreads s)"
  shows "gsem (gdev s) = 1 \<and> (gpc th = GIdle \<or> gpc th = GR_sleep \<and> flag (gdev s) = 0)"
proof -
  have pc: "gpc (gthreads s ! t) \<in> {GIdle, GR_sleep, GR_down, GW_down}" if "t < length (gthreads s)" for t
    using stuck [rule_format, of t] that
    by (cases "gpc (gthreads s ! t)") (auto simp: gv_step_def gread_step_def gwrite_step_def is_write_pc_def Let_def split: prod.splits)
  then have "gholders (gthreads s) = {}" by (fastforce simp: gholders_def)
  then have sem: "gsem (gdev s) = 1" using inv by (simp add: gv_inv_def)
  have pc2: "gpc (gthreads s ! t) \<in> {GIdle, GR_sleep}" if "t < length (gthreads s)" for t
    using stuck [rule_format, of t] that pc [OF that] sem
    by (auto simp: gv_step_def gread_step_def gwrite_step_def gdown_def is_write_pc_def Let_def)
  have "no_lost_wake s" using inv by (simp add: gv_inv_def)
  then have "flag (gdev s) = 0 \<or> (\<forall>th \<in> set (gthreads s). gpc th \<noteq> GR_sleep)"
    using pc2 by (fastforce simp: no_lost_wake_def in_set_conv_nth)
  moreover have "gpc th \<in> {GIdle, GR_sleep}" using th pc2 by (auto simp: in_set_conv_nth)
  ultimately show ?thesis using sem th by auto
qed

text \<open>C9. The ring buffer under concurrent calls. In every interleaving, whatever waits are interrupted and copies fail, at most one
  thread is between \<open>down\<close> and \<open>up\<close>, the pointers lie inside the buffer and the bytes a read or a write moves lie between its
  pointer and the end of the buffer. When no thread can go on without a signal the semaphore is free and every thread is between two calls or a
  reader asleep with the flag at 0: no deadlock and no lost wake-up.\<close>

theorem ring_conc_safe:
  assumes "gv_sys_trans\<^sup>*\<^sup>* (gv_start n) s"
  shows "card (gholders (gthreads s)) \<le> 1 \<and> rd (gdev s) < MAXNUM \<and> wr (gdev s) < MAXNUM \<and> length (gbuffer (gdev s)) = MAXNUM + 1 \<and>
    rd (gdev s) + unat (read_len len (gdev s)) \<le> MAXNUM \<and> wr (gdev s) + unat (write_len len (gdev s)) \<le> MAXNUM \<and>
    ((\<forall>t. gv_step (GRun gv_calm) t s = None) \<longrightarrow>
      (\<forall>th \<in> set (gthreads s). gsem (gdev s) = 1 \<and> (gpc th = GIdle \<or> gpc th = GR_sleep \<and> flag (gdev s) = 0)))"
proof -
  have inv: "gv_inv s" by (rule ring_conc.inv_reachable [OF _ assms]) blast
  then have g: "ring_geom (gdev s)" and "card (gholders (gthreads s)) \<le> 1" by (auto simp: gv_inv_def)
  moreover have "rd (gdev s) + unat (read_len len (gdev s)) \<le> MAXNUM" "wr (gdev s) + unat (write_len len (gdev s)) \<le> MAXNUM"
    using unat_read_len [OF g, of len] unat_write_len [OF g, of len] readable_le(2) [OF g] writable_le(2) [OF g] by auto
  ultimately show ?thesis using gv_stuck [OF inv] by (auto simp: ring_geom_def)
qed

theorem ring_conc_safe_witness:
  "\<exists>s. gv_exec two_readers (gv_start 3) = Some s \<and> wr (gdev s) + unat (write_len 500 (gdev s)) \<le> MAXNUM"
proof -
  obtain s where s: "gv_exec two_readers (gv_start 3) = Some s" using two_readers_result by (cases "gv_exec two_readers (gv_start 3)") auto
  from ring_conc_safe [OF gv_exec_reach [OF s], of 500] s show ?thesis by blast
qed

text \<open>C34. The flag is tested before the semaphore is taken. From the loaded device there is an execution that makes three calls only: a write of the
  byte 7, and one read of up to three bytes by each of two readers. Both readers see the flag before the first of them takes
  the byte; the second one finds the pointers equal and returns three bytes 0, though the only byte ever written is 7.
  With the same three calls one after the other, the first reader gets the byte and the second one sleeps, its buffer
  untouched.\<close>

theorem ring_reader_race:
  "(\<exists>as s. gv_exec as (gv_start 3) = Some s \<and>
      calls_made as = [(GWrite [7], 2), (GRead [1, 1, 1], 0), (GRead [1, 1, 1], 1)] \<and>
      map gpc (gthreads s) = [GIdle, GIdle, GIdle] \<and>
      read_results s = [(1, [7, 1, 1]), (3, [0, 0, 0]), (1, [7])]) \<and>
   (\<exists>s. gv_exec one_by_one (gv_start 3) = Some s \<and> calls_made one_by_one = calls_made two_readers \<and>
      map gpc (gthreads s) = [GIdle, GR_sleep, GIdle] \<and> flag (gdev s) = 0 \<and>
      read_results s = [(1, [7, 1, 1]), (0, [1, 1, 1]), (1, [7])])"
proof
  obtain s where "gv_exec two_readers (gv_start 3) = Some s" "map gpc (gthreads s) = [GIdle, GIdle, GIdle]"
    "read_results s = [(1, [7, 1, 1]), (3, [0, 0, 0]), (1, [7])]"
    using two_readers_result by (cases "gv_exec two_readers (gv_start 3)") auto
  moreover have "calls_made two_readers = [(GWrite [7], 2), (GRead [1, 1, 1], 0), (GRead [1, 1, 1], 1)]"
    by (simp add: calls_made_def two_readers_def)
  ultimately show "\<exists>as s. gv_exec as (gv_start 3) = Some s \<and>
      calls_made as = [(GWrite [7], 2), (GRead [1, 1, 1], 0), (GRead [1, 1, 1], 1)] \<and>
      map gpc (gthreads s) = [GIdle, GIdle, GIdle] \<and>
      read_results s = [(1, [7, 1, 1]), (3, [0, 0, 0]), (1, [7])]"
    by (intro exI [of _ two_readers] exI [of _ s]) simp
next
  obtain s where s: "gv_exec one_by_one (gv_start 3) = Some s" "map gpc (gthreads s) = [GIdle, GR_sleep, GIdle]"
    "read_results s = [(1, [7, 1, 1]), (0, [1, 1, 1]), (1, [7])]"
    using one_by_one_result by (cases "gv_exec one_by_one (gv_start 3)") auto
  moreover have "calls_made one_by_one = calls_made two_readers"
    by (simp add: calls_made_def one_by_one_def two_readers_def)
  moreover have "map_option (\<lambda>s. flag (gdev s)) (gv_exec one_by_one (gv_start 3)) = Some 0" by code_simp
  ultimately show "\<exists>s. gv_exec one_by_one (gv_start 3) = Some s \<and> calls_made one_by_one = calls_made two_readers \<and>
      map gpc (gthreads s) = [GIdle, GR_sleep, GIdle] \<and> flag (gdev s) = 0 \<and>
      read_results s = [(1, [7, 1, 1]), (0, [1, 1, 1]), (1, [7])]" by auto
qed

end
