(* ===== verification/Threads.thy ===== *)
theory Threads
  imports OS_Prelude
begin

text \<open>
  The programs of the first lab in which two threads count: without a lock
  (\<^verbatim>\<open>src/1lab/2/2-1.c\<close>), with a semaphore (\<^verbatim>\<open>src/1lab/2/2-2.c\<close>) and with a spinlock
  (\<^verbatim>\<open>src/1lab/3/3-1.c\<close>). The increment of the shared counter is a load and a store, and any
  thread may run between the two.

  The interface \<open>mutex_lock\<close> says what the two locked programs need of their lock; its lemmas are proved
  once and hold for the semaphore and for the spinlock.
\<close>

section \<open>No lock\<close>

definition RACE_N :: nat where "RACE_N = 100000"

text \<open>A thread at the head of its loop after \<open>i\<close> rounds, or between load and store.\<close>

datatype race_pc = At nat | Loaded nat int

record race_sys =
  rcounter :: int
  rthreads :: "race_pc list"

definition race_step :: "nat \<Rightarrow> nat \<Rightarrow> race_sys \<Rightarrow> race_sys option" where
  "race_step N t s =
     (if \<not> t < length (rthreads s) then None
      else case rthreads s ! t of
        At i \<Rightarrow> if i < N then Some (s\<lparr>rthreads := (rthreads s)[t := Loaded i (rcounter s)]\<rparr>) else None
      | Loaded i v \<Rightarrow> Some (s\<lparr>rcounter := v + 1, rthreads := (rthreads s)[t := At (Suc i)]\<rparr>))"

text \<open>\<open>main\<close> starts two workers and joins them: it prints the counter when both have finished. A worker that cannot be created
  ends the process with status 1, the other worker included.\<close>

definition race_start :: race_sys where
  "race_start = \<lparr>rcounter = 0, rthreads = [At 0, At 0]\<rparr>"

definition race_main :: "bool \<Rightarrow> bool \<Rightarrow> int + race_sys" where
  "race_main created1 created2 = (if \<not> created1 then Inl 1 else if \<not> created2 then Inl 1 else Inr race_start)"

definition race_joined :: "nat \<Rightarrow> race_sys \<Rightarrow> bool" where
  "race_joined N s \<longleftrightarrow> rthreads s = [At N, At N]"

inductive race_trans :: "nat \<Rightarrow> race_sys \<Rightarrow> race_sys \<Rightarrow> bool" for N where
  race_trans: "race_step N t s = Some s' \<Longrightarrow> race_trans N s s'"

inductive_cases race_transE: "race_trans N s s'"

section \<open>A worker with a lock\<close>

text \<open>Both locked workers are the same loop: take the lock, add one, give the lock back. \<open>Dead\<close> is a worker
  that left its loop by \<open>pthread_exit\<close>, with or without the lock.\<close>

datatype worker_pc = Head | Acquire | Load | Store int | Unlock | Finished | Dead bool

record worker =
  wpc :: worker_pc
  rounds :: nat

record 'l counter_sys =
  lk :: 'l
  shared :: int
  workers :: "worker list"

definition move :: "worker_pc \<Rightarrow> nat \<Rightarrow> 'l counter_sys \<Rightarrow> 'l counter_sys" where
  "move p t s = s\<lparr>workers := (workers s)[t := (workers s ! t)\<lparr>wpc := p\<rparr>]\<rparr>"

text \<open>\<open>None\<close>: the worker has ended, or it waits for the lock. The flag tells that the call on the lock
  failed, which only the semaphore can.\<close>

definition worker_step :: "('l \<Rightarrow> 'l option) \<Rightarrow> ('l \<Rightarrow> 'l) \<Rightarrow> nat \<Rightarrow> bool \<Rightarrow> nat \<Rightarrow> 'l counter_sys \<Rightarrow> 'l counter_sys option" where
  "worker_step acq rel N failed t s =
     (if \<not> t < length (workers s) then None
      else let w = workers s ! t in
      case wpc w of
        Head \<Rightarrow> Some (move (if rounds w < N then Acquire else Finished) t s)
      | Acquire \<Rightarrow>
          if failed then Some (move (Dead False) t s)
          else (case acq (lk s) of None \<Rightarrow> None | Some l \<Rightarrow> Some (move Load t (s\<lparr>lk := l\<rparr>)))
      | Load \<Rightarrow> Some (move (Store (shared s)) t s)
      | Store v \<Rightarrow> Some (move Unlock t (s\<lparr>shared := v + 1\<rparr>))
      | Unlock \<Rightarrow>
          if failed then Some (move (Dead True) t s)
          else Some (s\<lparr>lk := rel (lk s), workers := (workers s)[t := \<lparr>wpc = Head, rounds = Suc (rounds w)\<rparr>]\<rparr>)
      | Finished \<Rightarrow> None
      | Dead b \<Rightarrow> None)"

definition two_workers :: "'l \<Rightarrow> 'l counter_sys" where
  "two_workers l = \<lparr>lk = l, shared = 0, workers = [\<lparr>wpc = Head, rounds = 0\<rparr>, \<lparr>wpc = Head, rounds = 0\<rparr>]\<rparr>"

definition all_finished :: "'l counter_sys \<Rightarrow> bool" where
  "all_finished s \<longleftrightarrow> (\<forall>w \<in> set (workers s). wpc w = Finished)"

section \<open>The two locks\<close>

definition SEM_N :: nat where "SEM_N = 100"

text \<open>A semaphore: \<open>sem_wait\<close> takes one off the value when it is positive and waits otherwise.\<close>

definition sem_init :: nat where "sem_init = 1"

definition sem_wait :: "nat \<Rightarrow> nat option" where
  "sem_wait v = (if 0 < v then Some (v - 1) else None)"

definition sem_post :: "nat \<Rightarrow> nat" where
  "sem_post v = v + 1"

definition sem_worker :: "bool \<Rightarrow> nat \<Rightarrow> nat counter_sys \<Rightarrow> nat counter_sys option" where
  "sem_worker failed t s = worker_step sem_wait sem_post SEM_N failed t s"

definition sem_main :: "bool \<Rightarrow> bool \<Rightarrow> int + nat counter_sys" where
  "sem_main created1 created2 = (if \<not> created1 then Inl 1 else if \<not> created2 then Inl 1 else Inr (two_workers sem_init))"

definition SPIN_N :: nat where "SPIN_N = 5000"

record spinlock =
  spin_flag :: int

definition spinlock_init :: spinlock where
  "spinlock_init = \<lparr>spin_flag = 0\<rparr>"

text \<open>\<open>__sync_lock_test_and_set\<close> writes 1 and returns the old value, in one step; the loop ends when the old
  value was 0. A turn of the loop that finds 1 changes nothing.\<close>

definition test_and_set :: "spinlock \<Rightarrow> int \<times> spinlock" where
  "test_and_set l = (spin_flag l, l\<lparr>spin_flag := 1\<rparr>)"

definition spinlock_lock :: "spinlock \<Rightarrow> spinlock option" where
  "spinlock_lock l = (let (old, l') = test_and_set l in if old \<noteq> 0 then None else Some l')"

definition spinlock_unlock :: "spinlock \<Rightarrow> spinlock" where
  "spinlock_unlock l = l\<lparr>spin_flag := 0\<rparr>"

definition spin_worker :: "nat \<Rightarrow> spinlock counter_sys \<Rightarrow> spinlock counter_sys option" where
  "spin_worker t s = worker_step spinlock_lock spinlock_unlock SPIN_N False t s"

definition spin_main :: "bool \<Rightarrow> bool \<Rightarrow> int + spinlock counter_sys" where
  "spin_main created1 created2 =
     (let lock = spinlock_init in if \<not> created1 then Inl 1 else if \<not> created2 then Inl 1 else Inr (two_workers lock))"

inductive sem_trans :: "nat counter_sys \<Rightarrow> nat counter_sys \<Rightarrow> bool" where
  sem_trans: "sem_worker failed t s = Some s' \<Longrightarrow> sem_trans s s'"

inductive spin_trans :: "spinlock counter_sys \<Rightarrow> spinlock counter_sys \<Rightarrow> bool" where
  spin_trans: "spin_worker t s = Some s' \<Longrightarrow> spin_trans s s'"

lemma main_starts:
  "race_main c1 c2 = Inr r \<Longrightarrow> r = race_start" "sem_main c1 c2 = Inr s \<Longrightarrow> s = two_workers sem_init"
  "spin_main c1 c2 = Inr p \<Longrightarrow> p = two_workers spinlock_init"
  by (auto simp: race_main_def sem_main_def spin_main_def Let_def split: if_splits)

section \<open>What the workers need of a lock\<close>

fun holds :: "worker_pc \<Rightarrow> bool" where
  "holds Load = True"
| "holds (Store v) = True"
| "holds Unlock = True"
| "holds (Dead b) = b"
| "holds p = False"

text \<open>The number of increments a worker has stored.\<close>

definition stored :: "worker \<Rightarrow> nat" where
  "stored w = rounds w + (if wpc w = Unlock \<or> wpc w = Dead True then 1 else 0)"

text \<open>The workers that hold the lock, and what is true of each worker on its own: a value about to be stored is one more
  than the counter, and the number of rounds is that of the loop.\<close>

definition holders :: "worker list \<Rightarrow> nat set" where
  "holders ws = {t. t < length ws \<and> holds (wpc (ws ! t))}"

definition wf_worker :: "nat \<Rightarrow> int \<Rightarrow> worker \<Rightarrow> bool" where
  "wf_worker N c w \<longleftrightarrow> (case wpc w of
     Head \<Rightarrow> rounds w \<le> N | Finished \<Rightarrow> rounds w = N | Store v \<Rightarrow> v = c \<and> rounds w < N | _ \<Rightarrow> rounds w < N)"

definition counter_inv :: "('l \<Rightarrow> bool) \<Rightarrow> ('l \<Rightarrow> bool) \<Rightarrow> nat \<Rightarrow> 'l counter_sys \<Rightarrow> bool" where
  "counter_inv ok free N s \<longleftrightarrow> ok (lk s) \<and>
     (if free (lk s) then holders (workers s) = {} else (\<exists>u. holders (workers s) = {u})) \<and>
     (\<forall>t < length (workers s). wf_worker N (shared s) (workers s ! t)) \<and>
     shared s = int (sum_list (map stored (workers s)))"

lemma holders_update:
  "t < length ws \<Longrightarrow> holders (ws[t := w]) = (if holds (wpc w) then insert t (holders ws) else holders ws - {t})"
  by (auto simp: holders_def nth_list_update split: if_splits)

lemma holders_same:
  "t < length ws \<Longrightarrow> holds (wpc w) = holds (wpc (ws ! t)) \<Longrightarrow> holders (ws[t := w]) = holders ws"
  by (auto simp: holders_def nth_list_update split: if_splits)

lemma sum_stored_update:
  assumes "t < length ws"
  shows "sum_list (map stored (ws[t := w])) + stored (ws ! t) = sum_list (map stored ws) + stored w"
proof -
  have "stored (ws ! t) \<le> sum_list (map stored ws)" using assms by (intro member_le_sum_list) auto
  with assms show ?thesis by (simp add: map_update sum_list_update)
qed

lemma wf_worker_other: "wf_worker N c w \<Longrightarrow> \<not> holds (wpc w) \<Longrightarrow> wf_worker N c' w"
  by (auto simp: wf_worker_def split: worker_pc.splits)

lemma worker_step_length: "worker_step acq rel N failed t s = Some s' \<Longrightarrow> length (workers s') = length (workers s)"
  by (auto simp: worker_step_def move_def Let_def split: if_splits worker_pc.splits option.splits)

text \<open>A step changes one worker; only the holder of the lock may change the counter.\<close>

lemma counter_inv_update:
  assumes inv: "counter_inv ok free N s" and t: "t < length (workers s)"
    and "workers s' = (workers s)[t := w]" and "ok (lk s')"
    and "if free (lk s') then holders (workers s') = {} else (\<exists>u. holders (workers s') = {u})"
    and wf: "wf_worker N (shared s') w"
    and sh: "shared s' = shared s \<or> t \<in> holders (workers s)"
    and sum: "shared s' + int (stored (workers s ! t)) = shared s + int (stored w)"
  shows "counter_inv ok free N s'"
proof -
  have "wf_worker N (shared s') (workers s' ! u)" if u: "u < length (workers s')" for u
  proof (cases "u = t")
    case False
    with u assms(3) have eq: "workers s' ! u = workers s ! u" "u < length (workers s)" by simp_all
    then have old: "wf_worker N (shared s) (workers s ! u)" using inv unfolding counter_inv_def by blast
    have "t \<in> holders (workers s) \<Longrightarrow> u \<notin> holders (workers s)"
      using inv False by (auto simp: counter_inv_def split: if_splits)
    then have "shared s' = shared s \<or> \<not> holds (wpc (workers s ! u))"
      using sh eq by (auto simp: holders_def)
    with old eq show ?thesis using wf_worker_other by auto
  qed (use wf t assms(3) in simp)
  moreover have "shared s' = int (sum_list (map stored (workers s')))"
    using sum sum_stored_update [OF t, of w] inv assms(3) by (simp add: counter_inv_def)
  ultimately show ?thesis using assms(4,5) by (simp add: counter_inv_def)
qed

text \<open>A lock that is free can be taken, one that is taken cannot, and giving it back frees it. \<open>ok\<close> is the
  range of the lock's values.\<close>

locale mutex_lock =
  fixes acq :: "'l \<Rightarrow> 'l option" and rel :: "'l \<Rightarrow> 'l" and ok :: "'l \<Rightarrow> bool" and free :: "'l \<Rightarrow> bool" and first :: 'l
  assumes first_ok: "ok first" and first_free: "free first"
    and acq_free: "ok l \<Longrightarrow> free l \<Longrightarrow> \<exists>l'. acq l = Some l' \<and> ok l' \<and> \<not> free l'"
    and acq_taken: "ok l \<Longrightarrow> \<not> free l \<Longrightarrow> acq l = None"
    and rel_free: "ok l \<Longrightarrow> \<not> free l \<Longrightarrow> ok (rel l) \<and> free (rel l)"
begin

lemma start_inv: "counter_inv ok free N (two_workers first)"
  using first_ok first_free
  by (auto simp: counter_inv_def two_workers_def holders_def wf_worker_def stored_def nth_Cons')

lemma step_inv:
  assumes inv: "counter_inv ok free N s" and step: "worker_step acq rel N failed t s = Some s'"
  shows "counter_inv ok free N s'"
proof -
  have t: "t < length (workers s)" using step by (simp add: worker_step_def split: if_splits)
  note upd = counter_inv_update [OF inv t] and hu = holders_update [OF t]
  have ok: "ok (lk s)" and h: "if free (lk s) then holders (workers s) = {} else (\<exists>u. holders (workers s) = {u})"
    and wf: "wf_worker N (shared s) (workers s ! t)"
    using inv t by (auto simp: counter_inv_def)
  have mem: "t \<in> holders (workers s) \<longleftrightarrow> holds (wpc (workers s ! t))" using t by (simp add: holders_def)
  show ?thesis
  proof (cases "wpc (workers s ! t)")
    case Acquire
    show ?thesis
    proof (cases failed)
      case True
      with step t Acquire have "s' = move (Dead False) t s" by (simp add: worker_step_def Let_def)
      with t Acquire h ok wf show ?thesis
        by (intro upd [where w = "(workers s ! t)\<lparr>wpc := Dead False\<rparr>"])
          (simp_all add: move_def holders_same wf_worker_def stored_def)
    next
      case False
      with step t Acquire obtain l where l: "acq (lk s) = Some l" and s': "s' = move Load t (s\<lparr>lk := l\<rparr>)"
        by (auto simp: worker_step_def Let_def split: option.splits)
      then have "free (lk s)" using acq_taken [OF ok] by (cases "free (lk s)") auto
      with acq_free [OF ok] l have "ok l" "\<not> free l" "holders (workers s) = {}" using h by auto
      with s' t Acquire wf show ?thesis
        by (intro upd [where w = "(workers s ! t)\<lparr>wpc := Load\<rparr>"])
          (auto simp: move_def hu wf_worker_def stored_def)
    qed
  next
    case Unlock
    then have "\<not> free (lk s)" "holders (workers s) = {t}" using h mem by (auto split: if_splits)
    with rel_free [OF ok] step t Unlock ok wf show ?thesis
      by (cases failed; intro upd [where w = "if failed then (workers s ! t)\<lparr>wpc := Dead True\<rparr> else \<lparr>wpc = Head, rounds = Suc (rounds (workers s ! t))\<rparr>"])
        (auto simp: worker_step_def Let_def move_def hu wf_worker_def stored_def)
  next
    case (Store v)
    then have "\<not> free (lk s)" "holders (workers s) = {t}" using h mem by (auto split: if_splits)
    with step t Store ok wf show ?thesis
      by (intro upd [where w = "(workers s ! t)\<lparr>wpc := Unlock\<rparr>"])
        (auto simp: worker_step_def Let_def move_def hu wf_worker_def stored_def)
  next
    case Load
    then have "\<not> free (lk s)" "holders (workers s) = {t}" using h mem by (auto split: if_splits)
    with step t Load ok wf show ?thesis
      by (intro upd [where w = "(workers s ! t)\<lparr>wpc := Store (shared s)\<rparr>"])
        (auto simp: worker_step_def Let_def move_def hu wf_worker_def stored_def)
  next
    case Head
    with step t h ok wf show ?thesis
      by (intro upd [where w = "(workers s ! t)\<lparr>wpc := (if rounds (workers s ! t) < N then Acquire else Finished)\<rparr>"])
        (auto simp: worker_step_def Let_def move_def holders_same wf_worker_def stored_def)
  qed (use step t in \<open>simp_all add: worker_step_def Let_def\<close>)
qed

text \<open>A finished worker has stored \<open>N\<close> increments.\<close>

lemma finished_total:
  assumes inv: "counter_inv ok free N s" and "all_finished s"
  shows "shared s = int (length (workers s) * N)"
proof -
  have "stored w = N" if w: "w \<in> set (workers s)" for w
  proof -
    have "wf_worker N (shared s) w" using inv w unfolding counter_inv_def by (metis in_set_conv_nth)
    with assms(2) w show ?thesis by (simp add: all_finished_def wf_worker_def stored_def)
  qed
  then have "map stored (workers s) = map (\<lambda>w. N) (workers s)" by simp
  then have "sum_list (map stored (workers s)) = length (workers s) * N" by (simp only: sum_list_triv of_nat_id)
  then show ?thesis using inv unfolding counter_inv_def by simp
qed

lemma at_most_one:
  assumes "counter_inv ok free N s" and "t \<in> holders (workers s)" and "u \<in> holders (workers s)"
  shows "t = u"
  using assms by (auto simp: counter_inv_def split: if_splits)

text \<open>Unless a worker died with the lock, some worker that has not ended can run.\<close>

lemma progress:
  assumes inv: "counter_inv ok free N s" and t: "t < length (workers s)"
    and live: "wpc (workers s ! t) \<noteq> Finished" "\<forall>u < length (workers s). \<forall>b. wpc (workers s ! u) \<noteq> Dead b"
  shows "\<exists>u s'. worker_step acq rel N False u s = Some s'"
proof (cases "free (lk s)")
  case True
  have "ok (lk s)" using inv by (simp add: counter_inv_def)
  from acq_free [OF this True] t live show ?thesis
    by (intro exI [of _ t], cases "wpc (workers s ! t)") (auto simp: worker_step_def Let_def)
next
  case False
  then obtain u where "u \<in> holders (workers s)" using inv by (auto simp: counter_inv_def)
  then have "u < length (workers s)" "holds (wpc (workers s ! u))" by (auto simp: holders_def)
  with live show ?thesis
    by (intro exI [of _ u], cases "wpc (workers s ! u)") (auto simp: worker_step_def Let_def)
qed

end

text \<open>A semaphore that starts at 1 stays in \<open>{0, 1}\<close>; the flag of the spinlock is 0 or 1.\<close>

interpretation sem: mutex_lock sem_wait sem_post "\<lambda>v. v \<le> 1" "\<lambda>v. v = 1" sem_init
  by unfold_locales (auto simp: sem_wait_def sem_post_def sem_init_def)

interpretation spin: mutex_lock spinlock_lock spinlock_unlock "\<lambda>l. True" "\<lambda>l. spin_flag l = 0" spinlock_init
  by unfold_locales (auto simp: spinlock_lock_def spinlock_unlock_def test_and_set_def spinlock_init_def)

interpretation sem_run: step_invariant "\<lambda>s. s = two_workers sem_init" sem_trans
    "\<lambda>s. counter_inv (\<lambda>v. v \<le> 1) (\<lambda>v. v = 1) SEM_N s \<and> length (workers s) = 2"
proof unfold_locales
  fix s s' :: "nat counter_sys"
  show "counter_inv (\<lambda>v. v \<le> 1) (\<lambda>v. v = 1) SEM_N s \<and> length (workers s) = 2" if "s = two_workers sem_init"
    using that sem.start_inv by (simp add: two_workers_def)
  show "counter_inv (\<lambda>v. v \<le> 1) (\<lambda>v. v = 1) SEM_N s' \<and> length (workers s') = 2"
    if "counter_inv (\<lambda>v. v \<le> 1) (\<lambda>v. v = 1) SEM_N s \<and> length (workers s) = 2" "sem_trans s s'"
    using that sem.step_inv worker_step_length by (fastforce elim!: sem_trans.cases simp: sem_worker_def)
qed

interpretation spin_run: step_invariant "\<lambda>s. s = two_workers spinlock_init" spin_trans
    "\<lambda>s. counter_inv (\<lambda>l. True) (\<lambda>l. spin_flag l = 0) SPIN_N s \<and> length (workers s) = 2"
proof unfold_locales
  fix s s' :: "spinlock counter_sys"
  show "counter_inv (\<lambda>l. True) (\<lambda>l. spin_flag l = 0) SPIN_N s \<and> length (workers s) = 2" if "s = two_workers spinlock_init"
    using that spin.start_inv by (simp add: two_workers_def)
  show "counter_inv (\<lambda>l. True) (\<lambda>l. spin_flag l = 0) SPIN_N s' \<and> length (workers s') = 2"
    if "counter_inv (\<lambda>l. True) (\<lambda>l. spin_flag l = 0) SPIN_N s \<and> length (workers s) = 2" "spin_trans s s'"
    using that spin.step_inv worker_step_length by (fastforce elim!: spin_trans.cases simp: spin_worker_def)
qed

end
