(* ===== verification/Threads_Props.thy ===== *)
theory Threads_Props
  imports Threads
begin

text \<open>
  The properties of the counting threads: with a lock the result is exact in every interleaving, without
  one it lies between 2 and the expected value, and both ends are reached.
\<close>

section \<open>The unlocked counter\<close>

fun passed :: "race_pc \<Rightarrow> nat" where
  "passed (At i) = i"
| "passed (Loaded i v) = i"

text \<open>A value a thread has loaded is at most the number of rounds that have ended, and positive once the thread itself
  has stored. So the last store of all leaves at least 2.\<close>

fun seen_ok :: "int \<Rightarrow> race_pc \<Rightarrow> bool" where
  "seen_ok m (At i) = True"
| "seen_ok m (Loaded i v) = (0 \<le> v \<and> v \<le> m \<and> (0 < i \<longrightarrow> 1 \<le> v))"

definition race_pair :: "nat \<Rightarrow> int \<Rightarrow> race_pc \<Rightarrow> race_pc \<Rightarrow> bool" where
  "race_pair N c a b \<longleftrightarrow> 0 \<le> c \<and> c \<le> int (passed a + passed b) \<and> (0 < passed a \<or> 0 < passed b \<longrightarrow> 1 \<le> c) \<and>
     seen_ok (int (passed a + passed b)) a \<and> seen_ok (int (passed a + passed b)) b \<and>
     (2 \<le> N \<longrightarrow> a = At N \<longrightarrow> b = At N \<longrightarrow> 2 \<le> c)"

definition race_inv :: "nat \<Rightarrow> race_sys \<Rightarrow> bool" where
  "race_inv N s \<longleftrightarrow> (\<exists>a b. rthreads s = [a, b] \<and> race_pair N (rcounter s) a b)"

lemma race_pair_sym: "race_pair N c a b \<Longrightarrow> race_pair N c b a"
  by (auto simp: race_pair_def add.commute)

lemma seen_ok_mono: "seen_ok m p \<Longrightarrow> m \<le> k \<Longrightarrow> seen_ok k p"
  by (cases p) auto

lemma race_pair_load: "race_pair N c (At i) b \<Longrightarrow> race_pair N c (Loaded i c) b"
  by (simp add: race_pair_def)

lemma race_pair_store: "race_pair N c (Loaded i v) b \<Longrightarrow> race_pair N (v + 1) (At (Suc i)) b"
  using seen_ok_mono [of "int (i + passed b)" b "int (Suc i + passed b)"] by (auto simp: race_pair_def)

lemma race_pair_right:
  "race_pair N c a (At i) \<Longrightarrow> race_pair N c a (Loaded i c)" "race_pair N c a (Loaded i v) \<Longrightarrow> race_pair N (v + 1) a (At (Suc i))"
  by (blast intro: race_pair_sym race_pair_load race_pair_store)+

lemma race_inv_step:
  assumes "race_inv N s" and step: "race_step N t s = Some s'"
  shows "race_inv N s'"
proof -
  obtain a b where ab: "rthreads s = [a, b]" "race_pair N (rcounter s) a b" using assms(1) by (auto simp: race_inv_def)
  then have "t = 0 \<or> t = 1" using step by (auto simp: race_step_def split: if_splits)
  then show ?thesis
  proof
    assume "t = 0"
    with step ab race_pair_load [of N _ _ b] race_pair_store [of N _ _ _ b] show ?thesis
      by (cases a) (auto simp: race_inv_def race_step_def split: if_splits)
  next
    assume "t = 1"
    with step ab race_pair_right [of N _ a] show ?thesis
      by (cases b) (auto simp: race_inv_def race_step_def split: if_splits)
  qed
qed

lemma race_inv_start: "race_inv N race_start"
  by (simp add: race_inv_def race_start_def race_pair_def)

interpretation race: step_invariant "\<lambda>s. s = race_start" "race_trans N" "race_inv N"
  by unfold_locales (auto elim!: race_transE intro: race_inv_start race_inv_step)

text \<open>Runs of one thread: \<open>k\<close> rounds add \<open>k\<close>.\<close>

definition rstate :: "int \<Rightarrow> race_pc \<Rightarrow> race_pc \<Rightarrow> race_sys" where
  "rstate c a b = \<lparr>rcounter = c, rthreads = [a, b]\<rparr>"

lemma race_load:
  "i < N \<Longrightarrow> race_trans N (rstate c (At i) b) (rstate c (Loaded i c) b)"
  "i < N \<Longrightarrow> race_trans N (rstate c b (At i)) (rstate c b (Loaded i c))"
  by (rule race_trans [of N 0] race_trans [of N 1], simp add: race_step_def rstate_def)+

lemma race_store:
  "race_trans N (rstate c (Loaded i v) b) (rstate (v + 1) (At (Suc i)) b)"
  "race_trans N (rstate c b (Loaded i v)) (rstate (v + 1) b (At (Suc i)))"
  by (rule race_trans [of N 0] race_trans [of N 1], simp add: race_step_def rstate_def)+

lemma race_turn:
  "i < N \<Longrightarrow> (race_trans N)\<^sup>*\<^sup>* (rstate c (At i) b) (rstate (c + 1) (At (Suc i)) b)"
  "i < N \<Longrightarrow> (race_trans N)\<^sup>*\<^sup>* (rstate c b (At i)) (rstate (c + 1) b (At (Suc i)))"
  using race_load race_store by (meson r_into_rtranclp rtranclp_trans)+

lemma race_rounds:
  "i + k \<le> N \<Longrightarrow> (race_trans N)\<^sup>*\<^sup>* (rstate c (At i) b) (rstate (c + int k) (At (i + k)) b)"
  "i + k \<le> N \<Longrightarrow> (race_trans N)\<^sup>*\<^sup>* (rstate c b (At i)) (rstate (c + int k) b (At (i + k)))"
proof (induction k)
  case (Suc k)
  { case 1
    with Suc.IH(1) have "(race_trans N)\<^sup>*\<^sup>* (rstate c (At i) b) (rstate (c + int k) (At (i + k)) b)" by simp
    also have "(race_trans N)\<^sup>*\<^sup>* (rstate (c + int k) (At (i + k)) b) (rstate (c + int k + 1) (At (Suc (i + k))) b)"
      using 1 by (intro race_turn) simp
    finally show ?case by (simp add: add_ac) }
  { case 2
    with Suc.IH(2) have "(race_trans N)\<^sup>*\<^sup>* (rstate c b (At i)) (rstate (c + int k) b (At (i + k)))" by simp
    also have "(race_trans N)\<^sup>*\<^sup>* (rstate (c + int k) b (At (i + k))) (rstate (c + int k + 1) b (At (Suc (i + k))))"
      using 2 by (intro race_turn) simp
    finally show ?case by (simp add: add_ac) }
qed simp_all

lemma race_start_rstate: "race_start = rstate 0 (At 0) (At 0)"
  by (simp add: race_start_def rstate_def)

text \<open>One after the other: nothing is lost.\<close>

lemma race_best: "(race_trans N)\<^sup>*\<^sup>* race_start (rstate (int (2 * N)) (At N) (At N))"
proof -
  have "(race_trans N)\<^sup>*\<^sup>* (rstate 0 (At 0) (At 0)) (rstate (int N) (At N) (At 0))" using race_rounds(1) [of 0 N N 0] by simp
  also have "(race_trans N)\<^sup>*\<^sup>* \<dots> (rstate (int N + int N) (At N) (At N))" using race_rounds(2) [of 0 N N "int N"] by simp
  finally show ?thesis unfolding race_start_rstate by (metis int_plus mult_2)
qed

text \<open>The first thread loads 0 and waits while the second runs all rounds but one; its store undoes them. The second loads
  1 for its last round and waits while the first runs to its end; its store undoes those.\<close>

lemma race_worst:
  assumes "2 \<le> N"
  shows "(race_trans N)\<^sup>*\<^sup>* race_start (rstate 2 (At N) (At N))"
proof -
  have "(race_trans N)\<^sup>*\<^sup>* race_start (rstate 0 (Loaded 0 0) (At 0))"
    using race_load(1) [of 0 N 0 "At 0"] assms by (auto simp: race_start_rstate)
  also have "(race_trans N)\<^sup>*\<^sup>* \<dots> (rstate (int (N - 1)) (Loaded 0 0) (At (N - 1)))"
    using race_rounds(2) [of 0 "N - 1" N 0] by simp
  also have "(race_trans N)\<^sup>*\<^sup>* \<dots> (rstate 1 (At 1) (At (N - 1)))" using race_store(1) [of N _ 0 0] by fastforce
  also have "(race_trans N)\<^sup>*\<^sup>* \<dots> (rstate 1 (At 1) (Loaded (N - 1) 1))" using race_load(2) [of "N - 1" N] assms by fastforce
  also have "(race_trans N)\<^sup>*\<^sup>* \<dots> (rstate (1 + int (N - 1)) (At (1 + (N - 1))) (Loaded (N - 1) 1))"
    by (rule race_rounds) (use assms in simp)
  also have "(race_trans N)\<^sup>*\<^sup>* \<dots> (rstate 2 (At (1 + (N - 1))) (At N))"
    using race_store(2) [of N _ _ "N - 1" 1] assms by fastforce
  finally show ?thesis using assms by simp
qed

section \<open>Properties\<close>

text \<open>C10. Locked counting. In every interleaving of the two workers of the semaphore program, failed calls on the
  semaphore included, and of the spinlock program, at most one worker is between its lock and unlock; when both workers have
  finished the shared value is exactly the sum of their rounds, 200 and 10000; and while no worker has left by
  \<open>pthread_exit\<close> and one has not finished, some worker can run.\<close>

theorem locked_counter_exact:
  "(sem_main c1 c2 = Inr s0 \<and> sem_trans\<^sup>*\<^sup>* s0 s \<longrightarrow>
      (\<forall>t u. t \<in> holders (workers s) \<longrightarrow> u \<in> holders (workers s) \<longrightarrow> t = u) \<and>
      (all_finished s \<longrightarrow> shared s = 200) \<and>
      ((\<forall>w \<in> set (workers s). \<forall>b. wpc w \<noteq> Dead b) \<longrightarrow> \<not> all_finished s \<longrightarrow> (\<exists>t s'. sem_worker False t s = Some s'))) \<and>
   (spin_main c1 c2 = Inr r0 \<and> spin_trans\<^sup>*\<^sup>* r0 r \<longrightarrow>
      (\<forall>t u. t \<in> holders (workers r) \<longrightarrow> u \<in> holders (workers r) \<longrightarrow> t = u) \<and>
      (all_finished r \<longrightarrow> shared r = 10000) \<and>
      ((\<forall>w \<in> set (workers r). \<forall>b. wpc w \<noteq> Dead b) \<longrightarrow> \<not> all_finished r \<longrightarrow> (\<exists>t r'. spin_worker t r = Some r')))"
proof (intro conjI impI)
  assume "sem_main c1 c2 = Inr s0 \<and> sem_trans\<^sup>*\<^sup>* s0 s"
  then have "sem_trans\<^sup>*\<^sup>* (two_workers sem_init) s" by (auto dest: main_starts)
  from sem_run.inv_reachable [OF refl this]
  have inv: "counter_inv (\<lambda>v. v \<le> 1) (\<lambda>v. v = 1) SEM_N s" and len: "length (workers s) = 2" by auto
  show "\<forall>t u. t \<in> holders (workers s) \<longrightarrow> u \<in> holders (workers s) \<longrightarrow> t = u" using sem.at_most_one [OF inv] by blast
  show "all_finished s \<Longrightarrow> shared s = 200" using sem.finished_total [OF inv] len by (simp add: SEM_N_def)
  show "\<forall>w \<in> set (workers s). \<forall>b. wpc w \<noteq> Dead b \<Longrightarrow> \<not> all_finished s \<Longrightarrow> \<exists>t s'. sem_worker False t s = Some s'"
    using sem.progress [OF inv] unfolding sem_worker_def all_finished_def by (metis in_set_conv_nth nth_mem)
next
  assume "spin_main c1 c2 = Inr r0 \<and> spin_trans\<^sup>*\<^sup>* r0 r"
  then have "spin_trans\<^sup>*\<^sup>* (two_workers spinlock_init) r" by (auto dest: main_starts)
  from spin_run.inv_reachable [OF refl this]
  have inv: "counter_inv (\<lambda>l. True) (\<lambda>l. spin_flag l = 0) SPIN_N r" and len: "length (workers r) = 2" by auto
  show "\<forall>t u. t \<in> holders (workers r) \<longrightarrow> u \<in> holders (workers r) \<longrightarrow> t = u" using spin.at_most_one [OF inv] by blast
  show "all_finished r \<Longrightarrow> shared r = 10000" using spin.finished_total [OF inv] len by (simp add: SPIN_N_def)
  show "\<forall>w \<in> set (workers r). \<forall>b. wpc w \<noteq> Dead b \<Longrightarrow> \<not> all_finished r \<Longrightarrow> \<exists>t r'. spin_worker t r = Some r'"
    using spin.progress [OF inv] unfolding spin_worker_def all_finished_def by (metis in_set_conv_nth nth_mem)
qed

theorem locked_counter_exact_witness:
  "\<exists>s0 t s'. sem_main True True = Inr s0 \<and> sem_worker False t s0 = Some s'"
  using locked_counter_exact [of True True "two_workers sem_init" "two_workers sem_init" "two_workers spinlock_init" "two_workers spinlock_init"]
  by (simp add: sem_main_def all_finished_def two_workers_def)

text \<open>C35. Unlocked counting. When two workers of \<open>n\<close> rounds each, at least 2, have been joined, the counter lies between 2 and the
  expected value, and each end is the result of some interleaving: up to \<open>2 * n - 2\<close> of the increments may be lost.\<close>

theorem race_bounds:
  assumes "2 \<le> n"
  shows "(race_main c1 c2 = Inr s0 \<longrightarrow> (race_trans n)\<^sup>*\<^sup>* s0 s \<longrightarrow> race_joined n s \<longrightarrow> 2 \<le> rcounter s \<and> rcounter s \<le> int (2 * n)) \<and>
    (\<exists>s. (race_trans n)\<^sup>*\<^sup>* race_start s \<and> race_joined n s \<and> rcounter s = 2) \<and>
    (\<exists>s. (race_trans n)\<^sup>*\<^sup>* race_start s \<and> race_joined n s \<and> rcounter s = int (2 * n))"
proof (intro conjI impI)
  assume "race_main c1 c2 = Inr s0" and "(race_trans n)\<^sup>*\<^sup>* s0 s" and j: "race_joined n s"
  then have "(race_trans n)\<^sup>*\<^sup>* race_start s" by (auto dest: main_starts)
  from race.inv_reachable [OF refl this] j assms show "2 \<le> rcounter s" and "rcounter s \<le> int (2 * n)"
    by (auto simp: race_inv_def race_joined_def race_pair_def)
next
  show "\<exists>s. (race_trans n)\<^sup>*\<^sup>* race_start s \<and> race_joined n s \<and> rcounter s = 2"
    using race_worst [OF assms] by (intro exI [of _ "rstate 2 (At n) (At n)"]) (simp add: race_joined_def rstate_def)
  show "\<exists>s. (race_trans n)\<^sup>*\<^sup>* race_start s \<and> race_joined n s \<and> rcounter s = int (2 * n)"
    using race_best [of n] by (intro exI [of _ "rstate (int (2 * n)) (At n) (At n)"]) (simp add: race_joined_def rstate_def)
qed

theorem race_bounds_witness:
  "\<exists>s. (race_trans RACE_N)\<^sup>*\<^sup>* race_start s \<and> race_joined RACE_N s \<and> rcounter s = 2"
  using race_bounds [of RACE_N] by (simp add: RACE_N_def)

end
