(* ===== verification/Pipes.thy ===== *)
theory Pipes
  imports OS_Prelude
begin

text \<open>
  The two programs of \<^verbatim>\<open>src/2lab/2\<close> in which two children write 100 characters each into one pipe and the parent
  reads and counts them: with \<open>lockf\<close> around the writes (\<^verbatim>\<open>2-1.c\<close>) and without (\<^verbatim>\<open>2-2.c\<close>). A write of one
  character is one step and never blocks, since a pipe holds far more than 200 characters; \<open>lockf\<close> lets one process
  in at a time, as it does on Linux, and is taken to succeed (the programs do not look at its result); the sleeps only delay. The parent waits for both children before it reads, so the write ends are closed by then.
\<close>

section \<open>Children\<close>

datatype child_pc = C_start | C_write nat | C_unlock | C_exit

record pipe_sys =
  pipe :: string
  plock :: "nat option"
  children :: "child_pc list"

text \<open>\<open>c1\<close> and \<open>c2\<close>.\<close>

definition letter :: "nat \<Rightarrow> char" where
  "letter t = (if t = 0 then CHR ''1'' else CHR ''2'')"

text \<open>The loop of both programs: 100 writes of one character, then \<open>after\<close>.\<close>

definition write_loop :: "child_pc \<Rightarrow> nat \<Rightarrow> nat \<Rightarrow> pipe_sys \<Rightarrow> pipe_sys" where
  "write_loop after i t s =
     (if i < 100 then s\<lparr>pipe := pipe s @ [letter t], children := (children s)[t := C_write (Suc i)]\<rparr>
      else s\<lparr>children := (children s)[t := after]\<rparr>)"

definition lockf_child :: "nat \<Rightarrow> pipe_sys \<Rightarrow> pipe_sys option" where
  "lockf_child t s =
     (if \<not> t < length (children s) then None
      else case children s ! t of
        C_start \<Rightarrow>
          if plock s = None then Some (s\<lparr>plock := Some t, children := (children s)[t := C_write 0]\<rparr>) else None
      | C_write i \<Rightarrow> Some (write_loop C_unlock i t s)
      | C_unlock \<Rightarrow> Some (s\<lparr>plock := None, children := (children s)[t := C_exit]\<rparr>)
      | C_exit \<Rightarrow> None)"

definition plain_child :: "nat \<Rightarrow> pipe_sys \<Rightarrow> pipe_sys option" where
  "plain_child t s =
     (if \<not> t < length (children s) then None
      else case children s ! t of
        C_start \<Rightarrow> Some (s\<lparr>children := (children s)[t := C_write 0]\<rparr>)
      | C_write i \<Rightarrow> Some (write_loop C_exit i t s)
      | C_unlock \<Rightarrow> None
      | C_exit \<Rightarrow> None)"

definition pipe_start :: pipe_sys where
  "pipe_start = \<lparr>pipe = [], plock = None, children = [C_start, C_start]\<rparr>"

text \<open>\<open>main\<close> returns 0 before it reads when a \<open>fork\<close> fails.\<close>

definition pipe_main :: "int \<Rightarrow> int \<Rightarrow> int + pipe_sys" where
  "pipe_main pid1 pid2 = (if pid1 < 0 then Inl 0 else if pid2 < 0 then Inl 0 else Inr pipe_start)"

lemma pipe_main_start: "pipe_main p1 p2 = Inr s \<Longrightarrow> s = pipe_start"
  by (auto simp: pipe_main_def split: if_splits)

inductive lockf_trans :: "pipe_sys \<Rightarrow> pipe_sys \<Rightarrow> bool" where
  lockf_trans: "lockf_child t s = Some s' \<Longrightarrow> lockf_trans s s'"

inductive plain_trans :: "pipe_sys \<Rightarrow> pipe_sys \<Rightarrow> bool" where
  plain_trans: "plain_child t s = Some s' \<Longrightarrow> plain_trans s s'"

section \<open>The parent\<close>

text \<open>\<open>read(fd, p, n)\<close> on a pipe without writers: at least one character, at most \<open>n\<close> of those in the pipe, and
  none at its end. How many is the kernel's choice: \<open>pick\<close> names it for every value of \<open>total\<close>, and is \<open>None\<close> for a read that fails.\<close>

definition read_some :: "nat \<Rightarrow> nat \<Rightarrow> string \<Rightarrow> nat" where
  "read_some wish n content = (if content = [] then 0 else max 1 (min wish (min n (length content))))"

function read_pipe :: "(nat \<Rightarrow> nat option) \<Rightarrow> string \<Rightarrow> string \<Rightarrow> string" where
  "read_pipe pick content got =
     (if length got < 200 then
        (case pick (length got) of
           None \<Rightarrow> got
         | Some wish \<Rightarrow>
             let r = read_some wish (200 - length got) content in
             if r > 0 then read_pipe pick (drop r content) (got @ take r content) else got)
      else got)"
  by pat_completeness auto

lemma read_some_bounds: "0 < read_some w n c \<Longrightarrow> c \<noteq> [] \<and> 0 < read_some w n c"
  by (auto simp: read_some_def split: if_splits)

termination read_pipe
proof (relation "measure (\<lambda>(pick, content, got). length content)", goal_cases)
  case (2 pick content got wish r)
  then have "content \<noteq> []" "0 < r" using read_some_bounds by auto
  then show ?case by simp
qed simp

declare read_pipe.simps [simp del]

record pipe_report =
  total :: nat
  count1 :: nat
  count2 :: nat
  in_pipe :: string

text \<open>The loop that counts the two characters, and what is printed: the part of \<open>InPipe\<close> before the 0 that ends it.\<close>

fun count_letters :: "string \<Rightarrow> nat \<times> nat" where
  "count_letters [] = (0, 0)"
| "count_letters (c # cs) =
     (let (n1, n2) = count_letters cs in
      if c = CHR ''1'' then (n1 + 1, n2) else if c = CHR ''2'' then (n1, n2 + 1) else (n1, n2))"

definition parent_report :: "(nat \<Rightarrow> nat option) \<Rightarrow> string \<Rightarrow> pipe_report" where
  "parent_report pick content =
     (let got = read_pipe pick content []; (n1, n2) = count_letters got
      in \<lparr>total = length got, count1 = n1, count2 = n2, in_pipe = take 200 got\<rparr>)"

section \<open>What the parent reads\<close>

lemma read_pipe_all:
  "length got + length content = 200 \<Longrightarrow> \<forall>n. pick n \<noteq> None \<Longrightarrow> read_pipe pick content got = got @ content"
proof (induction pick content got rule: read_pipe.induct)
  case (1 pick content got)
  obtain w where w: "pick (length got) = Some w" using "1.prems"(2) by auto
  show ?case
  proof (cases "content = []")
    case True
    with "1.prems"(1) show ?thesis by (subst read_pipe.simps) simp
  next
    case False
    let ?r = "read_some w (200 - length got) content"
    have r: "0 < ?r" "?r \<le> length content" "length got < 200"
      using False "1.prems"(1) by (auto simp: read_some_def Suc_le_eq simp flip: length_greater_0_conv)
    then have "read_pipe pick (drop ?r content) (got @ take ?r content) = (got @ take ?r content) @ drop ?r content"
      using "1.prems" w by (intro "1.IH") auto
    with r w show ?thesis by (subst read_pipe.simps) (simp add: Let_def)
  qed
qed

text \<open>Whatever the reads return, the loop stays inside \<open>InPipe\<close>: at most 200 characters, a prefix of what was written.\<close>

lemma read_pipe_prefix:
  "length got \<le> 200 \<Longrightarrow> \<exists>k. read_pipe pick content got = got @ take k content \<and> length (read_pipe pick content got) \<le> 200"
proof (induction pick content got rule: read_pipe.induct)
  case (1 pick content got)
  show ?case
  proof (cases "length got < 200 \<and> pick (length got) \<noteq> None")
    case True
    then obtain w where w: "pick (length got) = Some w" by auto
    let ?r = "read_some w (200 - length got) content"
    show ?thesis
    proof (cases "0 < ?r")
      case r: True
      have "length (got @ take ?r content) \<le> 200" using True by (auto simp: read_some_def split: if_splits)
      with 1(1) True w r obtain k where "read_pipe pick (drop ?r content) (got @ take ?r content) = (got @ take ?r content) @ take k (drop ?r content)"
        "length (read_pipe pick (drop ?r content) (got @ take ?r content)) \<le> 200" by blast
      with True w r show ?thesis
        by (subst (1 2) read_pipe.simps) (auto simp: Let_def take_add intro!: exI [of _ "?r + k"])
    next
      case False
      with True w "1.prems" show ?thesis by (subst (1 2) read_pipe.simps) (auto intro!: exI [of _ 0])
    qed
  next
    case False
    with "1.prems" show ?thesis by (subst (1 2) read_pipe.simps) (auto intro!: exI [of _ 0])
  qed
qed

lemma count_letters_filter:
  "count_letters s = (length (filter (\<lambda>c. c = CHR ''1'') s), length (filter (\<lambda>c. c = CHR ''2'') s))"
  by (induction s) auto

lemma parent_report_all:
  assumes "length content = 200" and "length (filter (\<lambda>c. c = CHR ''1'') content) = 100"
    and "length (filter (\<lambda>c. c = CHR ''2'') content) = 100" and "\<forall>n. pick n \<noteq> None"
  shows "parent_report pick content = \<lparr>total = 200, count1 = 100, count2 = 100, in_pipe = content\<rparr>"
  using assms(1-3) read_pipe_all [of "[]" content pick] assms(4) by (simp add: parent_report_def count_letters_filter Let_def)

lemma parent_report_prefix:
  "total (parent_report pick content) \<le> 200 \<and> (\<exists>k. in_pipe (parent_report pick content) = take k content)"
proof -
  obtain k where "read_pipe pick content [] = take k content" "length (read_pipe pick content []) \<le> 200"
    using read_pipe_prefix [of "[]" pick content] by auto
  then show ?thesis by (auto simp: parent_report_def Let_def split_beta)
qed

section \<open>What the children write\<close>

fun written :: "child_pc \<Rightarrow> nat" where
  "written C_start = 0"
| "written (C_write i) = i"
| "written p = 100"

fun busy :: "child_pc \<Rightarrow> bool" where
  "busy (C_write i) = True"
| "busy C_unlock = True"
| "busy p = False"

text \<open>With the lock: the letters of one child before those of the other, which starts after the first has exited.\<close>

definition blocks :: "string \<Rightarrow> child_pc \<Rightarrow> char \<Rightarrow> child_pc \<Rightarrow> char \<Rightarrow> bool" where
  "blocks p a ca b cb \<longleftrightarrow> p = replicate (written a) ca @ replicate (written b) cb \<and> (b = C_start \<or> a = C_exit)"

definition lockf_pair :: "string \<Rightarrow> nat option \<Rightarrow> child_pc \<Rightarrow> child_pc \<Rightarrow> bool" where
  "lockf_pair p l a b \<longleftrightarrow> (l = Some 0 \<longleftrightarrow> busy a) \<and> (l = Some 1 \<longleftrightarrow> busy b) \<and> (l \<noteq> None \<longrightarrow> busy a \<or> busy b) \<and>
     written a \<le> 100 \<and> written b \<le> 100 \<and> (blocks p a (letter 0) b (letter 1) \<or> blocks p b (letter 1) a (letter 0))"

definition lockf_inv :: "pipe_sys \<Rightarrow> bool" where
  "lockf_inv s \<longleftrightarrow> (\<exists>a b. children s = [a, b] \<and> lockf_pair (pipe s) (plock s) a b)"

lemma replicate_snoc: "replicate (Suc n) c = replicate n c @ [c]"
  by (simp add: replicate_append_same)

lemma lockf_pair_steps:
  "lockf_pair p None a b \<Longrightarrow> a = C_start \<Longrightarrow> lockf_pair p (Some 0) (C_write 0) b"
  "lockf_pair p l (C_write i) b \<Longrightarrow> i < 100 \<Longrightarrow> lockf_pair (p @ [letter 0]) l (C_write (Suc i)) b"
  "lockf_pair p l (C_write i) b \<Longrightarrow> \<not> i < 100 \<Longrightarrow> lockf_pair p l C_unlock b"
  "lockf_pair p l C_unlock b \<Longrightarrow> lockf_pair p None C_exit b"
  "lockf_pair p None b a \<Longrightarrow> a = C_start \<Longrightarrow> lockf_pair p (Some 1) b (C_write 0)"
  "lockf_pair p l b (C_write i) \<Longrightarrow> i < 100 \<Longrightarrow> lockf_pair (p @ [letter 1]) l b (C_write (Suc i))"
  "lockf_pair p l b (C_write i) \<Longrightarrow> \<not> i < 100 \<Longrightarrow> lockf_pair p l b C_unlock"
  "lockf_pair p l b C_unlock \<Longrightarrow> lockf_pair p None b C_exit"
  by (cases b; auto simp: lockf_pair_def blocks_def replicate_snoc simp del: replicate_Suc)+

lemma lockf_inv_step:
  assumes "lockf_inv s" and step: "lockf_child t s = Some s'"
  shows "lockf_inv s'"
proof -
  obtain a b where ab: "children s = [a, b]" "lockf_pair (pipe s) (plock s) a b" using assms(1) by (auto simp: lockf_inv_def)
  then have "t = 0 \<or> t = 1" using step by (auto simp: lockf_child_def split: if_splits)
  then show ?thesis
  proof
    assume "t = 0"
    with step ab lockf_pair_steps(1-4) show ?thesis
      by (cases a) (auto simp: lockf_inv_def lockf_child_def write_loop_def split: if_splits)
  next
    assume "t = 1"
    with step ab lockf_pair_steps(5-8) show ?thesis
      by (cases b) (auto simp: lockf_inv_def lockf_child_def write_loop_def split: if_splits)
  qed
qed

interpretation lockf: step_invariant "\<lambda>s. s = pipe_start" lockf_trans lockf_inv
proof unfold_locales
  show "lockf_inv s" if "s = pipe_start" for s
    using that by (simp add: lockf_inv_def pipe_start_def lockf_pair_def blocks_def)
  show "lockf_inv s'" if "lockf_inv s" "lockf_trans s s'" for s s'
    using that by (auto elim!: lockf_trans.cases intro: lockf_inv_step)
qed

text \<open>A child that finds the lock free can run to its end.\<close>

definition lstate :: "string \<Rightarrow> nat option \<Rightarrow> child_pc \<Rightarrow> child_pc \<Rightarrow> pipe_sys" where
  "lstate p l a b = \<lparr>pipe = p, plock = l, children = [a, b]\<rparr>"

lemma lockf_writes:
  "k \<le> 100 \<Longrightarrow> lockf_trans\<^sup>*\<^sup>* (lstate p l (C_write 0) b) (lstate (p @ replicate k (letter 0)) l (C_write k) b)"
  "k \<le> 100 \<Longrightarrow> lockf_trans\<^sup>*\<^sup>* (lstate p l a (C_write 0)) (lstate (p @ replicate k (letter 1)) l a (C_write k))"
proof (induction k)
  case (Suc k)
  { case 1
    have "lockf_trans (lstate (p @ replicate k (letter 0)) l (C_write k) b) (lstate (p @ replicate (Suc k) (letter 0)) l (C_write (Suc k)) b)"
      using 1 by (intro lockf_trans [of 0]) (simp add: lockf_child_def write_loop_def lstate_def replicate_append_same)
    with Suc.IH(1) 1 show ?case by (simp add: rtranclp.rtrancl_into_rtrancl) }
  { case 2
    have "lockf_trans (lstate (p @ replicate k (letter 1)) l a (C_write k)) (lstate (p @ replicate (Suc k) (letter 1)) l a (C_write (Suc k)))"
      using 2 by (intro lockf_trans [of 1]) (simp add: lockf_child_def write_loop_def lstate_def replicate_append_same)
    with Suc.IH(2) 2 show ?case by (simp add: rtranclp.rtrancl_into_rtrancl) }
qed simp_all

lemma lockf_moves:
  "lockf_trans (lstate p None C_start b) (lstate p (Some 0) (C_write 0) b)" "lockf_trans (lstate p None a C_start) (lstate p (Some 1) a (C_write 0))"
  "lockf_trans (lstate p l (C_write 100) b) (lstate p l C_unlock b)" "lockf_trans (lstate p l a (C_write 100)) (lstate p l a C_unlock)"
  "lockf_trans (lstate p l C_unlock b) (lstate p None C_exit b)" "lockf_trans (lstate p l a C_unlock) (lstate p None a C_exit)"
  by (rule lockf_trans [of 0] lockf_trans [of 1], simp add: lockf_child_def write_loop_def lstate_def)+

lemma lockf_finishes: "lockf_trans\<^sup>*\<^sup>* pipe_start (lstate (replicate 100 (letter 0) @ replicate 100 (letter 1)) None C_exit C_exit)"
proof -
  have "lockf_trans\<^sup>*\<^sup>* pipe_start (lstate [] (Some 0) (C_write 0) C_start)"
    using lockf_moves(1) [of "[]" C_start] by (simp add: pipe_start_def lstate_def)
  also have "lockf_trans\<^sup>*\<^sup>* \<dots> (lstate ([] @ replicate 100 (letter 0)) (Some 0) (C_write 100) C_start)" by (rule lockf_writes) simp
  also have "lockf_trans\<^sup>*\<^sup>* \<dots> (lstate ([] @ replicate 100 (letter 0)) (Some 1) C_exit (C_write 0))"
    using lockf_moves by (meson r_into_rtranclp rtranclp_trans)
  also have "lockf_trans\<^sup>*\<^sup>* \<dots> (lstate (([] @ replicate 100 (letter 0)) @ replicate 100 (letter 1)) (Some 1) C_exit (C_write 100))"
    by (rule lockf_writes) simp
  also have "lockf_trans\<^sup>*\<^sup>* \<dots> (lstate (([] @ replicate 100 (letter 0)) @ replicate 100 (letter 1)) None C_exit C_exit)"
    using lockf_moves by (meson r_into_rtranclp rtranclp_trans)
  finally show ?thesis by simp
qed

text \<open>Without it: only the numbers of the letters are known.\<close>

definition plain_pair :: "string \<Rightarrow> child_pc \<Rightarrow> child_pc \<Rightarrow> bool" where
  "plain_pair p a b \<longleftrightarrow> length (filter (\<lambda>c. c = CHR ''1'') p) = written a \<and> length (filter (\<lambda>c. c = CHR ''2'') p) = written b \<and>
     length p = written a + written b \<and> written a \<le> 100 \<and> written b \<le> 100 \<and> a \<noteq> C_unlock \<and> b \<noteq> C_unlock"

definition plain_inv :: "pipe_sys \<Rightarrow> bool" where
  "plain_inv s \<longleftrightarrow> (\<exists>a b. children s = [a, b] \<and> plain_pair (pipe s) a b)"

lemma plain_inv_step:
  assumes "plain_inv s" and step: "plain_child t s = Some s'"
  shows "plain_inv s'"
proof -
  obtain a b where ab: "children s = [a, b]" "plain_pair (pipe s) a b" using assms(1) by (auto simp: plain_inv_def)
  then have "t = 0 \<or> t = 1" using step by (auto simp: plain_child_def split: if_splits)
  then show ?thesis
  proof
    assume "t = 0"
    with step ab show ?thesis
      by (cases a) (auto simp: plain_inv_def plain_child_def write_loop_def plain_pair_def letter_def split: if_splits)
  next
    assume "t = 1"
    with step ab show ?thesis
      by (cases b) (auto simp: plain_inv_def plain_child_def write_loop_def plain_pair_def letter_def split: if_splits)
  qed
qed

interpretation plain: step_invariant "\<lambda>s. s = pipe_start" plain_trans plain_inv
proof unfold_locales
  show "plain_inv s" if "s = pipe_start" for s
    using that by (simp add: plain_inv_def pipe_start_def plain_pair_def)
  show "plain_inv s'" if "plain_inv s" "plain_trans s s'" for s s'
    using that by (auto elim!: plain_trans.cases intro: plain_inv_step)
qed

text \<open>Every sequence of the letters is written by some interleaving.\<close>

definition ones :: "string \<Rightarrow> nat" where "ones p = length (filter (\<lambda>c. c = CHR ''1'') p)"
definition twos :: "string \<Rightarrow> nat" where "twos p = length (filter (\<lambda>c. c = CHR ''2'') p)"

definition pstate :: "string \<Rightarrow> child_pc \<Rightarrow> child_pc \<Rightarrow> pipe_sys" where
  "pstate p a b = \<lparr>pipe = p, plock = None, children = [a, b]\<rparr>"

lemma plain_moves:
  "plain_trans (pstate p C_start b) (pstate p (C_write 0) b)" "plain_trans (pstate p a C_start) (pstate p a (C_write 0))"
  "i < 100 \<Longrightarrow> plain_trans (pstate p (C_write i) b) (pstate (p @ ''1'') (C_write (Suc i)) b)"
  "i < 100 \<Longrightarrow> plain_trans (pstate p a (C_write i)) (pstate (p @ ''2'') a (C_write (Suc i)))"
  "plain_trans (pstate p (C_write 100) b) (pstate p C_exit b)" "plain_trans (pstate p a (C_write 100)) (pstate p a C_exit)"
  by (rule plain_trans [of 0] plain_trans [of 1], simp add: plain_child_def write_loop_def pstate_def letter_def)+

lemma plain_prefix:
  "set p \<subseteq> {CHR ''1'', CHR ''2''} \<Longrightarrow> ones p \<le> 100 \<Longrightarrow> twos p \<le> 100 \<Longrightarrow>
   plain_trans\<^sup>*\<^sup>* pipe_start (pstate p (C_write (ones p)) (C_write (twos p)))"
proof (induction p rule: rev_induct)
  case Nil
  have "pipe_start = pstate [] C_start C_start" by (simp add: pipe_start_def pstate_def)
  then show ?case using plain_moves(1) [of "[]" C_start] plain_moves(2) [of "[]" "C_write 0"]
    by (metis (no_types) filter.simps(1) list.size(3) ones_def r_into_rtranclp rtranclp.rtrancl_into_rtrancl twos_def)
next
  case (snoc c p)
  then have IH: "plain_trans\<^sup>*\<^sup>* pipe_start (pstate p (C_write (ones p)) (C_write (twos p)))"
    by (auto simp: ones_def twos_def split: if_splits)
  consider "c = CHR ''1''" | "c = CHR ''2''" using snoc.prems(1) by auto
  then show ?case
  proof cases
    case 1
    then have "ones p < 100" "ones (p @ [c]) = Suc (ones p)" "twos (p @ [c]) = twos p" using snoc.prems by (auto simp: ones_def twos_def)
    with IH plain_moves(3) [of "ones p" p] 1 show ?thesis by (metis rtranclp.rtrancl_into_rtrancl)
  next
    case 2
    then have "twos p < 100" "ones (p @ [c]) = ones p" "twos (p @ [c]) = Suc (twos p)" using snoc.prems by (auto simp: ones_def twos_def)
    with IH plain_moves(4) [of "twos p" p] 2 show ?thesis by (metis rtranclp.rtrancl_into_rtrancl)
  qed
qed

lemma only_letters:
  "length p = length (filter (\<lambda>c. c = CHR ''1'') p) + length (filter (\<lambda>c. c = CHR ''2'') p) \<Longrightarrow> set p \<subseteq> {CHR ''1'', CHR ''2''}"
proof (induction p)
  case (Cons c p)
  have "length (filter (\<lambda>c. c = CHR ''1'') p) + length (filter (\<lambda>c. c = CHR ''2'') p) \<le> length p" by (induction p) auto
  with Cons show ?case by (auto split: if_splits)
qed simp

lemma plain_complete:
  assumes "set p \<subseteq> {CHR ''1'', CHR ''2''}" and "ones p = 100" and "twos p = 100"
  shows "plain_trans\<^sup>*\<^sup>* pipe_start (pstate p C_exit C_exit)"
proof -
  have "plain_trans\<^sup>*\<^sup>* pipe_start (pstate p (C_write 100) (C_write 100))" using plain_prefix [OF assms(1)] assms(2,3) by simp
  also have "plain_trans\<^sup>*\<^sup>* \<dots> (pstate p C_exit C_exit)"
    using plain_moves(5) [of p "C_write 100"] plain_moves(6) [of p C_exit] by (meson r_into_rtranclp rtranclp_trans)
  finally show ?thesis .
qed

section \<open>Properties\<close>

text \<open>C12. With \<open>lockf\<close>. In every interleaving in which both children have exited, and however the kernel cuts the reads, the
  parent reports 200 characters, 100 of each, and prints the 100 letters of one child before the 100 of the other. With reads that
  fail it prints a prefix of that and never more than 200 characters, so it stays inside its buffer.\<close>

theorem pipe_lockf_report:
  assumes "pipe_main pid1 pid2 = Inr s0" and "lockf_trans\<^sup>*\<^sup>* s0 s" and "children s = [C_exit, C_exit]"
  shows "pipe s \<in> {replicate 100 CHR ''1'' @ replicate 100 CHR ''2'', replicate 100 CHR ''2'' @ replicate 100 CHR ''1''} \<and>
    ((\<forall>n. pick n \<noteq> None) \<longrightarrow> parent_report pick (pipe s) = \<lparr>total = 200, count1 = 100, count2 = 100, in_pipe = pipe s\<rparr>) \<and>
    total (parent_report pick (pipe s)) \<le> 200 \<and> (\<exists>k. in_pipe (parent_report pick (pipe s)) = take k (pipe s))"
proof -
  have "lockf_inv s" by (rule lockf.inv_reachable [OF pipe_main_start [OF assms(1)] assms(2)])
  then have "pipe s \<in> {replicate 100 CHR ''1'' @ replicate 100 CHR ''2'', replicate 100 CHR ''2'' @ replicate 100 CHR ''1''}"
    using assms(3) by (auto simp: lockf_inv_def lockf_pair_def blocks_def letter_def)
  moreover from this have "(\<forall>n. pick n \<noteq> None) \<longrightarrow> parent_report pick (pipe s) = \<lparr>total = 200, count1 = 100, count2 = 100, in_pipe = pipe s\<rparr>"
    by (intro impI parent_report_all) auto
  ultimately show ?thesis using parent_report_prefix by blast
qed

theorem pipe_lockf_report_witness:
  "\<exists>s. pipe_main 71 72 = Inr pipe_start \<and> lockf_trans\<^sup>*\<^sup>* pipe_start s \<and> total (parent_report (\<lambda>n. Some 7) (pipe s)) = 200 \<and>
     count1 (parent_report (\<lambda>n. Some 7) (pipe s)) = 100"
  using lockf_finishes pipe_lockf_report [OF _ lockf_finishes, of 71 72 "\<lambda>n. Some 7"] by (auto simp: lstate_def pipe_main_def)

text \<open>C36. Without \<open>lockf\<close>. The parent still reports 200 characters, 100 of each, but their order is not determined: the
  printed strings are exactly the sequences of 100 letters of each kind.\<close>

theorem pipe_plain_report:
  "{parent_report (\<lambda>n. Some (pick n)) (pipe s) | s. plain_trans\<^sup>*\<^sup>* pipe_start s \<and> children s = [C_exit, C_exit]} =
   {\<lparr>total = 200, count1 = 100, count2 = 100, in_pipe = p\<rparr> | p. ones p = 100 \<and> twos p = 100 \<and> length p = 200}"
  (is "?L = ?R")
proof
  show "?L \<subseteq> ?R"
  proof
    fix x assume "x \<in> ?L"
    then obtain s where s: "x = parent_report (\<lambda>n. Some (pick n)) (pipe s)" "plain_trans\<^sup>*\<^sup>* pipe_start s" "children s = [C_exit, C_exit]" by blast
    then have "plain_inv s" using plain.inv_reachable by blast
    then have "ones (pipe s) = 100" "twos (pipe s) = 100" "length (pipe s) = 200"
      using s(3) by (auto simp: plain_inv_def plain_pair_def ones_def twos_def)
    with s(1) show "x \<in> ?R" using parent_report_all [of "pipe s" "\<lambda>n. Some (pick n)"] by (auto simp: ones_def twos_def)
  qed
  show "?R \<subseteq> ?L"
  proof
    fix x assume "x \<in> ?R"
    then obtain p where p: "x = \<lparr>total = 200, count1 = 100, count2 = 100, in_pipe = p\<rparr>" "ones p = 100" "twos p = 100" "length p = 200" by blast
    have "set p \<subseteq> {CHR ''1'', CHR ''2''}" using only_letters [of p] p by (simp add: ones_def twos_def)
    from plain_complete [OF this p(2,3)] parent_report_all [of p "\<lambda>n. Some (pick n)"] p show "x \<in> ?L"
      by (force simp: ones_def twos_def pstate_def)
  qed
qed

end
