(* ===== verification/Signals.thy ===== *)
theory Signals
  imports OS_Prelude
begin

text \<open>
  The three programs of \<^verbatim>\<open>src/2lab/1\<close>: a parent with two children waits for an interrupt or for five seconds and
  then sends signal 16 to the first child and 17 to the second, which exit. \<open>Lab1\<close> is \<^verbatim>\<open>1-1.c\<close>; in \<open>Lab2\<close>
  (\<^verbatim>\<open>1-2.c\<close>) and \<open>Lab3\<close> (\<^verbatim>\<open>1-3.c\<close>) the children report through a pipe that their handlers are installed; \<open>Lab3\<close>
  waits with \<open>alarm\<close> and \<open>pause\<close>. A signal may arrive between any two statements.

  Signal 16 (SIGSTKFLT) kills a process that has no handler for it; 17 (SIGCHLD) is then ignored. An interrupt goes to
  all three processes; the children inherit the parent's handler for it, so it only ends a \<open>pause\<close>. Handlers restart the
  calls \<open>read\<close> and \<open>wait\<close> that they interrupt, and \<open>sleep\<close> ends early. \<open>fork\<close> may fail and is repeated, and
  the preparation of the parent may fail. Three calls whose results the code looks at are taken to succeed: in the children
  \<open>signal\<close>, which fails for no valid signal number, and \<open>write\<close>, since the pipe has room for their byte and the parent holds its
  other end open; and \<open>kill\<close> in the parent, since a child it has not waited for still has its number.

  This theory has the programs and the invariant of the handshake; \<open>Signals_Props\<close> has the properties.
\<close>

section \<open>Data\<close>

datatype program = Lab1 | Lab2 | Lab3

text \<open>A child: not yet forked; before \<open>signal\<close>; before it reports; before the test of its loop; between the test
  and \<open>pause\<close>; in \<open>pause\<close>; ended.\<close>

datatype kid_pc = Unborn | Install | Report | Check | ToPause | Paused | Exited | Killed int

record kid =
  kpc :: kid_pc
  child_recv_sig :: int

datatype parent_pc =
    Fork1 | Fork2 | AwaitReady
  | Waiting nat
  | PCheck | PToPause | PPaused
  | Tell | Kill1 | Kill2 | Reap | Ended

datatype parent_message = Received_signal | No_signal | Received_interrupt | Received_alarm

record sig_sys =
  ppc :: parent_pc
  parent_recv_sig :: int
  alarm_set :: bool
  ready_count :: nat
  pipe_bytes :: nat
  kid1 :: kid
  kid2 :: kid
  said :: "parent_message option"
  reaped :: "nat list"

definition SIGINT :: int where "SIGINT = 2"
definition SIGQUIT :: int where "SIGQUIT = 3"
definition SIGALRM :: int where "SIGALRM = 14"

section \<open>Signals\<close>

text \<open>The signal the parent sends to a child: its handler stores it, and \<open>pause\<close> returns.\<close>

definition deliver :: "int \<Rightarrow> kid \<Rightarrow> kid" where
  "deliver sig k =
     (case kpc k of
        Unborn \<Rightarrow> k
      | Install \<Rightarrow> if sig = 16 then k\<lparr>kpc := Killed 16\<rparr> else k
      | Exited \<Rightarrow> k
      | Killed g \<Rightarrow> k
      | Paused \<Rightarrow> k\<lparr>child_recv_sig := sig, kpc := Check\<rparr>
      | _ \<Rightarrow> k\<lparr>child_recv_sig := sig\<rparr>)"

text \<open>A signal with the inherited handler does not touch \<open>child_recv_sig\<close>.\<close>

definition interrupt_kid :: "kid \<Rightarrow> kid" where
  "interrupt_kid k = (if kpc k = Paused then k\<lparr>kpc := Check\<rparr> else k)"

definition inter_handler :: "int \<Rightarrow> sig_sys \<Rightarrow> sig_sys" where
  "inter_handler sig s =
     s\<lparr>parent_recv_sig := sig, ppc := (if ppc s = PPaused then PCheck else ppc s)\<rparr>"

section \<open>The children\<close>

definition child_step :: "program \<Rightarrow> kid \<Rightarrow> nat \<Rightarrow> (kid \<times> nat) option" where
  "child_step prog k bytes =
     (case kpc k of
        Install \<Rightarrow> Some (k\<lparr>kpc := (if prog = Lab1 then Check else Report)\<rparr>, bytes)
      | Report \<Rightarrow> Some (k\<lparr>kpc := Check\<rparr>, bytes + 1)
      | Check \<Rightarrow> Some (k\<lparr>kpc := (if child_recv_sig k = 0 then ToPause else Exited)\<rparr>, bytes)
      | ToPause \<Rightarrow> Some (k\<lparr>kpc := Paused\<rparr>, bytes)
      | _ \<Rightarrow> None)"

section \<open>The parent\<close>

definition new_kid :: kid where
  "new_kid = \<lparr>kpc = Install, child_recv_sig = 0\<rparr>"

text \<open>The start of \<open>waiting\<close>, its loop in \<open>Lab1\<close> and \<open>Lab2\<close>, and in \<open>Lab3\<close>.\<close>

definition start_waiting :: "program \<Rightarrow> sig_sys \<Rightarrow> sig_sys" where
  "start_waiting prog s = (if prog = Lab3 then s\<lparr>alarm_set := True, ppc := PCheck\<rparr> else s\<lparr>ppc := Waiting 0\<rparr>)"

definition message :: "program \<Rightarrow> int \<Rightarrow> parent_message" where
  "message prog sig =
     (if prog = Lab3 then (if sig = SIGINT \<or> sig = SIGQUIT then Received_interrupt else Received_alarm)
      else if sig \<noteq> 0 then Received_signal else No_signal)"

definition ended :: "kid \<Rightarrow> bool" where
  "ended k = (case kpc k of Exited \<Rightarrow> True | Killed g \<Rightarrow> True | _ \<Rightarrow> False)"

text \<open>The flag is the outcome of \<open>fork\<close>, and the child that \<open>wait\<close> returns when both have ended. The parent of \<open>Lab2\<close>
  and \<open>Lab3\<close> blocks in \<open>read\<close> while the pipe is empty; a child holds the other end open.\<close>

definition fork_step :: "program \<Rightarrow> bool \<Rightarrow> sig_sys \<Rightarrow> sig_sys" where
  "fork_step prog b s =
     (if \<not> b then s
      else if ppc s = Fork1 then s\<lparr>kid1 := new_kid, ppc := Fork2\<rparr>
      else let s1 = s\<lparr>kid2 := new_kid\<rparr> in if prog = Lab1 then start_waiting prog s1 else s1\<lparr>ppc := AwaitReady\<rparr>)"

definition await_ready :: "program \<Rightarrow> sig_sys \<Rightarrow> sig_sys option" where
  "await_ready prog s =
     (if ready_count s < 2 then
        (if 0 < pipe_bytes s then Some (s\<lparr>ready_count := ready_count s + 1, pipe_bytes := pipe_bytes s - 1\<rparr>) else None)
      else Some (start_waiting prog s))"

definition waiting_step :: "nat \<Rightarrow> sig_sys \<Rightarrow> sig_sys" where
  "waiting_step waited s = s\<lparr>ppc := (if waited < 5 \<and> parent_recv_sig s = 0 then Waiting (waited + 1) else Tell)\<rparr>"

definition reap_step :: "bool \<Rightarrow> sig_sys \<Rightarrow> sig_sys option" where
  "reap_step b s =
     (if b \<and> ended (kid1 s) \<and> 1 \<notin> set (reaped s) then Some (s\<lparr>reaped := reaped s @ [1]\<rparr>)
      else if \<not> b \<and> ended (kid2 s) \<and> 2 \<notin> set (reaped s) then Some (s\<lparr>reaped := reaped s @ [2]\<rparr>)
      else if 1 \<in> set (reaped s) \<and> 2 \<in> set (reaped s) then Some (s\<lparr>ppc := Ended\<rparr>)
      else None)"

definition parent_step :: "program \<Rightarrow> bool \<Rightarrow> sig_sys \<Rightarrow> sig_sys option" where
  "parent_step prog b s =
     (case ppc s of
        Fork1 \<Rightarrow> Some (fork_step prog b s)
      | Fork2 \<Rightarrow> Some (fork_step prog b s)
      | AwaitReady \<Rightarrow> await_ready prog s
      | Waiting waited \<Rightarrow> Some (waiting_step waited s)
      | PCheck \<Rightarrow> Some (s\<lparr>ppc := (if parent_recv_sig s = 0 then PToPause else Tell)\<rparr>)
      | PToPause \<Rightarrow> Some (s\<lparr>ppc := PPaused\<rparr>)
      | PPaused \<Rightarrow> None
      | Tell \<Rightarrow> Some (s\<lparr>said := Some (message prog (parent_recv_sig s)), ppc := Kill1\<rparr>)
      | Kill1 \<Rightarrow> Some (s\<lparr>kid1 := deliver 16 (kid1 s), ppc := Kill2\<rparr>)
      | Kill2 \<Rightarrow> Some (s\<lparr>kid2 := deliver 17 (kid2 s), ppc := Reap\<rparr>)
      | Reap \<Rightarrow> reap_step b s
      | Ended \<Rightarrow> None)"

lemmas parent_defs = parent_step_def fork_step_def await_ready_def waiting_step_def reap_step_def

section \<open>The system\<close>

datatype sig_action = Parent bool | Child1 | Child2 | Interrupt int | Alarm_fires

definition sig_step :: "program \<Rightarrow> sig_action \<Rightarrow> sig_sys \<Rightarrow> sig_sys option" where
  "sig_step prog a s =
     (case a of
        Parent b \<Rightarrow> parent_step prog b s
      | Child1 \<Rightarrow> map_option (\<lambda>(k, n). s\<lparr>kid1 := k, pipe_bytes := n\<rparr>) (child_step prog (kid1 s) (pipe_bytes s))
      | Child2 \<Rightarrow> map_option (\<lambda>(k, n). s\<lparr>kid2 := k, pipe_bytes := n\<rparr>) (child_step prog (kid2 s) (pipe_bytes s))
      | Interrupt sig \<Rightarrow>
          if sig = SIGINT \<or> sig = SIGQUIT
          then Some ((inter_handler sig s)\<lparr>kid1 := interrupt_kid (kid1 s), kid2 := interrupt_kid (kid2 s)\<rparr>) else None
      | Alarm_fires \<Rightarrow> if alarm_set s then Some (inter_handler SIGALRM (s\<lparr>alarm_set := False\<rparr>)) else None)"

definition unborn_kid :: kid where
  "unborn_kid = \<lparr>kpc = Unborn, child_recv_sig = 0\<rparr>"

definition sig_start :: sig_sys where
  "sig_start = \<lparr>ppc = Fork1, parent_recv_sig = 0, alarm_set = False, ready_count = 0, pipe_bytes = 0,
     kid1 = unborn_kid, kid2 = unborn_kid, said = None, reaped = []\<rparr>"

text \<open>\<open>main\<close> returns 1 when a call that prepares the parent fails: the pipe, which \<open>Lab1\<close> does not have, or one of the
  handlers, of which only \<open>Lab3\<close> has one for \<open>SIGALRM\<close>.\<close>

definition sig_main :: "program \<Rightarrow> bool \<Rightarrow> bool \<Rightarrow> bool \<Rightarrow> bool \<Rightarrow> int + sig_sys" where
  "sig_main prog pipe_ok int_ok quit_ok alarm_ok =
     (if prog \<noteq> Lab1 \<and> \<not> pipe_ok then Inl 1
      else if \<not> int_ok then Inl 1
      else if \<not> quit_ok then Inl 1
      else if prog = Lab3 \<and> \<not> alarm_ok then Inl 1
      else Inr sig_start)"

lemma sig_main_start: "sig_main prog p i q a = Inr s \<Longrightarrow> s = sig_start"
  by (auto simp: sig_main_def split: if_splits)

inductive sig_trans :: "program \<Rightarrow> sig_sys \<Rightarrow> sig_sys \<Rightarrow> bool" for prog where
  sig_trans: "sig_step prog a s = Some s' \<Longrightarrow> sig_trans prog s s'"

inductive_cases sig_transE: "sig_trans prog s s'"

fun sig_exec :: "program \<Rightarrow> sig_action list \<Rightarrow> sig_sys \<Rightarrow> sig_sys option" where
  "sig_exec prog [] s = Some s"
| "sig_exec prog (a # as) s = (case sig_step prog a s of None \<Rightarrow> None | Some s' \<Rightarrow> sig_exec prog as s')"

lemma sig_exec_reach: "sig_exec prog as s = Some s' \<Longrightarrow> (sig_trans prog)\<^sup>*\<^sup>* s s'"
proof (induction as arbitrary: s)
  case (Cons a as)
  then obtain s1 where "sig_step prog a s = Some s1" "sig_exec prog as s1 = Some s'" by (auto split: option.splits)
  with Cons.IH show ?case by (meson converse_rtranclp_into_rtranclp sig_trans)
qed simp

section \<open>The invariant of the handshake\<close>

definition reported :: "kid \<Rightarrow> bool" where
  "reported k \<longleftrightarrow> kpc k \<notin> {Unborn, Install, Report}"

definition reports :: "kid \<Rightarrow> nat" where
  "reports k = (if reported k then 1 else 0)"

fun after_ready :: "parent_pc \<Rightarrow> bool" where
  "after_ready Fork1 = False"
| "after_ready Fork2 = False"
| "after_ready AwaitReady = False"
| "after_ready p = True"

text \<open>A child that has not been sent its signal has received none and has not ended; one that has been sent it has received it.\<close>

definition kid_ok :: "int \<Rightarrow> bool \<Rightarrow> kid \<Rightarrow> bool" where
  "kid_ok sig sent k \<longleftrightarrow> child_recv_sig k = (if sent then sig else 0) \<and> (\<forall>g. kpc k \<noteq> Killed g) \<and> (kpc k = Exited \<longrightarrow> sent)"

definition sig_inv :: "sig_sys \<Rightarrow> bool" where
  "sig_inv s \<longleftrightarrow>
     kid_ok 16 (ppc s \<in> {Kill2, Reap, Ended}) (kid1 s) \<and> kid_ok 17 (ppc s \<in> {Reap, Ended}) (kid2 s) \<and>
     ready_count s + pipe_bytes s = reports (kid1 s) + reports (kid2 s) \<and>
     (after_ready (ppc s) \<longrightarrow> reported (kid1 s) \<and> reported (kid2 s)) \<and>
     (ppc s = Fork1 \<longrightarrow> kpc (kid1 s) = Unborn) \<and> (ppc s \<in> {Fork1, Fork2} \<longrightarrow> kpc (kid2 s) = Unborn) \<and>
     (1 \<in> set (reaped s) \<longrightarrow> kpc (kid1 s) = Exited) \<and> (2 \<in> set (reaped s) \<longrightarrow> kpc (kid2 s) = Exited) \<and>
     (ppc s = Ended \<longrightarrow> 1 \<in> set (reaped s) \<and> 2 \<in> set (reaped s))"

lemma child_step_ok:
  assumes "kid_ok sig sent k" and "sig \<noteq> 0" and "prog \<noteq> Lab1" and "child_step prog k n = Some (k', n')"
  shows "kid_ok sig sent k'" and "n' + reports k = n + reports k'"
    and "reported k \<longrightarrow> reported k'" and "kpc k \<noteq> Unborn" and "kpc k \<noteq> Exited"
  using assms by (auto simp: child_step_def kid_ok_def reported_def reports_def split: kid_pc.splits if_splits)

lemma interrupt_ok [simp]:
  "kid_ok sig sent (interrupt_kid k) = kid_ok sig sent k" "reported (interrupt_kid k) = reported k" "reports (interrupt_kid k) = reports k"
  "kpc (interrupt_kid k) = Unborn \<longleftrightarrow> kpc k = Unborn" "kpc (interrupt_kid k) = Exited \<longleftrightarrow> kpc k = Exited"
  by (auto simp: interrupt_kid_def kid_ok_def reported_def reports_def)

lemma deliver_ok:
  assumes "kid_ok sig False k" and "reported k"
  shows "kid_ok sig True (deliver sig k)" and "reported (deliver sig k)" and "reports (deliver sig k) = reports k"
  using assms by (cases "kpc k"; simp add: deliver_def kid_ok_def reported_def reports_def)+

lemma new_kid_ok: "kid_ok sig False new_kid" "\<not> reported new_kid" "reports new_kid = 0" "kpc new_kid = Install"
  by (simp_all add: kid_ok_def reported_def reports_def new_kid_def)

lemma unborn_not_reported: "kpc k = Unborn \<Longrightarrow> reports k = 0"
  by (simp add: reported_def reports_def)

lemma ended_ok: "kid_ok sig sent k \<Longrightarrow> ended k \<Longrightarrow> kpc k = Exited"
  by (auto simp: kid_ok_def ended_def split: kid_pc.splits)

lemma handler_inv: "sig_inv s \<Longrightarrow> sig_inv (inter_handler sig s)"
  by (cases "ppc s") (auto simp: sig_inv_def inter_handler_def)

lemma parent_inv:
  assumes inv: "sig_inv s" and prog: "prog \<noteq> Lab1" and step: "parent_step prog b s = Some s'"
  shows "sig_inv s'"
proof (cases "ppc s")
  case Kill1
  have "kid_ok 16 False (kid1 s)" "reported (kid1 s)" using inv Kill1 by (simp_all add: sig_inv_def)
  note d = deliver_ok [OF this]
  have "kpc (kid1 s) \<noteq> Exited" using inv Kill1 by (simp add: sig_inv_def kid_ok_def)
  with Kill1 inv d step show ?thesis by (auto simp: sig_inv_def parent_defs)
next
  case Kill2
  have "kid_ok 17 False (kid2 s)" "reported (kid2 s)" using inv Kill2 by (simp_all add: sig_inv_def)
  note d = deliver_ok [OF this]
  have "kpc (kid2 s) \<noteq> Exited" using inv Kill2 by (simp add: sig_inv_def kid_ok_def)
  with Kill2 inv d step show ?thesis by (auto simp: sig_inv_def parent_defs)
next
  case Fork1
  then have "s' = (if b then s\<lparr>kid1 := new_kid, ppc := Fork2\<rparr> else s)" using step by (cases b) (simp_all add: parent_defs)
  with Fork1 inv new_kid_ok unborn_not_reported [of "kid1 s"] show ?thesis by (cases b) (auto simp: sig_inv_def)
next
  case Fork2
  then have "s' = (if b then s\<lparr>kid2 := new_kid, ppc := AwaitReady\<rparr> else s)"
    using step prog by (cases b) (simp_all add: parent_defs Let_def)
  with Fork2 inv new_kid_ok unborn_not_reported [of "kid2 s"] show ?thesis by (cases b) (auto simp: sig_inv_def)
next
  case Reap
  have e: "ended (kid1 s) \<longrightarrow> kpc (kid1 s) = Exited" "ended (kid2 s) \<longrightarrow> kpc (kid2 s) = Exited"
    using inv ended_ok unfolding sig_inv_def by blast+
  consider "s' = s\<lparr>reaped := reaped s @ [1]\<rparr>" "ended (kid1 s)" | "s' = s\<lparr>reaped := reaped s @ [2]\<rparr>" "ended (kid2 s)"
    | "s' = s\<lparr>ppc := Ended\<rparr>" "1 \<in> set (reaped s)" "2 \<in> set (reaped s)"
    using step Reap by (simp add: parent_defs split: if_splits)
  then show ?thesis using Reap inv e by cases (simp_all add: sig_inv_def)
next
  case AwaitReady
  show ?thesis
  proof (cases "ready_count s < 2")
    case True
    with AwaitReady step have "0 < pipe_bytes s" "s' = s\<lparr>ready_count := ready_count s + 1, pipe_bytes := pipe_bytes s - 1\<rparr>"
      by (auto simp: parent_defs split: if_splits)
    with AwaitReady inv show ?thesis by (cases "pipe_bytes s") (simp_all add: sig_inv_def)
  next
    case False
    moreover have "ready_count s \<le> reports (kid1 s) + reports (kid2 s)" using inv unfolding sig_inv_def by linarith
    ultimately have rep: "reported (kid1 s)" "reported (kid2 s)" by (auto simp: reports_def split: if_splits)
    from False AwaitReady step have "s' = start_waiting prog s" by (simp add: parent_defs)
    with AwaitReady inv rep show ?thesis by (cases "prog = Lab3") (simp_all add: sig_inv_def start_waiting_def)
  qed
qed (use inv step in \<open>auto simp: sig_inv_def parent_defs split: if_splits\<close>)

lemma sig_inv_step:
  assumes inv: "sig_inv s" and prog: "prog \<noteq> Lab1" and step: "sig_step prog a s = Some s'"
  shows "sig_inv s'"
proof (cases a)
  case (Parent b)
  with parent_inv [OF inv prog] step show ?thesis by (simp add: sig_step_def)
next
  case Child1
  then obtain k n where c: "child_step prog (kid1 s) (pipe_bytes s) = Some (k, n)" and s': "s' = s\<lparr>kid1 := k, pipe_bytes := n\<rparr>"
    using step by (auto simp: sig_step_def)
  have ok: "kid_ok 16 (ppc s \<in> {Kill2, Reap, Ended}) (kid1 s)" using inv by (simp add: sig_inv_def)
  note k = child_step_ok [OF ok _ prog c, simplified]
  have "ppc s \<noteq> Ended" using inv k(5) unfolding sig_inv_def by blast
  with k inv s' show ?thesis by (simp add: sig_inv_def)
next
  case Child2
  then obtain k n where c: "child_step prog (kid2 s) (pipe_bytes s) = Some (k, n)" and s': "s' = s\<lparr>kid2 := k, pipe_bytes := n\<rparr>"
    using step by (auto simp: sig_step_def)
  have ok: "kid_ok 17 (ppc s \<in> {Reap, Ended}) (kid2 s)" using inv by (simp add: sig_inv_def)
  note k = child_step_ok [OF ok _ prog c, simplified]
  have "ppc s \<noteq> Ended" using inv k(5) unfolding sig_inv_def by blast
  with k inv s' show ?thesis by (simp add: sig_inv_def)
next
  case (Interrupt sig)
  with step have "s' = (inter_handler sig s)\<lparr>kid1 := interrupt_kid (kid1 s), kid2 := interrupt_kid (kid2 s)\<rparr>"
    by (simp add: sig_step_def split: if_splits)
  with handler_inv [OF inv, of sig] show ?thesis by (simp add: sig_inv_def inter_handler_def)
next
  case Alarm_fires
  have "sig_inv (s\<lparr>alarm_set := False\<rparr>)" using inv by (simp add: sig_inv_def)
  from handler_inv [OF this, of SIGALRM] Alarm_fires step show ?thesis by (auto simp: sig_step_def split: if_splits)
qed

lemma sig_inv_start: "sig_inv sig_start"
  by (simp add: sig_inv_def sig_start_def unborn_kid_def kid_ok_def reported_def reports_def)

interpretation handshake: step_invariant "\<lambda>s. s = sig_start \<and> prog \<noteq> Lab1" "sig_trans prog" "\<lambda>s. sig_inv s \<and> prog \<noteq> Lab1"
  by unfold_locales (auto intro: sig_inv_start sig_inv_step elim!: sig_transE)

end
