(* ===== verification/Signals_Props.thy ===== *)
theory Signals_Props
  imports Signals
begin

text \<open>
  The properties of the signal programs of \<^verbatim>\<open>src/2lab/1\<close>: with the reports through the pipe no signal comes too early and the parent can always
  end; the executions in which a signal is lost.
\<close>

section \<open>The parent can always end\<close>

text \<open>After its \<open>fork\<close> a child exists.\<close>

definition born :: "sig_sys \<Rightarrow> bool" where
  "born s \<longleftrightarrow> (ppc s \<noteq> Fork1 \<longrightarrow> kpc (kid1 s) \<noteq> Unborn) \<and> (ppc s \<notin> {Fork1, Fork2} \<longrightarrow> kpc (kid2 s) \<noteq> Unborn)"

lemma deliver_born [simp]: "kpc (deliver sig k) = Unborn \<longleftrightarrow> kpc k = Unborn"
  by (cases "kpc k") (simp_all add: deliver_def)

lemma child_born: "child_step prog k n = Some (k', n') \<Longrightarrow> kpc k' \<noteq> Unborn"
  by (cases "kpc k") (auto simp: child_step_def split: if_splits)

lemma parent_born:
  assumes "born s" and "parent_step prog b s = Some s'"
  shows "born s'"
  using assms
  by (cases "ppc s") (auto simp: born_def parent_defs new_kid_def start_waiting_def Let_def split: if_splits)

lemma born_step:
  assumes "born s" and step: "sig_step prog a s = Some s'"
  shows "born s'"
proof (cases a)
  case (Parent b)
  with assms parent_born show ?thesis by (simp add: sig_step_def)
next
  case (Interrupt sig)
  with assms show ?thesis by (auto simp: born_def sig_step_def inter_handler_def split: if_splits)
next
  case Alarm_fires
  with assms show ?thesis by (auto simp: born_def sig_step_def inter_handler_def split: if_splits)
qed (use assms child_born in \<open>auto simp: born_def sig_step_def\<close>)

interpretation births: step_invariant "\<lambda>s. s = sig_start" "sig_trans prog" born
proof unfold_locales
  show "born s" if "s = sig_start" for s using that by (simp add: born_def sig_start_def)
  show "born s'" if "born s" "sig_trans prog s s'" for s s' using that by (auto intro: born_step elim!: sig_transE)
qed

text \<open>What is left to do: most of all for the parent, then the reports, the children and the waits. A \<open>pause\<close> ends by an interrupt.\<close>

fun kid_left :: "kid_pc \<Rightarrow> nat" where
  "kid_left Install = 6"
| "kid_left Report = 5"
| "kid_left ToPause = 3"
| "kid_left Paused = 2"
| "kid_left Check = 1"
| "kid_left p = 0"

fun parent_left :: "parent_pc \<Rightarrow> int \<Rightarrow> nat" where
  "parent_left Fork1 sig = 16"
| "parent_left Fork2 sig = 15"
| "parent_left AwaitReady sig = 14"
| "parent_left (Waiting w) sig = 8 + (5 - w)"
| "parent_left PCheck sig = (if sig = 0 then 10 else 7)"
| "parent_left PToPause sig = 9"
| "parent_left PPaused sig = 8"
| "parent_left Tell sig = 6"
| "parent_left Kill1 sig = 5"
| "parent_left Kill2 sig = 4"
| "parent_left Reap sig = 3"
| "parent_left Ended sig = 0"

definition unreaped :: "nat list \<Rightarrow> nat" where
  "unreaped ws = (if 1 \<in> set ws then 0 else 1) + (if 2 \<in> set ws then 0 else 1)"

definition work_left :: "sig_sys \<Rightarrow> nat" where
  "work_left s = 100 * parent_left (ppc s) (parent_recv_sig s) + 20 * (2 - ready_count s) +
     kid_left (kpc (kid1 s)) + kid_left (kpc (kid2 s)) +
     unreaped (reaped s)"

definition can_move :: "program \<Rightarrow> sig_sys \<Rightarrow> bool" where
  "can_move prog s \<longleftrightarrow> (\<exists>a s'. sig_step prog a s = Some s' \<and> work_left s' < work_left s)"

lemma can_moveI: "(case sig_step prog a s of None \<Rightarrow> False | Some s' \<Rightarrow> work_left s' < work_left s) \<Longrightarrow> can_move prog s"
  by (auto simp: can_move_def split: option.splits)

lemma kid_left_bounds: "kid_left p \<le> 6" "kid_left (kpc (deliver sig k)) \<le> kid_left (kpc k)" "kid_left (kpc (interrupt_kid k)) \<le> kid_left (kpc k)"
proof -
  show "kid_left p \<le> 6" by (cases p) simp_all
  show "kid_left (kpc (deliver sig k)) \<le> kid_left (kpc k)" by (cases "kpc k") (simp_all add: deliver_def)
  show "kid_left (kpc (interrupt_kid k)) \<le> kid_left (kpc k)" by (simp add: interrupt_kid_def)
qed

lemma await_move:
  assumes inv: "sig_inv s" and b: "born s" and prog: "prog \<noteq> Lab1" and pc: "ppc s = AwaitReady"
  shows "can_move prog s"
proof (cases "ready_count s < 2")
  case False
  with pc show ?thesis
    by (cases "prog = Lab3"; intro can_moveI [where a = "Parent True"])
      (simp_all add: sig_step_def parent_defs start_waiting_def work_left_def)
next
  case few: True
  show ?thesis
  proof (cases "0 < pipe_bytes s")
    case True
    with few pc show ?thesis
      by (intro can_moveI [where a = "Parent True"]) (simp add: sig_step_def parent_defs work_left_def)
  next
    case False
    with inv few have "reports (kid1 s) + reports (kid2 s) < 2" by (simp add: sig_inv_def)
    then have "kpc (kid1 s) \<in> {Install, Report} \<or> kpc (kid2 s) \<in> {Install, Report}"
      using b pc by (auto simp: reports_def reported_def born_def split: if_splits)
    then show ?thesis
    proof
      assume "kpc (kid1 s) \<in> {Install, Report}"
      with prog show ?thesis
        by (auto intro!: can_moveI [where a = Child1] simp: sig_step_def child_step_def work_left_def)
    next
      assume "kpc (kid2 s) \<in> {Install, Report}"
      with prog show ?thesis
        by (auto intro!: can_moveI [where a = Child2] simp: sig_step_def child_step_def work_left_def)
    qed
  qed
qed

lemma reap_move:
  assumes inv: "sig_inv s" and pc: "ppc s = Reap"
  shows "can_move prog s"
proof -
  have r: "child_recv_sig (kid1 s) = 16" "child_recv_sig (kid2 s) = 17" using inv pc by (auto simp: sig_inv_def kid_ok_def)
  have "kpc (kid1 s) \<in> {Check, ToPause, Paused, Exited}" "kpc (kid2 s) \<in> {Check, ToPause, Paused, Exited}"
    using inv pc by (cases "kpc (kid1 s)"; cases "kpc (kid2 s)"; simp add: sig_inv_def kid_ok_def reported_def)+
  then consider "kpc (kid1 s) \<in> {Check, ToPause}" | "kpc (kid2 s) \<in> {Check, ToPause}"
    | "kpc (kid1 s) = Paused \<or> kpc (kid2 s) = Paused" | "kpc (kid1 s) = Exited" "kpc (kid2 s) = Exited" by blast
  then show ?thesis
  proof cases
    case 1
    with r show ?thesis by (auto intro!: can_moveI [where a = Child1] simp: sig_step_def child_step_def work_left_def)
  next
    case 2
    with r show ?thesis by (auto intro!: can_moveI [where a = Child2] simp: sig_step_def child_step_def work_left_def)
  next
    case 3
    then have "kid_left (kpc (interrupt_kid (kid1 s))) + kid_left (kpc (interrupt_kid (kid2 s))) < kid_left (kpc (kid1 s)) + kid_left (kpc (kid2 s))"
      by (auto simp: interrupt_kid_def)
    with pc show ?thesis
      by (intro can_moveI [where a = "Interrupt SIGINT"]) (simp add: sig_step_def inter_handler_def work_left_def)
  next
    case 4
    then have "ended (kid1 s)" "ended (kid2 s)" by (simp_all add: ended_def)
    with pc show ?thesis
      by (intro can_moveI [where a = "Parent (1 \<notin> set (reaped s))"]) (auto simp: sig_step_def parent_defs work_left_def unreaped_def)
  qed
qed

lemma pause_move:
  assumes "ppc s = PPaused"
  shows "can_move prog s"
  using assms kid_left_bounds(3) [of "kid1 s"] kid_left_bounds(3) [of "kid2 s"]
  by (intro can_moveI [where a = "Interrupt SIGINT"]) (simp add: sig_step_def inter_handler_def work_left_def SIGINT_def)

lemma parent_moves:
  assumes "ppc s \<notin> {AwaitReady, Reap, PPaused, Ended}" and "prog \<noteq> Lab1"
  shows "can_move prog s"
  using assms kid_left_bounds(2) [of 16 "kid1 s"] kid_left_bounds(2) [of 17 "kid2 s"]
  by (cases "ppc s"; intro can_moveI [where a = "Parent True"])
    (simp_all add: sig_step_def parent_defs work_left_def new_kid_def Let_def, arith)

lemma parent_can_end:
  assumes "sig_inv s" and "born s" and prog: "prog \<noteq> Lab1"
  shows "\<exists>s'. (sig_trans prog)\<^sup>*\<^sup>* s s' \<and> ppc s' = Ended"
  using assms(1,2)
proof (induction "work_left s" arbitrary: s rule: less_induct)
  case less
  show ?case
  proof (cases "ppc s = Ended")
    case False
    have "can_move prog s"
      using await_move [OF less.prems prog] reap_move [OF less.prems(1)] pause_move parent_moves [OF _ prog] False by blast
    then obtain a s1 where s1: "sig_step prog a s = Some s1" "work_left s1 < work_left s" by (auto simp: can_move_def)
    from less.hyps [OF s1(2) sig_inv_step [OF less.prems(1) prog s1(1)] born_step [OF less.prems(2) s1(1)]]
    show ?thesis using s1(1) by (meson converse_rtranclp_into_rtranclp sig_trans)
  qed blast
qed

section \<open>Executions\<close>

text \<open>A second child that is slow: the parent has sent both signals before it installs its handler.\<close>

definition slow_child :: "sig_action list" where
  "slow_child = [Parent True, Child1, Child1, Child1, Parent True] @ replicate 9 (Parent True)"

definition doomed :: "sig_sys \<Rightarrow> bool" where
  "doomed s \<longleftrightarrow> ppc s = Reap \<and> child_recv_sig (kid2 s) = 0 \<and> kpc (kid2 s) \<in> {Install, Report, Check, ToPause, Paused} \<and> 2 \<notin> set (reaped s)"

lemma doomed_step: "doomed s \<Longrightarrow> sig_step prog a s = Some s' \<Longrightarrow> doomed s'"
  by (cases a)
    (auto simp: doomed_def sig_step_def parent_defs child_step_def ended_def inter_handler_def interrupt_kid_def
      split: if_splits kid_pc.splits)

interpretation doom: step_invariant doomed "sig_trans prog" doomed
  by unfold_locales (auto intro: doomed_step elim!: sig_transE)

lemma slow_child_doomed: "\<exists>s. sig_exec Lab1 slow_child sig_start = Some s \<and> doomed s"
  by (simp add: slow_child_def numeral_eq_Suc sig_step_def parent_defs child_step_def sig_start_def unborn_kid_def new_kid_def
      start_waiting_def deliver_def doomed_def)

text \<open>Both children have reported; the first has tested \<open>child_recv_sig\<close> and not yet called \<open>pause\<close> when its signal arrives.\<close>

definition late_pause :: "sig_action list" where
  "late_pause = [Parent True, Parent True, Child1, Child1, Child1, Child2, Child2, Child2, Child2] @ replicate 12 (Parent True) @
     [Child1, Child2, Parent False]"

lemma late_pause_state:
  "\<exists>s. sig_exec Lab2 late_pause sig_start = Some s \<and> ppc s = Reap \<and> kpc (kid1 s) = Paused \<and> child_recv_sig (kid1 s) = 16 \<and>
     kpc (kid2 s) = Exited \<and> reaped s = [2] \<and> \<not> alarm_set s"
  by (simp add: late_pause_def numeral_eq_Suc sig_step_def parent_defs child_step_def sig_start_def unborn_kid_def new_kid_def
      start_waiting_def deliver_def message_def ended_def)

section \<open>Properties\<close>

text \<open>C11. The handshake. In every execution of the second and third program no child is killed by its signal, both have
  received theirs once the parent waits for them, and when the parent ends both have exited and been waited for. Whenever
  the parent may send its signals both handlers are installed. And from every state the parent can still end, perhaps with the
  help of an interrupt.\<close>

theorem signals_handshake:
  assumes "prog \<noteq> Lab1" and "sig_main prog p i q a = Inr s0" and "(sig_trans prog)\<^sup>*\<^sup>* s0 s"
  shows "(\<forall>g. kpc (kid1 s) \<noteq> Killed g \<and> kpc (kid2 s) \<noteq> Killed g) \<and>
    (ppc s \<in> {Kill1, Kill2} \<longrightarrow> reported (kid1 s) \<and> reported (kid2 s)) \<and>
    (ppc s \<in> {Reap, Ended} \<longrightarrow> child_recv_sig (kid1 s) = 16 \<and> child_recv_sig (kid2 s) = 17) \<and>
    (ppc s = Ended \<longrightarrow> kpc (kid1 s) = Exited \<and> kpc (kid2 s) = Exited \<and> {1, 2} \<subseteq> set (reaped s)) \<and>
    (\<exists>s'. (sig_trans prog)\<^sup>*\<^sup>* s s' \<and> ppc s' = Ended)"
proof -
  have s0: "s0 = sig_start" by (rule sig_main_start [OF assms(2)])
  then have inv: "sig_inv s" using handshake.inv_reachable [of s0 prog s] assms(1,3) by simp
  moreover have "\<exists>s'. (sig_trans prog)\<^sup>*\<^sup>* s s' \<and> ppc s' = Ended"
    by (rule parent_can_end [OF inv births.inv_reachable [OF s0 assms(3)] assms(1)])
  ultimately show ?thesis by (auto simp: sig_inv_def kid_ok_def)
qed

theorem signals_handshake_witness:
  "\<exists>s. (sig_trans Lab2)\<^sup>*\<^sup>* sig_start s \<and> ppc s = Reap \<and> child_recv_sig (kid1 s) = 16 \<and> child_recv_sig (kid2 s) = 17"
proof -
  obtain s where s: "sig_exec Lab2 late_pause sig_start = Some s" "ppc s = Reap" using late_pause_state by blast
  then have "(sig_trans Lab2)\<^sup>*\<^sup>* sig_start s" by (simp add: sig_exec_reach)
  with signals_handshake [of Lab2 True True True True sig_start s] s show ?thesis by (auto simp: sig_main_def)
qed

text \<open>C37. Lost signals. The first program may send signal 17 before the second child has installed its handler; the signal is
  ignored, and whatever happens afterwards the parent never ends. In the second program a signal that arrives between the test of
  \<open>child_recv_sig\<close> and \<open>pause\<close> leaves the child asleep although it has received it: without an interrupt from
  the user no process can take a step.\<close>

theorem signals_lost:
  "(\<exists>s. (sig_trans Lab1)\<^sup>*\<^sup>* sig_start s \<and> (\<nexists>s'. (sig_trans Lab1)\<^sup>*\<^sup>* s s' \<and> ppc s' = Ended)) \<and>
   (\<exists>s. (sig_trans Lab2)\<^sup>*\<^sup>* sig_start s \<and> ppc s = Reap \<and> child_recv_sig (kid1 s) = 16 \<and> kpc (kid1 s) = Paused \<and>
      {a. sig_step Lab2 a s \<noteq> None} = {Interrupt SIGINT, Interrupt SIGQUIT})"
proof
  obtain s where s: "sig_exec Lab1 slow_child sig_start = Some s" "doomed s" using slow_child_doomed by blast
  have "\<nexists>s'. (sig_trans Lab1)\<^sup>*\<^sup>* s s' \<and> ppc s' = Ended" using doom.inv_reachable [OF s(2)] by (fastforce simp: doomed_def)
  with sig_exec_reach [OF s(1)] show "\<exists>s. (sig_trans Lab1)\<^sup>*\<^sup>* sig_start s \<and> (\<nexists>s'. (sig_trans Lab1)\<^sup>*\<^sup>* s s' \<and> ppc s' = Ended)" by blast
  obtain s where s: "sig_exec Lab2 late_pause sig_start = Some s" "ppc s = Reap" "kpc (kid1 s) = Paused" "child_recv_sig (kid1 s) = 16"
    "kpc (kid2 s) = Exited" "reaped s = [2]" "\<not> alarm_set s" using late_pause_state by blast
  have "sig_step Lab2 a s \<noteq> None \<longleftrightarrow> a \<in> {Interrupt SIGINT, Interrupt SIGQUIT}" for a
    using s(2-7) by (cases a) (auto simp: sig_step_def parent_defs child_step_def ended_def)
  with sig_exec_reach [OF s(1)] s(2-4) show "\<exists>s. (sig_trans Lab2)\<^sup>*\<^sup>* sig_start s \<and> ppc s = Reap \<and> child_recv_sig (kid1 s) = 16 \<and>
      kpc (kid1 s) = Paused \<and> {a. sig_step Lab2 a s \<noteq> None} = {Interrupt SIGINT, Interrupt SIGQUIT}"
    by (intro exI [of _ s]) blast
qed

end
