(* ===== verification/Syscall.thy ===== *)
theory Syscall
  imports OS_Prelude
begin

unbundle bit_operations_syntax

text \<open>
  The module that replaces system call 96 (\<^verbatim>\<open>src/3lab/modify_syscall/modify_syscall.c\<close>), the module that shows its
  table entry (\<^verbatim>\<open>src/3lab/check/check_syscall_entry.c\<close>) and the two user programs that call it. Addresses and
  entries are 64-bit words, memory maps addresses to words. Which addresses are mapped and which pages are read-only is part of
  the machine: every access to an unmapped address faults, and a write to a read-only page does while bit 16 of \<open>CR0\<close> is set.
  A fault in the kernel, which ends the run, is \<open>None\<close>. The address of \<open>hello\<close> and the code
  at the other addresses are arguments.
\<close>

section \<open>The machine\<close>

type_synonym ulong = "64 word"

record machine =
  mem :: "ulong \<Rightarrow> ulong"
  mapped :: "ulong \<Rightarrow> bool"
  read_only :: "ulong \<Rightarrow> bool"
  cr0 :: ulong

definition SYS_NO :: ulong where "SYS_NO = 96"
definition WP_BIT :: ulong where "WP_BIT = 0x00010000"

definition kread :: "ulong \<Rightarrow> machine \<Rightarrow> ulong option" where
  "kread a m = (if mapped m a then Some (mem m a) else None)"

definition kwrite :: "ulong \<Rightarrow> ulong \<Rightarrow> machine \<Rightarrow> machine option" where
  "kwrite a v m =
     (if \<not> mapped m a \<or> cr0 m AND WP_BIT \<noteq> 0 \<and> read_only m a then None else Some (m\<lparr>mem := (mem m)(a := v)\<rparr>))"

section \<open>\<open>modify_syscall.c\<close>\<close>

record syscall_module =
  old_sys_call_func :: ulong
  p_sys_call_table :: ulong

definition module_start :: syscall_module where
  "module_start = \<lparr>old_sys_call_func = 0, p_sys_call_table = 0xffffffff964002c0\<rparr>"

definition clear_wp :: "machine \<Rightarrow> ulong \<times> machine" where
  "clear_wp m = (cr0 m, m\<lparr>cr0 := cr0 m AND NOT WP_BIT\<rparr>)"

definition restore_wp :: "ulong \<Rightarrow> machine \<Rightarrow> machine" where
  "restore_wp old m = m\<lparr>cr0 := old\<rparr>"

text \<open>An \<open>int\<close> is a 32-bit word: the sum of two arguments whose sum is no \<open>int\<close> is undefined in C.\<close>

definition hello :: "32 word \<Rightarrow> 32 word \<Rightarrow> 32 word" where
  "hello a b = a + b"

definition EINVAL :: int where "EINVAL = 22"

definition sys_call_addr :: "ulong \<Rightarrow> ulong" where
  "sys_call_addr table = table + SYS_NO * 8"

definition modify_syscall :: "ulong \<Rightarrow> syscall_module \<Rightarrow> machine \<Rightarrow> (int \<times> syscall_module \<times> machine) option" where
  "modify_syscall hello_addr k m =
     (if p_sys_call_table k = 0 then Some (- EINVAL, k, m)
      else
        let addr = sys_call_addr (p_sys_call_table k) in
        do { old \<leftarrow> kread addr m;
             let (oldcr0, m1) = clear_wp m;
             m2 \<leftarrow> kwrite addr hello_addr m1;
             Some (0, k\<lparr>old_sys_call_func := old\<rparr>, restore_wp oldcr0 m2) })"

definition restore_syscall :: "syscall_module \<Rightarrow> machine \<Rightarrow> machine option" where
  "restore_syscall k m =
     (if p_sys_call_table k = 0 \<or> old_sys_call_func k = 0 then Some m
      else
        let addr = sys_call_addr (p_sys_call_table k);
            (oldcr0, m1) = clear_wp m
        in do { m2 \<leftarrow> kwrite addr (old_sys_call_func k) m1; Some (restore_wp oldcr0 m2) })"

definition mymodule_init :: "ulong \<Rightarrow> syscall_module \<Rightarrow> machine \<Rightarrow> (int \<times> syscall_module \<times> machine) option" where
  "mymodule_init hello_addr k m = (case modify_syscall hello_addr k m of None \<Rightarrow> None | Some (r, k1, m1) \<Rightarrow> Some (0, k1, m1))"

definition mymodule_exit :: "syscall_module \<Rightarrow> machine \<Rightarrow> machine option" where
  "mymodule_exit k m = restore_syscall k m"

section \<open>\<open>check_syscall_entry.c\<close>\<close>

text \<open>The two lines of \<open>/proc/syscall96\<close>: the table, and the entry with its address unless no table was given.\<close>

definition show_syscall_entry :: "ulong \<Rightarrow> machine \<Rightarrow> (ulong \<times> (ulong \<times> ulong) option) option" where
  "show_syscall_entry table m =
     (if table = 0 then Some (table, None)
      else do { entry \<leftarrow> kread (sys_call_addr table) m; Some (table, Some (sys_call_addr table, entry)) })"

definition chk_init :: "bool \<Rightarrow> int \<times> bool" where
  "chk_init created = (if \<not> created then (- 12, False) else (0, True))"

definition chk_exit :: "bool \<Rightarrow> bool" where
  "chk_exit live = False"

section \<open>The user programs\<close>

text \<open>The kernel looks the number up in its own \<open>table\<close> and calls the code at the entry with the first two arguments, which is what
  the parameters of \<open>hello\<close> rely on (newer kernels pass the saved registers). \<open>code\<close> is the code of the kernel but for \<open>hello\<close>.\<close>

definition call_entry :: "(ulong \<Rightarrow> 32 word \<Rightarrow> 32 word \<Rightarrow> int) \<Rightarrow> ulong \<Rightarrow> ulong \<Rightarrow> machine \<Rightarrow> 32 word \<Rightarrow> 32 word \<Rightarrow> int" where
  "call_entry code hello_addr table m a b =
     (let entry = mem m (sys_call_addr table)
      in if entry = hello_addr then sint (hello a b) else code entry a b)"

definition modify_new_main :: "(ulong \<Rightarrow> 32 word \<Rightarrow> 32 word \<Rightarrow> int) \<Rightarrow> ulong \<Rightarrow> ulong \<Rightarrow> machine \<Rightarrow> int" where
  "modify_new_main code hello_addr table m = call_entry code hello_addr table m 10 20"

section \<open>Replacing and restoring\<close>

lemma wp_cleared: "(c AND NOT WP_BIT) AND WP_BIT = 0"
  by (simp add: WP_BIT_def bit_eq_iff bit_simps)

lemma modify_syscall_ok:
  "p_sys_call_table k \<noteq> 0 \<Longrightarrow> mapped m (sys_call_addr (p_sys_call_table k)) \<Longrightarrow> modify_syscall h k m =
     Some (0, k\<lparr>old_sys_call_func := mem m (sys_call_addr (p_sys_call_table k))\<rparr>,
           m\<lparr>mem := (mem m)(sys_call_addr (p_sys_call_table k) := h)\<rparr>)"
  by (simp add: modify_syscall_def clear_wp_def kread_def kwrite_def restore_wp_def wp_cleared Let_def)

lemma restore_syscall_ok:
  "p_sys_call_table k \<noteq> 0 \<Longrightarrow> mapped m (sys_call_addr (p_sys_call_table k)) \<Longrightarrow> old_sys_call_func k \<noteq> 0 \<Longrightarrow>
   restore_syscall k m = Some (m\<lparr>mem := (mem m)(sys_call_addr (p_sys_call_table k) := old_sys_call_func k)\<rparr>)"
  by (simp add: restore_syscall_def clear_wp_def kwrite_def restore_wp_def wp_cleared Let_def)

text \<open>C13. Replacing and restoring system call 96. When the address of the entry, computed from the table the module was given,
  is mapped and the word there is not 0, loading the module does not fault, read-only page or not, and changes exactly that
  word: the check module shows the address of \<open>hello\<close> there, and unloading brings memory and \<open>CR0\<close> back to what they
  were. If it is the table of the running kernel, the user program gets 30; if it is not, the call is the one it was. An
  address that is not mapped makes loading fault, and the check module too. Without a table loading changes nothing and
  still reports success.\<close>

theorem syscall_replace_restore:
  fixes k m h code table
  defines "addr \<equiv> sys_call_addr (p_sys_call_table k)"
  shows "(p_sys_call_table k \<noteq> 0 \<longrightarrow> mapped m addr \<longrightarrow> mem m addr \<noteq> 0 \<longrightarrow>
      (\<exists>k1 m1. mymodule_init h k m = Some (0, k1, m1) \<and> cr0 m1 = cr0 m \<and>
         mem m1 addr = h \<and> (\<forall>a. a \<noteq> addr \<longrightarrow> mem m1 a = mem m a) \<and>
         show_syscall_entry (p_sys_call_table k) m1 = Some (p_sys_call_table k, Some (addr, h)) \<and>
         (table = p_sys_call_table k \<longrightarrow> modify_new_main code h table m1 = 30) \<and>
         (sys_call_addr table \<noteq> addr \<longrightarrow> modify_new_main code h table m1 = modify_new_main code h table m) \<and>
         mymodule_exit k1 m1 = Some m)) \<and>
   (p_sys_call_table k \<noteq> 0 \<longrightarrow> \<not> mapped m addr \<longrightarrow>
      mymodule_init h k m = None \<and> show_syscall_entry (p_sys_call_table k) m = None) \<and>
   (p_sys_call_table k = 0 \<longrightarrow> mymodule_init h k m = Some (0, k, m))"
proof (cases "p_sys_call_table k = 0")
  case True
  then show ?thesis by (simp add: mymodule_init_def modify_syscall_def)
next
  case False
  let ?k = "k\<lparr>old_sys_call_func := mem m addr\<rparr>" and ?m = "m\<lparr>mem := (mem m)(addr := h)\<rparr>"
  show ?thesis
  proof (cases "mapped m addr")
    case True
    have "mymodule_init h k m = Some (0, ?k, ?m)"
      using False True by (simp add: mymodule_init_def modify_syscall_ok addr_def)
    moreover have "mem m addr \<noteq> 0 \<Longrightarrow> mymodule_exit ?k ?m = Some m"
      using False True by (simp add: mymodule_exit_def restore_syscall_ok addr_def)
    moreover have "table = p_sys_call_table k \<Longrightarrow> modify_new_main code h table ?m = 30"
      by (simp add: modify_new_main_def call_entry_def hello_def addr_def)
    moreover have "sys_call_addr table \<noteq> addr \<Longrightarrow> modify_new_main code h table ?m = modify_new_main code h table m"
      by (simp add: modify_new_main_def call_entry_def)
    moreover have "show_syscall_entry (p_sys_call_table k) ?m = Some (p_sys_call_table k, Some (addr, h))"
      using False True by (simp add: show_syscall_entry_def kread_def addr_def)
    ultimately show ?thesis using False True by auto
  next
    case unmapped: False
    with False show ?thesis
      by (simp add: mymodule_init_def modify_syscall_def show_syscall_entry_def kread_def addr_def)
  qed
qed

theorem syscall_replace_restore_witness:
  "\<exists>k1 m1. mymodule_init 0x1000 module_start
       \<lparr>mem = (\<lambda>a. 7), mapped = (\<lambda>a. a \<ge> 0xffffffff00000000), read_only = (\<lambda>a. True), cr0 = 0x80050033\<rparr> = Some (0, k1, m1) \<and>
     modify_new_main (\<lambda>e a b. 0) 0x1000 0xffffffff964002c0 m1 = 30 \<and>
     mymodule_exit k1 m1 = Some
       \<lparr>mem = (\<lambda>a. 7), mapped = (\<lambda>a. a \<ge> 0xffffffff00000000), read_only = (\<lambda>a. True), cr0 = 0x80050033\<rparr>"
  using syscall_replace_restore [where k = module_start and
      m = "\<lparr>mem = (\<lambda>a. 7), mapped = (\<lambda>a. a \<ge> 0xffffffff00000000), read_only = (\<lambda>a. True), cr0 = 0x80050033\<rparr>"
      and h = "0x1000" and table = "0xffffffff964002c0" and code = "\<lambda>e a b. 0"]
  by (auto simp: module_start_def sys_call_addr_def SYS_NO_def word_le_def)

text \<open>An entry that is 0 is replaced and never restored.\<close>

lemma restore_zero_entry:
  assumes "p_sys_call_table k \<noteq> 0" and "mapped m (sys_call_addr (p_sys_call_table k))"
    and "mem m (sys_call_addr (p_sys_call_table k)) = 0"
  shows "\<exists>k1 m1. mymodule_init h k m = Some (0, k1, m1) \<and> mymodule_exit k1 m1 = Some m1 \<and> mem m1 (sys_call_addr (p_sys_call_table k)) = h"
  using assms by (simp add: mymodule_init_def mymodule_exit_def modify_syscall_ok restore_syscall_def)

end
