(* ===== verification/Processes.thy ===== *)
theory Processes
  imports OS_Prelude
begin

text \<open>
  The fork and execve programs of the first lab: \<^verbatim>\<open>src/1lab/1/1-1.c\<close>, \<^verbatim>\<open>1-2.c\<close>, \<^verbatim>\<open>1-3.c\<close> and the program they execute,
  and the two programs whose threads execute it, \<^verbatim>\<open>src/1lab/2/2-3.c\<close> and \<^verbatim>\<open>2-4.c\<close>. The first three are statements of a
  small language with \<open>fork\<close>, \<open>wait\<close> and \<open>execve\<close>, run by a step function: a process has its own variables, \<open>fork\<close> makes the child a
  copy of the parent, and the two run in any order. A line of output is its text and the number printed in it, and is written
  when it is printed, as on a terminal.
\<close>

section \<open>Programs\<close>

type_synonym line = "string \<times> int"

text \<open>The number of the process, the variables of the programs, and \<open>ret\<close> for the result of \<open>execve\<close>, which the code tests without
  storing it. \<open>val\<close> is the global \<open>value\<close>.\<close>

record vars =
  getpid :: int
  pid :: int
  pid1 :: int
  val :: int
  ret :: int

datatype stmt =
    Fork
  | IfElse "vars \<Rightarrow> bool" "stmt list" "stmt list"
  | Assign "vars \<Rightarrow> vars"
  | Print string "vars \<Rightarrow> int"
  | Wait
  | Execve
  | Return int

definition pids_main :: "stmt list" where
  "pids_main =
     [Fork,
      IfElse (\<lambda>v. pid v < 0) [Print ''Fork Failed'' (\<lambda>v. 0), Return 1]
       [IfElse (\<lambda>v. pid v = 0)
         [Assign (\<lambda>v. v\<lparr>pid1 := getpid v\<rparr>), Print ''child: pid'' pid, Print ''child: pid1'' pid1]
         [Assign (\<lambda>v. v\<lparr>pid1 := getpid v\<rparr>), Print ''parent: pid'' pid, Print ''parent: pid1'' pid1, Wait]],
      Return 0]"

text \<open>\<open>addr\<close> is the address of the variable \<open>value\<close> in the program, the same in both processes.\<close>

definition value_main :: "int \<Rightarrow> stmt list" where
  "value_main addr =
     [Fork,
      IfElse (\<lambda>v. pid v < 0) [Print ''Fork Failed'' (\<lambda>v. 0), Return 1]
       [IfElse (\<lambda>v. pid v = 0)
         [Assign (\<lambda>v. v\<lparr>pid1 := getpid v\<rparr>), Assign (\<lambda>v. v\<lparr>val := val v + 1\<rparr>),
          Print ''child: value'' val, Print ''child: *value'' (\<lambda>v. addr)]
         [Assign (\<lambda>v. v\<lparr>pid1 := getpid v\<rparr>), Assign (\<lambda>v. v\<lparr>val := val v - 1\<rparr>),
          Print ''parent: value'' val, Print ''parent: *value'' (\<lambda>v. addr), Wait]],
      Assign (\<lambda>v. v\<lparr>val := val v + 5\<rparr>),
      IfElse (\<lambda>v. pid v \<noteq> 0) [Print ''parent: before return value'' val] [Print ''child: before return value'' val],
      Return 0]"

definition exec_main :: "stmt list" where
  "exec_main =
     [Fork,
      IfElse (\<lambda>v. pid v < 0) [Print ''Fork Failed'' (\<lambda>v. 0), Return 1]
       [IfElse (\<lambda>v. pid v = 0)
         [Print ''In child process PID'' getpid,
          Execve, IfElse (\<lambda>v. ret v = 0) [Print ''Execve Failed'' (\<lambda>v. 0), Return 1] []]
         [Print ''child process PID'' pid, Print ''parent process PID'' getpid, Wait]],
      Return 0]"

definition system_call_main :: "stmt list" where
  "system_call_main = [Print ''system_call PID'' getpid, Return 0]"

section \<open>Processes\<close>

record proc =
  vars :: vars
  code :: "stmt list"
  status :: "int option"

record os =
  parent :: proc
  child :: "proc option"
  out :: "line list"

text \<open>The number the kernel gives the child, or \<open>None\<close> when \<open>fork\<close> fails, and whether \<open>execve\<close> finds the program.\<close>

record os_env =
  forked :: "int option"
  exec_works :: bool

text \<open>\<open>execve\<close> does not return when it succeeds, and returns -1 when it fails: \<open>None\<close> and \<open>Some (- 1)\<close>.\<close>

definition execve :: "bool \<Rightarrow> int option" where
  "execve ok = (if ok then None else Some (- 1))"

text \<open>What the other process or the terminal sees of a statement.\<close>

datatype event = Printed line | Waited

definition proc_step :: "os_env \<Rightarrow> proc \<Rightarrow> (event option \<times> proc) option" where
  "proc_step env q =
     (if status q \<noteq> None then None
      else case code q of
        [] \<Rightarrow> None
      | Fork # rest \<Rightarrow> None
      | IfElse b xs ys # rest \<Rightarrow> Some (None, q\<lparr>code := (if b (vars q) then xs else ys) @ rest\<rparr>)
      | Assign f # rest \<Rightarrow> Some (None, q\<lparr>vars := f (vars q), code := rest\<rparr>)
      | Print l e # rest \<Rightarrow> Some (Some (Printed (l, e (vars q))), q\<lparr>code := rest\<rparr>)
      | Wait # rest \<Rightarrow> Some (Some Waited, q\<lparr>code := rest\<rparr>)
      | Execve # rest \<Rightarrow>
          (case execve (exec_works env) of
             None \<Rightarrow> Some (None, q\<lparr>code := system_call_main\<rparr>)
           | Some r \<Rightarrow> Some (None, q\<lparr>vars := (vars q)\<lparr>ret := r\<rparr>, code := rest\<rparr>))
      | Return n # rest \<Rightarrow> Some (None, q\<lparr>code := [], status := Some n\<rparr>))"

text \<open>\<open>fork\<close>: the child is a copy of the parent but for its number and the result of the call.\<close>

definition do_fork :: "os_env \<Rightarrow> stmt list \<Rightarrow> os \<Rightarrow> os" where
  "do_fork env rest s =
     (let q = (parent s)\<lparr>code := rest\<rparr> in
      case forked env of
        None \<Rightarrow> s\<lparr>parent := q\<lparr>vars := (vars q)\<lparr>pid := - 1\<rparr>\<rparr>\<rparr>
      | Some c \<Rightarrow> s\<lparr>parent := q\<lparr>vars := (vars q)\<lparr>pid := c\<rparr>\<rparr>,
                     child := Some (q\<lparr>vars := (vars q)\<lparr>pid := 0, getpid := c\<rparr>\<rparr>)\<rparr>)"

definition emit :: "event option \<Rightarrow> os \<Rightarrow> os" where
  "emit e s = (case e of Some (Printed l) \<Rightarrow> s\<lparr>out := out s @ [l]\<rparr> | _ \<Rightarrow> s)"

definition child_ended :: "os \<Rightarrow> bool" where
  "child_ended s \<longleftrightarrow> (case child s of None \<Rightarrow> True | Some q \<Rightarrow> status q \<noteq> None)"

datatype actor = Parent | Child

text \<open>One step of one of the two processes: \<open>None\<close> when it has ended or waits. \<open>wait\<close> blocks the parent until its child
  has ended, and returns at once where there is none.\<close>

definition os_step :: "os_env \<Rightarrow> actor \<Rightarrow> os \<Rightarrow> os option" where
  "os_step env w s =
     (case w of
        Parent \<Rightarrow>
          (case code (parent s) of
             Fork # rest \<Rightarrow> if status (parent s) = None \<and> child s = None then Some (do_fork env rest s) else None
           | _ \<Rightarrow>
             (case proc_step env (parent s) of
                None \<Rightarrow> None
              | Some (e, q) \<Rightarrow>
                  if e = Some Waited \<and> \<not> child_ended s then None else Some (emit e (s\<lparr>parent := q\<rparr>))))
      | Child \<Rightarrow>
          (case child s of
             None \<Rightarrow> None
           | Some c \<Rightarrow>
             (case proc_step env c of None \<Rightarrow> None | Some (e, q) \<Rightarrow> Some (emit e (s\<lparr>child := Some q\<rparr>)))))"

fun os_exec :: "os_env \<Rightarrow> actor list \<Rightarrow> os \<Rightarrow> os option" where
  "os_exec env [] s = Some s"
| "os_exec env (w # ws) s = (case os_step env w s of None \<Rightarrow> None | Some s1 \<Rightarrow> os_exec env ws s1)"

definition os_start :: "stmt list \<Rightarrow> int \<Rightarrow> os" where
  "os_start prog p =
     \<lparr>parent = \<lparr>vars = \<lparr>getpid = p, pid = 0, pid1 = 0, val = - 1, ret = 0\<rparr>, code = prog, status = None\<rparr>, child = None, out = []\<rparr>"

text \<open>The states in which an execution of a program can come to rest: no process can do a step.\<close>

definition comes_to_rest :: "os_env \<Rightarrow> stmt list \<Rightarrow> int \<Rightarrow> os \<Rightarrow> bool" where
  "comes_to_rest env prog p s \<longleftrightarrow>
     (\<exists>ws. os_exec env ws (os_start prog p) = Some s) \<and> os_step env Parent s = None \<and> os_step env Child s = None"

section \<open>The heap of \<open>2-3.c\<close> and \<open>2-4.c\<close>\<close>

datatype heap_error = Double_free nat | Use_after_free nat

text \<open>The blocks that are allocated, with their contents.\<close>

type_synonym heap = "nat \<Rightarrow> int option"

definition heap_free :: "nat \<Rightarrow> heap \<Rightarrow> heap_error + heap" where
  "heap_free p h = (case h p of None \<Rightarrow> Inl (Double_free p) | Some v \<Rightarrow> Inr (h(p := None)))"

definition heap_read :: "nat \<Rightarrow> heap \<Rightarrow> heap_error + int" where
  "heap_read p h = (case h p of None \<Rightarrow> Inl (Use_after_free p) | Some v \<Rightarrow> Inr v)"

fun bind_sum :: "heap_error + 'a \<Rightarrow> ('a \<Rightarrow> heap_error + 'b) \<Rightarrow> heap_error + 'b" where
  "bind_sum (Inl e) f = Inl e"
| "bind_sum (Inr x) f = f x"

text \<open>What becomes of the process: it goes on, it ends with a status, or it runs another program.\<close>

datatype ending = Status int | Replaced

record thread_env =
  fork_ok :: bool
  exec_ok :: bool
  waitpid_ok :: bool

text \<open>What both workers do first: they read and free their argument and print two lines with the number they read.\<close>

definition worker_enter :: "nat \<Rightarrow> heap \<Rightarrow> heap_error + (int \<times> line list \<times> heap)" where
  "worker_enter arg h =
     bind_sum (heap_read arg h) (\<lambda>id. bind_sum (heap_free arg h) (\<lambda>h1.
       Inr (id, [(''thread create success'', id), (''thread PID TID'', id)], h1)))"

text \<open>The worker of \<open>2-3.c\<close> forks, lets the child execute the program and waits for it. The result is the value it ends with;
  the last line names thread 1 in the source.\<close>

definition worker_fork :: "thread_env \<Rightarrow> nat \<Rightarrow> heap \<Rightarrow> heap_error + (int \<times> line list \<times> heap)" where
  "worker_fork env arg h =
     bind_sum (worker_enter arg h) (\<lambda>(id, lines, h1).
       if \<not> fork_ok env then Inr (1, lines @ [(''thread fork failed'', id)], h1)
       else if \<not> waitpid_ok env then Inr (1, lines @ [(''thread waitpid failed'', id)], h1)
       else Inr (0, lines @ [(''thread system_call return'', 1)], h1))"

text \<open>The child of that worker: it becomes the program, or exits with \<open>EXIT_FAILURE\<close>.\<close>

definition worker_child :: "thread_env \<Rightarrow> ending" where
  "worker_child env = (if execve (exec_ok env) = Some (- 1) then Status 1 else Replaced)"

record threads_env =
  malloc1_ok :: bool
  malloc2_ok :: bool
  create1_ok :: bool
  create2_ok :: bool
  first_runs_first :: bool
  both_entered :: bool
  env1 :: thread_env
  env2 :: thread_env

definition malloc_ids :: "threads_env \<Rightarrow> heap" where
  "malloc_ids env = (\<lambda>p. None)(1 := if malloc1_ok env then Some 1 else None, 2 := if malloc2_ok env then Some 2 else None)"

text \<open>Both workers run between their creation and the joins; they touch different blocks, so only the order in which
  they run is left.\<close>

definition run_workers :: "threads_env \<Rightarrow> heap \<Rightarrow> heap_error + heap" where
  "run_workers env h =
     (if first_runs_first env
      then bind_sum (worker_fork (env1 env) 1 h) (\<lambda>(r, l, h1). bind_sum (worker_fork (env2 env) 2 h1) (\<lambda>(r, l, h2). Inr h2))
      else bind_sum (worker_fork (env2 env) 2 h) (\<lambda>(r, l, h1). bind_sum (worker_fork (env1 env) 1 h1) (\<lambda>(r, l, h2). Inr h2)))"

definition free_ids :: "heap \<Rightarrow> heap_error + heap" where
  "free_ids h = bind_sum (heap_free 1 h) (heap_free 2)"

definition fork_threads_main :: "threads_env \<Rightarrow> heap_error + (int \<times> heap)" where
  "fork_threads_main env =
     (let h = malloc_ids env in
      if \<not> (malloc1_ok env \<and> malloc2_ok env) then Inr (1, h)
      else if \<not> create1_ok env then bind_sum (free_ids h) (\<lambda>h1. Inr (1, h1))
      else if \<not> create2_ok env then
        bind_sum (worker_fork (env1 env) 1 h) (\<lambda>(r, l, h1). bind_sum (free_ids h1) (\<lambda>h2. Inr (1, h2)))
      else bind_sum (run_workers env h) (\<lambda>h1. bind_sum (free_ids h1) (\<lambda>h2. Inr (0, h2))))"

text \<open>The worker of \<open>2-4.c\<close> ends the whole process: \<open>execve\<close> replaces it, and \<open>_exit\<close> ends it when \<open>execve\<close> fails. So no
  join returns; the worker that comes to \<open>execve\<close> first is the last one, and the other may have read and freed its argument by then.\<close>

definition worker_exec :: "thread_env \<Rightarrow> nat \<Rightarrow> heap \<Rightarrow> heap_error + (ending \<times> line list \<times> heap)" where
  "worker_exec env arg h =
     bind_sum (worker_enter arg h) (\<lambda>(id, lines, h1).
       if execve (exec_ok env) = Some (- 1) then Inr (Status 1, lines @ [(''thread execve failed'', id)], h1)
       else Inr (Replaced, lines, h1))"

definition exec_threads_main :: "threads_env \<Rightarrow> heap_error + (ending \<times> heap)" where
  "exec_threads_main env =
     (let h = malloc_ids env in
      if \<not> (malloc1_ok env \<and> malloc2_ok env) then Inr (Status 1, h)
      else if \<not> create1_ok env then bind_sum (free_ids h) (\<lambda>h1. Inr (Status 1, h1))
      else if \<not> create2_ok env then bind_sum (worker_exec (env1 env) 1 h) (\<lambda>(e, l, h1). Inr (e, h1))
      else
        let (me, other, my_env) = (if first_runs_first env then (1, 2, env1 env) else (2, 1, env2 env))
        in bind_sum (if both_entered env then worker_enter other h else Inr (0, [], h)) (\<lambda>(id, l, h1).
             bind_sum (worker_exec my_env me h1) (\<lambda>(e, l, h2). Inr (e, h2))))"

section \<open>Properties\<close>

subsection \<open>Both processes against each of them alone\<close>

text \<open>What a process does from a point of its program on when it is looked at alone: its events, and the status it ends with.
  A second \<open>fork\<close> or the end of the statements without a \<open>return\<close> is no end.\<close>

primrec stmt_cost :: "stmt \<Rightarrow> nat" where
  "stmt_cost Fork = 1"
| "stmt_cost (IfElse b xs ys) = 1 + sum_list (map stmt_cost xs) + sum_list (map stmt_cost ys)"
| "stmt_cost (Assign f) = 1"
| "stmt_cost (Print l e) = 1"
| "stmt_cost Wait = 1"
| "stmt_cost Execve = 3"
| "stmt_cost (Return n) = 1"

definition cost :: "stmt list \<Rightarrow> nat" where
  "cost c = sum_list (map stmt_cost c)"

lemma cost_simps [simp]: "cost [] = 0" "cost (x # c) = stmt_cost x + cost c" "cost (c @ d) = cost c + cost d"
  "cost system_call_main = 2"
  by (simp_all add: cost_def system_call_main_def)

lemma stmt_cost_If: "stmt_cost (IfElse b xs ys) = 1 + cost xs + cost ys"
  by (simp add: cost_def)

function alone :: "os_env \<Rightarrow> stmt list \<Rightarrow> vars \<Rightarrow> event list \<times> int option" where
  "alone env [] v = ([], None)"
| "alone env (Fork # c) v = ([], None)"
| "alone env (IfElse b xs ys # c) v = alone env ((if b v then xs else ys) @ c) v"
| "alone env (Assign f # c) v = alone env c (f v)"
| "alone env (Print l e # c) v = apfst (Cons (Printed (l, e v))) (alone env c v)"
| "alone env (Wait # c) v = apfst (Cons Waited) (alone env c v)"
| "alone env (Execve # c) v =
     (case execve (exec_works env) of None \<Rightarrow> alone env system_call_main v | Some r \<Rightarrow> alone env c (v\<lparr>ret := r\<rparr>))"
| "alone env (Return n # c) v = ([], Some n)"
  by pat_completeness auto
termination by (relation "measure (\<lambda>(env, c, v). cost c)") (auto simp: stmt_cost_If simp del: stmt_cost.simps(2))

definition proc_alone :: "os_env \<Rightarrow> proc \<Rightarrow> event list \<times> int option" where
  "proc_alone env q = (case status q of Some n \<Rightarrow> ([], Some n) | None \<Rightarrow> alone env (code q) (vars q))"

lemma proc_step_alone:
  "proc_step env q = Some (e, q') \<Longrightarrow>
   proc_alone env q = (case e of None \<Rightarrow> proc_alone env q' | Some x \<Rightarrow> apfst (Cons x) (proc_alone env q'))"
  by (auto simp: proc_step_def proc_alone_def split: list.splits stmt.splits option.splits if_splits)

lemma proc_step_cost: "proc_step env q = Some (e, q') \<Longrightarrow> cost (code q') < cost (code q)"
  by (auto simp: proc_step_def stmt_cost_If simp del: stmt_cost.simps(2) split: list.splits stmt.splits option.splits if_splits)

lemma proc_step_running: "proc_step env q = Some r \<Longrightarrow> status q = None"
  by (simp add: proc_step_def split: if_splits)

lemma proc_stuck: "proc_step env q = None \<Longrightarrow> snd (proc_alone env q) \<noteq> None \<Longrightarrow> status q \<noteq> None"
  by (auto simp: proc_step_def proc_alone_def split: list.splits stmt.splits option.splits if_splits)

text \<open>The lines among the events, and the outputs of two processes with these events: the lines of the child in any
  order with those of the parent before its \<open>wait\<close>, then the rest of the parent's.\<close>

fun lines :: "event list \<Rightarrow> line list" where
  "lines [] = []"
| "lines (Printed l # es) = l # lines es"
| "lines (Waited # es) = lines es"

lemma lines_append [simp]: "lines (es @ fs) = lines es @ lines fs"
  by (induction es rule: lines.induct) auto

definition outputs :: "event list \<Rightarrow> event list \<Rightarrow> line list set" where
  "outputs ps cs =
     (\<lambda>ls. ls @ lines (dropWhile (\<lambda>e. e \<noteq> Waited) ps)) ` shuffles (lines (takeWhile (\<lambda>e. e \<noteq> Waited) ps)) (lines cs)"

lemma shuffles_snoc: "zs \<in> shuffles xs ys \<Longrightarrow> zs @ [z] \<in> shuffles (xs @ [z]) ys"
proof (induction xs ys arbitrary: zs rule: shuffles.induct)
  case (1 ys)
  have "ys @ [z] \<in> shuffles [z] ys" by (induction ys) (auto simp: Cons_in_shuffles_rightI)
  with 1 show ?case by simp
qed auto

lemma shuffles_snoc2: "zs \<in> shuffles xs ys \<Longrightarrow> zs @ [z] \<in> shuffles xs (ys @ [z])"
  using shuffles_snoc [of zs ys xs z] by (simp add: shuffles_commutes)

lemma outputs_no_wait:
  assumes "Waited \<notin> set ps"
  shows "outputs ps cs = shuffles (lines ps) (lines cs)"
    and "outputs (ps @ Waited # qs) cs = (\<lambda>ls. ls @ lines qs) ` shuffles (lines ps) (lines cs)"
proof -
  have "takeWhile (\<lambda>e. e \<noteq> Waited) ps = ps \<and> dropWhile (\<lambda>e. e \<noteq> Waited) ps = [] \<and>
    takeWhile (\<lambda>e. e \<noteq> Waited) (ps @ Waited # qs) = ps \<and> dropWhile (\<lambda>e. e \<noteq> Waited) (ps @ Waited # qs) = Waited # qs"
    using assms by (induction ps) auto
  then have t: "takeWhile (\<lambda>e. e \<noteq> Waited) ps = ps" "dropWhile (\<lambda>e. e \<noteq> Waited) ps = []"
    "takeWhile (\<lambda>e. e \<noteq> Waited) (ps @ Waited # qs) = ps" "dropWhile (\<lambda>e. e \<noteq> Waited) (ps @ Waited # qs) = Waited # qs"
    by blast+
  show "outputs ps cs = shuffles (lines ps) (lines cs)"
    and "outputs (ps @ Waited # qs) cs = (\<lambda>ls. ls @ lines qs) ` shuffles (lines ps) (lines cs)"
    unfolding outputs_def t by simp_all
qed

lemma outputs_parent:
  assumes "ls \<in> outputs ps cs"
  shows "ls @ [l] \<in> outputs (ps @ [Printed l]) cs"
proof (cases "Waited \<in> set ps")
  case True
  then obtain p1 p2 where p: "ps = p1 @ Waited # p2" "Waited \<notin> set p1" by (meson split_list_first)
  with assms outputs_no_wait(2) [OF p(2), of p2 cs] outputs_no_wait(2) [OF p(2), of "p2 @ [Printed l]" cs]
  show ?thesis by auto
next
  case False
  then have "Waited \<notin> set (ps @ [Printed l])" by simp
  with assms False shuffles_snoc [of ls "lines ps" "lines cs" l] show ?thesis
    by (simp add: outputs_no_wait(1) del: set_append)
qed

lemma outputs_wait: "outputs (ps @ [Waited]) cs = outputs ps cs"
proof (cases "Waited \<in> set ps")
  case False
  then show ?thesis using outputs_no_wait(2) [OF False, of "[]" cs] by (simp add: outputs_no_wait(1))
qed (auto simp: outputs_def)

lemma outputs_child:
  "Waited \<notin> set ps \<Longrightarrow> ls \<in> outputs ps cs \<Longrightarrow> ls @ [l] \<in> outputs ps (cs @ [Printed l])"
  using shuffles_snoc2 [of ls "lines ps" "lines cs" l] by (simp add: outputs_no_wait(1))

text \<open>After the \<open>fork\<close>: \<open>P\<close> and \<open>C\<close> are what parent and child do alone, and every state is some way into both.\<close>

definition fork_inv :: "os_env \<Rightarrow> event list \<times> int option \<Rightarrow> event list \<times> int option \<Rightarrow> os \<Rightarrow> bool" where
  "fork_inv env P C s \<longleftrightarrow>
     (\<exists>ps cs q. child s = Some q \<and>
        P = apfst ((@) ps) (proc_alone env (parent s)) \<and> C = apfst ((@) cs) (proc_alone env q) \<and>
        out s \<in> outputs ps cs \<and> (Waited \<in> set ps \<longrightarrow> status q \<noteq> None))"

definition events_of :: "event option \<Rightarrow> event list" where
  "events_of e = (case e of None \<Rightarrow> [] | Some x \<Rightarrow> [x])"

lemma proc_step_events:
  "proc_step env q = Some (e, q') \<Longrightarrow> apfst ((@) hs) (proc_alone env q) = apfst ((@) (hs @ events_of e)) (proc_alone env q')"
  using proc_step_alone [of env q e q'] by (cases e) (simp_all add: events_of_def apfst_def map_prod_def split_beta)

lemma emit_simps [simp]: "parent (emit e s) = parent s" "child (emit e s) = child s"
  "out (emit e s) = out s @ lines (events_of e)"
  by (auto simp: emit_def events_of_def split: option.splits event.splits)

lemma outputs_step: "ls \<in> outputs ps cs \<Longrightarrow> ls @ lines (events_of e) \<in> outputs (ps @ events_of e) cs"
  by (cases e; cases "the e") (auto simp: events_of_def outputs_parent outputs_wait)

lemma outputs_step2:
  "Waited \<notin> set ps \<Longrightarrow> ls \<in> outputs ps cs \<Longrightarrow> ls @ lines (events_of e) \<in> outputs ps (cs @ events_of e)"
  by (cases e; cases "the e") (auto simp: events_of_def outputs_child, simp add: outputs_def)

lemma os_step_ParentE:
  assumes "os_step env Parent s = Some s'" and "child s \<noteq> None"
  obtains e q where "proc_step env (parent s) = Some (e, q)" and "e = Some Waited \<longrightarrow> child_ended s"
    and "s' = emit e (s\<lparr>parent := q\<rparr>)"
  using assms by (auto simp: os_step_def split: list.splits stmt.splits option.splits prod.splits if_splits)

lemma os_step_ChildE:
  assumes "os_step env Child s = Some s'"
  obtains c e q where "child s = Some c" and "proc_step env c = Some (e, q)" and "s' = emit e (s\<lparr>child := Some q\<rparr>)"
  using assms by (auto simp: os_step_def split: option.splits prod.splits)

lemma fork_inv_step:
  assumes inv: "fork_inv env P C s" and step: "os_step env w s = Some s'"
  shows "fork_inv env P C s'"
proof -
  from inv obtain ps cs q where q: "child s = Some q" and P: "P = apfst ((@) ps) (proc_alone env (parent s))"
    and C: "C = apfst ((@) cs) (proc_alone env q)" and o: "out s \<in> outputs ps cs" and w: "Waited \<in> set ps \<longrightarrow> status q \<noteq> None"
    by (auto simp: fork_inv_def)
  show ?thesis
  proof (cases w)
    case Parent
    with step q obtain e p where p: "proc_step env (parent s) = Some (e, p)" "e = Some Waited \<longrightarrow> child_ended s"
      and s': "s' = emit e (s\<lparr>parent := p\<rparr>)" by (auto elim: os_step_ParentE)
    have "Waited \<in> set (ps @ events_of e) \<longrightarrow> status q \<noteq> None"
      using w p(2) q by (auto simp: child_ended_def events_of_def split: option.splits)
    with P [unfolded proc_step_events [OF p(1)]] C outputs_step [OF o, of e] q s' show ?thesis
      unfolding fork_inv_def by (intro exI [of _ "ps @ events_of e"] exI [of _ cs] exI [of _ q]) simp
  next
    case Child
    with step q obtain e c where c: "proc_step env q = Some (e, c)" and s': "s' = emit e (s\<lparr>child := Some c\<rparr>)"
      by (auto elim: os_step_ChildE)
    have "Waited \<notin> set ps" using w proc_step_running [OF c] by simp
    with C [unfolded proc_step_events [OF c]] P outputs_step2 [OF _ o, of e] s' show ?thesis
      unfolding fork_inv_def by (intro exI [of _ ps] exI [of _ "cs @ events_of e"] exI [of _ c]) simp
  qed
qed

lemma fork_inv_exec: "fork_inv env P C s \<Longrightarrow> os_exec env ws s = Some s' \<Longrightarrow> fork_inv env P C s'"
  by (induction env ws s rule: os_exec.induct) (auto split: option.splits intro: fork_inv_step)

text \<open>The same for a parent whose \<open>fork\<close> has failed.\<close>

definition single_inv :: "os_env \<Rightarrow> event list \<times> int option \<Rightarrow> os \<Rightarrow> bool" where
  "single_inv env P s \<longleftrightarrow>
     child s = None \<and> (\<exists>ps. P = apfst ((@) ps) (proc_alone env (parent s)) \<and> out s = lines ps) \<and> snd P \<noteq> None"

lemma not_at_fork: "snd (proc_alone env q) \<noteq> None \<Longrightarrow> status q = None \<Longrightarrow> code q \<noteq> Fork # rest"
  by (auto simp: proc_alone_def)

lemma os_step_Parent:
  "snd (proc_alone env (parent s)) \<noteq> None \<Longrightarrow> status (parent s) = None \<Longrightarrow>
   os_step env Parent s = (case proc_step env (parent s) of None \<Rightarrow> None
     | Some (e, q) \<Rightarrow> if e = Some Waited \<and> \<not> child_ended s then None else Some (emit e (s\<lparr>parent := q\<rparr>)))"
  using not_at_fork [of env "parent s"] by (auto simp: os_step_def split: list.splits stmt.splits)

lemma os_step_ended: "status (parent s) \<noteq> None \<Longrightarrow> os_step env Parent s = None"
  by (auto simp: os_step_def proc_step_def split: list.splits stmt.splits)

lemma single_inv_step:
  assumes inv: "single_inv env P s" and step: "os_step env w s = Some s'"
  shows "single_inv env P s'"
proof -
  from inv obtain ps where c: "child s = None" and P: "P = apfst ((@) ps) (proc_alone env (parent s))" "snd P \<noteq> None"
    and o: "out s = lines ps" by (auto simp: single_inv_def)
  have w: "w = Parent" using step c by (cases w) (simp_all add: os_step_def)
  with step os_step_ended have run: "status (parent s) = None" by fastforce
  from os_step_Parent [OF _ run, of env] P step w obtain e p where p: "proc_step env (parent s) = Some (e, p)"
    and s': "s' = emit e (s\<lparr>parent := p\<rparr>)"
    by (auto split: option.splits if_splits)
  with P(1) [unfolded proc_step_events [OF p]] P(2) c o show ?thesis
    unfolding single_inv_def by (intro conjI exI [of _ "ps @ events_of e"]) simp_all
qed

lemma single_inv_exec: "single_inv env P s \<Longrightarrow> os_exec env ws s = Some s' \<Longrightarrow> single_inv env P s'"
  by (induction env ws s rule: os_exec.induct) (auto split: option.splits intro: single_inv_step)

text \<open>A state at rest: every process has ended, so no wait is left over, and its events are complete.\<close>

lemma proc_alone_ended: "status q = Some n \<Longrightarrow> proc_alone env q = ([], Some n)"
  by (simp add: proc_alone_def)

lemma fork_rest:
  assumes inv: "fork_inv env P C s" and n: "snd P \<noteq> None" "snd C \<noteq> None"
    and rest: "os_step env Parent s = None" "os_step env Child s = None"
  shows "status (parent s) = snd P \<and> map_option status (child s) = Some (snd C) \<and> out s \<in> outputs (fst P) (fst C)"
proof -
  from inv obtain ps cs q where q: "child s = Some q" and P: "P = apfst ((@) ps) (proc_alone env (parent s))"
    and C: "C = apfst ((@) cs) (proc_alone env q)" and o: "out s \<in> outputs ps cs" by (auto simp: fork_inv_def)
  have "proc_step env q = None" using rest(2) q by (auto simp: os_step_def split: option.splits)
  then obtain m where c: "status q = Some m" using proc_stuck [of env q] C n(2) by auto
  have "status (parent s) \<noteq> None"
  proof
    assume run: "status (parent s) = None"
    have "snd (proc_alone env (parent s)) \<noteq> None" using n(1) P by simp
    with os_step_Parent [OF this run] rest(1) c q proc_stuck [of env "parent s"] run show False
      by (auto simp: child_ended_def split: option.splits if_splits)
  qed
  then obtain k where "status (parent s) = Some k" by auto
  with P C c q o show ?thesis by (simp add: proc_alone_ended)
qed

lemma single_rest:
  assumes inv: "single_inv env P s" and rest: "os_step env Parent s = None"
  shows "status (parent s) = snd P \<and> child s = None \<and> out s = lines (fst P)"
proof -
  from inv obtain ps where c: "child s = None" and P: "P = apfst ((@) ps) (proc_alone env (parent s))" "snd P \<noteq> None"
    and o: "out s = lines ps" by (auto simp: single_inv_def)
  have "status (parent s) \<noteq> None"
  proof
    assume run: "status (parent s) = None"
    have "snd (proc_alone env (parent s)) \<noteq> None" using P by simp
    with os_step_Parent [OF this run] rest c proc_stuck [of env "parent s"] run show False
      by (auto simp: child_ended_def split: option.splits if_splits)
  qed
  then obtain k where "status (parent s) = Some k" by auto
  with P(1) c o show ?thesis by (simp add: proc_alone_ended)
qed

text \<open>The outcome of a program that starts with a \<open>fork\<close>.\<close>

definition start_vars :: "int \<Rightarrow> vars" where
  "start_vars p = \<lparr>getpid = p, pid = 0, pid1 = 0, val = - 1, ret = 0\<rparr>"

lemma os_start_exec:
  assumes "comes_to_rest env (Fork # body) p s"
  obtains ws where "os_exec env ws (do_fork env body (os_start (Fork # body) p)) = Some s"
    and "os_step env Parent s = None" and "os_step env Child s = None"
proof -
  from assms obtain ws where ws: "os_exec env ws (os_start (Fork # body) p) = Some s"
    and rest: "os_step env Parent s = None" "os_step env Child s = None" by (auto simp: comes_to_rest_def)
  have f: "os_step env Parent (os_start (Fork # body) p) = Some (do_fork env body (os_start (Fork # body) p))"
    "os_step env Child (os_start (Fork # body) p) = None" by (simp_all add: os_step_def os_start_def)
  show thesis
  proof (cases ws)
    case Nil
    with ws rest f show thesis by simp
  next
    case (Cons w ws')
    with ws f show thesis by (cases w) (auto intro: that [OF _ rest])
  qed
qed

lemma rest_forked:
  assumes r: "comes_to_rest env (Fork # body) p s" and c: "forked env = Some c"
    and P: "alone env body ((start_vars p)\<lparr>pid := c\<rparr>) = (ps, Some n)"
    and C: "alone env body ((start_vars p)\<lparr>pid := 0, getpid := c\<rparr>) = (cs, Some m)"
  shows "status (parent s) = Some n \<and> map_option status (child s) = Some (Some m) \<and> out s \<in> outputs ps cs"
proof -
  let ?s = "do_fork env body (os_start (Fork # body) p)"
  from r obtain ws where ws: "os_exec env ws ?s = Some s" and rest: "os_step env Parent s = None" "os_step env Child s = None"
    by (rule os_start_exec)
  have "fork_inv env (ps, Some n) (cs, Some m) ?s"
    unfolding fork_inv_def using c P C
    by (intro exI [of _ "[]"]) (simp add: do_fork_def os_start_def start_vars_def proc_alone_def outputs_def)
  from fork_rest [OF fork_inv_exec [OF this ws] _ _ rest] show ?thesis by simp
qed

lemma rest_unforked:
  assumes r: "comes_to_rest env (Fork # body) p s" and c: "forked env = None"
    and P: "alone env body ((start_vars p)\<lparr>pid := - 1\<rparr>) = (ps, Some n)"
  shows "status (parent s) = Some n \<and> child s = None \<and> out s = lines ps"
proof -
  let ?s = "do_fork env body (os_start (Fork # body) p)"
  from r obtain ws where ws: "os_exec env ws ?s = Some s" and rest: "os_step env Parent s = None"
    by (rule os_start_exec)
  have "single_inv env (ps, Some n) ?s"
    unfolding single_inv_def using c P
    by (intro conjI exI [of _ "[]"]) (simp_all add: do_fork_def os_start_def start_vars_def proc_alone_def)
  from single_rest [OF single_inv_exec [OF this ws] rest] show ?thesis by simp
qed

text \<open>No execution goes on for ever.\<close>

definition os_cost :: "os \<Rightarrow> nat" where
  "os_cost s = (case child s of None \<Rightarrow> 2 * cost (code (parent s)) + 1 | Some q \<Rightarrow> cost (code (parent s)) + cost (code q))"

lemma os_cost_step:
  assumes "os_step env w s = Some s'"
  shows "os_cost s' < os_cost s"
proof (cases w)
  case Child
  with assms show ?thesis by (auto elim!: os_step_ChildE simp: os_cost_def dest: proc_step_cost)
next
  case Parent
  show ?thesis
  proof (cases "\<exists>rest. code (parent s) = Fork # rest \<and> child s = None")
    case True
    with assms Parent show ?thesis
      by (auto simp: os_step_def do_fork_def os_cost_def Let_def split: if_splits option.splits)
  next
    case False
    with assms Parent obtain e q where "proc_step env (parent s) = Some (e, q)" "s' = emit e (s\<lparr>parent := q\<rparr>)"
      by (auto simp: os_step_def split: list.splits stmt.splits option.splits prod.splits if_splits)
    then show ?thesis using proc_step_cost [of env "parent s" e q] by (auto simp: os_cost_def split: option.splits)
  qed
qed

lemma os_exec_length: "os_exec env ws s = Some s' \<Longrightarrow> length ws + os_cost s' \<le> os_cost s"
proof (induction env ws s rule: os_exec.induct)
  case (2 env w ws s)
  then obtain s1 where "os_step env w s = Some s1" "os_exec env ws s1 = Some s'" by (auto split: option.splits)
  with 2 os_cost_step [of env w s s1] show ?case by fastforce
qed simp

lemmas fork_program_defs = pids_main_def value_main_def exec_main_def system_call_main_def

lemma program_outcomes:
  assumes "forked env = Some c" and "0 < c"
  shows "comes_to_rest env pids_main p s \<Longrightarrow>
      status (parent s) = Some 0 \<and> map_option status (child s) = Some (Some 0) \<and>
      out s \<in> shuffles [(''parent: pid'', c), (''parent: pid1'', p)] [(''child: pid'', 0), (''child: pid1'', c)]"
    and "comes_to_rest env (value_main addr) p s \<Longrightarrow>
      status (parent s) = Some 0 \<and> map_option status (child s) = Some (Some 0) \<and>
      (\<exists>ls \<in> shuffles [(''parent: value'', - 2), (''parent: *value'', addr)]
           [(''child: value'', 0), (''child: *value'', addr), (''child: before return value'', 5)].
         out s = ls @ [(''parent: before return value'', 3)])"
    and "comes_to_rest env exec_main p s \<Longrightarrow>
      status (parent s) = Some 0 \<and> map_option status (child s) = Some (Some 0) \<and>
      out s \<in> shuffles [(''child process PID'', c), (''parent process PID'', p)]
        ((''In child process PID'', c) # (if exec_works env then [(''system_call PID'', c)] else []))"
  using assms
  by (auto simp: fork_program_defs start_vars_def execve_def outputs_def dest!: rest_forked [OF _ assms(1)] split: if_splits)

text \<open>C38. The three programs that fork, in every order in which the two processes can run. Every execution ends, after fewer than 40
  steps, and with both processes ended. When \<open>fork\<close> succeeds, with child number \<open>c\<close> in a parent with number \<open>p\<close>: in \<open>1-1.c\<close> the parent
  prints \<open>c\<close> and \<open>p\<close> and the child 0 and \<open>c\<close>; in \<open>1-2.c\<close> the child counts its copy of the variable from -1 to 0 and 5 and
  the parent its own to -2 and 3, both print the same address, and the parent's last line comes after all others; in
  \<open>1-3.c\<close> the program the child executes has the child's number, and when \<open>execve\<close> fails no error is printed and the
  child returns 0 like one that succeeds. When \<open>fork\<close> fails each of them prints one line and returns 1.\<close>

theorem fork_programs:
  assumes "prog \<in> {pids_main, value_main addr, exec_main}" and "forked env = Some c \<longrightarrow> 0 < c"
  shows "(os_exec env ws (os_start prog p) = Some s0 \<longrightarrow> length ws < 40) \<and>
    (comes_to_rest env prog p s \<longrightarrow>
      (forked env = None \<longrightarrow> out s = [(''Fork Failed'', 0)] \<and> status (parent s) = Some 1 \<and> child s = None) \<and>
      (forked env = Some c \<longrightarrow>
         status (parent s) = Some 0 \<and> map_option status (child s) = Some (Some 0) \<and>
         (prog = pids_main \<longrightarrow>
            out s \<in> shuffles [(''parent: pid'', c), (''parent: pid1'', p)] [(''child: pid'', 0), (''child: pid1'', c)]) \<and>
         (prog = value_main addr \<longrightarrow>
            (\<exists>ls \<in> shuffles [(''parent: value'', - 2), (''parent: *value'', addr)]
                 [(''child: value'', 0), (''child: *value'', addr), (''child: before return value'', 5)].
               out s = ls @ [(''parent: before return value'', 3)])) \<and>
         (prog = exec_main \<longrightarrow>
            out s \<in> shuffles [(''child process PID'', c), (''parent process PID'', p)]
              ((''In child process PID'', c) # (if exec_works env then [(''system_call PID'', c)] else [])))))"
proof -
  have "os_cost (os_start prog p) < 40" using assms(1)
    by (auto simp: os_cost_def os_start_def pids_main_def value_main_def exec_main_def)
  then have bound: "os_exec env ws (os_start prog p) = Some s0 \<longrightarrow> length ws < 40"
    using os_exec_length [of env ws "os_start prog p" s0] by auto
  have fail: "out s = [(''Fork Failed'', 0)] \<and> status (parent s) = Some 1 \<and> child s = None"
    if "comes_to_rest env prog p s" "forked env = None"
    using assms(1) that
    by (auto simp: pids_main_def value_main_def exec_main_def start_vars_def dest!: rest_unforked [OF _ that(2)])
  show ?thesis
    using bound fail program_outcomes [where env = env and c = c and p = p and s = s] assms by blast
qed

theorem fork_programs_witness:
  "\<exists>s. comes_to_rest \<lparr>forked = Some 7, exec_works = False\<rparr> (value_main 4096) 5 s \<and>
     (\<exists>ls \<in> shuffles [(''parent: value'', - 2), (''parent: *value'', 4096)]
         [(''child: value'', 0), (''child: *value'', 4096), (''child: before return value'', 5)].
       out s = ls @ [(''parent: before return value'', 3)])"
proof -
  let ?env = "\<lparr>forked = Some 7, exec_works = False\<rparr>" and ?ws = "[Parent, Parent, Parent, Parent, Parent, Parent,
    Child, Child, Child, Child, Child, Child, Child, Child, Child, Child, Parent, Parent, Parent, Parent, Parent, Parent]"
  define s where "s = \<lparr>parent = \<lparr>vars = \<lparr>getpid = 5, pid = 7, pid1 = 5, val = 3, ret = 0\<rparr>, code = [], status = Some 0\<rparr>,
     child = Some \<lparr>vars = \<lparr>getpid = 7, pid = 0, pid1 = 7, val = 5, ret = 0\<rparr>, code = [], status = Some 0\<rparr>,
     out = [(''parent: value'', - 2), (''child: value'', 0), (''child: *value'', 4096), (''child: before return value'', 5),
       (''parent: *value'', 4096), (''parent: before return value'', 3)]\<rparr>"
  have "os_exec ?env ?ws (os_start (value_main 4096) 5) = Some s" 
    by (simp add: os_start_def value_main_def os_step_def do_fork_def proc_step_def emit_def child_ended_def s_def)
  moreover have "os_step ?env Parent s = None" "os_step ?env Child s = None"
    by (simp_all add: s_def os_step_def proc_step_def)
  ultimately have "comes_to_rest ?env (value_main 4096) 5 s" unfolding comes_to_rest_def by blast
  with fork_programs [of "value_main 4096" 4096 ?env 7 _ 5 _ s] show ?thesis by auto
qed

text \<open>C39. Double free. In \<open>2-3.c\<close>, whenever the first thread is created, whatever the threads do and in whatever order they run, \<open>main\<close> frees a
  block that its thread has freed; when the thread cannot be created both blocks are freed once. In \<open>2-4.c\<close> the process is replaced or ends
  inside a thread, so no block is freed twice.\<close>

theorem thread_argument_freed_twice:
  assumes "malloc1_ok env" and "malloc2_ok env"
  shows "fork_threads_main env = (if create1_ok env then Inl (Double_free 1) else Inr (1, \<lambda>p. None)) \<and>
    (\<exists>e h. exec_threads_main env = Inr (e, h))"
  using assms
  by (auto simp: fork_threads_main_def exec_threads_main_def run_workers_def worker_fork_def worker_exec_def worker_enter_def free_ids_def heap_free_def
      heap_read_def malloc_ids_def Let_def split_beta)

theorem thread_argument_freed_twice_witness:
  "fork_threads_main \<lparr>malloc1_ok = True, malloc2_ok = True, create1_ok = True, create2_ok = True, first_runs_first = False, both_entered = True,
     env1 = \<lparr>fork_ok = True, exec_ok = True, waitpid_ok = True\<rparr>, env2 = \<lparr>fork_ok = False, exec_ok = True, waitpid_ok = True\<rparr>\<rparr> = Inl (Double_free 1)"
  using thread_argument_freed_twice [of "\<lparr>malloc1_ok = True, malloc2_ok = True, create1_ok = True, create2_ok = True, first_runs_first = False, both_entered = True,
     env1 = \<lparr>fork_ok = True, exec_ok = True, waitpid_ok = True\<rparr>, env2 = \<lparr>fork_ok = False, exec_ok = True, waitpid_ok = True\<rparr>\<rparr>"]
  by simp

text \<open>The second thread of \<open>2-3.c\<close> says that the first one's program has returned.\<close>

lemma second_thread_names_first:
  assumes "h p = Some 2" and "fork_ok env" and "waitpid_ok env"
  shows "\<exists>h1. worker_fork env p h = Inr (0, [(''thread create success'', 2), (''thread PID TID'', 2), (''thread system_call return'', 1)], h1)"
  using assms by (simp add: worker_fork_def worker_enter_def heap_read_def heap_free_def)

end
