(* ===== verification/Spec2Isabelle.thy ===== *)
theory Spec2Isabelle
  imports Mem_Props Paging_Props M2m_Conc Chat Globalvar_Conc Threads_Props Pipes Signals_Props Syscall Processes
begin

text \<open>
  Verification of the programs of an operating systems course: processes and threads (\<^verbatim>\<open>src/1lab\<close>), signals, pipes, a dynamic partition
  allocator and a page replacement simulator (\<^verbatim>\<open>src/2lab\<close>), two character devices with their user programs and a module that replaces a
  system call (\<^verbatim>\<open>src/3lab\<close>). Each program is a component; only the devices and their user programs, and the modules that replace and
  show the entry of a system call, work on the same state.

  \<^bold>\<open>Conventions.\<close> A C function is a HOL function of the same name on a record of the state it reads and writes. What the program does not
  decide (results of \<open>malloc\<close>, \<open>fork\<close>, user copies, registrations, pending signals, how many bytes a \<open>read\<close> returns, the values of \<open>rand()\<close>)
  is an argument or a field, so the branches on a failure are in the model, but for calls that cannot fail where they stand: \<open>signal\<close>, \<open>write\<close> and \<open>kill\<close> of
  the signal programs and \<open>lockf\<close> of the pipe program, as said in \<open>Signals\<close> and \<open>Pipes\<close>. A failure is a value: a sum with the status or error on the left, a
  negative error number as in the source, or \<open>None\<close> for a call that sleeps, faults or does not return. Concurrent programs are step functions,
  one step for what no other thread can interrupt, with a transition relation on top; a property of every interleaving is an invariant, proved per step and lifted
  by the locale \<open>step_invariant\<close>.

  \<^bold>\<open>Theories and sources.\<close>

  \<^item> \<open>OS_Prelude\<close>: shared lemmas, \<open>qsort\<close> and other library functions, the locales \<open>qsort_comparator\<close> (what \<open>qsort\<close> needs of a comparison; interpreted for
    \<open>cmpFF\<close>, \<open>cmpBF\<close>, \<open>cmpWF\<close>, \<open>cmp_alloc_by_addr\<close>) and \<open>step_invariant\<close>.
  \<^item> \<open>Mem_Blocks\<close>, \<open>Mem_Alloc\<close>, \<open>Mem_Menu\<close>, \<open>Mem_Props\<close>: \<^verbatim>\<open>src/2lab/3/3-1.c\<close>. The globals are \<open>mem_state\<close>, linked lists are lists of nodes. The free list and its
    orders; \<open>allocate_mem\<close>, \<open>free_mem\<close>, \<open>compact_memory\<close>; processes, settings, the menu. Shown: blocks stay disjoint and inside the memory after any sequence of
    commands in which every process asks for a positive size (\<open>positive_request\<close>; for a number that is not positive the source reads an uninitialised size, here the field \<open>fresh\<close> of the
    input, and \<open>new_process_uninitialised\<close> shows what can come of it), the three policies, what allocation, release and compaction do to the set of free addresses, when
    allocation returns, and under the same condition that the arithmetic stays in \<open>int\<close>. \<open>allocate_mem\<close> is a \<open>partial_function (option)\<close>, since the recursion of the source need
    not end; when it returns is a theorem of its own. \<open>None\<close> also stands for a dereferenced \<open>NULL\<close>; where a theorem means the recursion it says so with \<open>recursive_call\<close>.
  \<^item> \<open>Paging\<close>, \<open>Paging_Props\<close>: \<^verbatim>\<open>src/2lab/4/4.c\<close>. \<open>demand_paging\<close> states what FIFO and LRU share, \<open>page_refinement\<close> lifts the refinement of a step to a run; both are
    interpreted for both simulators. Shown, for every reference string: refinement of a queue of arrivals and of a list in order of last use, LRU monotone in the
    number of frames, bounds on faults and array accesses. Page -1, the mark of an empty frame, is part of it: the specifications say when it counts as found.
  \<^item> \<open>M2m_Dev\<close>, \<open>M2m_Sys\<close>, \<open>M2m_Inv\<close>, \<open>M2m_Live\<close>, \<open>M2m_Props\<close>, \<open>M2m_Conc\<close>: \<^verbatim>\<open>src/3lab/dev/glo_pro.c\<close>. \<open>M2m_Dev\<close> has the file operations as calls that run alone, \<open>M2m_Sys\<close> the same operations
    split at every point where another thread may run. Shown: mutual exclusion and the byte counter, the order of messages, no lost wake-up, no leak, over every
    interleaving of any number of threads up to \<open>2 ^ 51\<close> (so that \<open>2 ^ 51\<close> messages of 4096 bytes stay below \<open>2 ^ 64\<close>); agreement of the two models; refinement of an abstract
    message queue, with the locale \<open>message_queue\<close> for its users; loading and unloading.
  \<^item> \<open>Chat\<close>: \<^verbatim>\<open>src/3lab/dev/write.c\<close> and \<^verbatim>\<open>read.c\<close> on top of that device: typed lines arrive in order. A run of an endless loop is as many rounds as
    the list of environments it is given.
  \<^item> \<open>Globalvar\<close>, \<open>Globalvar_Props\<close>, \<open>Globalvar_Conc\<close>: \<^verbatim>\<open>src/3lab/dev/globalvar.c\<close>, a ring buffer; pointers are offsets. Calls that run alone, and the same calls as steps of
    threads, which share the definitions of the critical sections. Shown: when a call acts as on a stream of bytes and the states in which it does not; mutual exclusion, bounds and
    wake-ups over every interleaving; agreement of the two models; a race of two readers,
    against the same calls one after the other.
  \<^item> \<open>Threads\<close>, \<open>Threads_Props\<close>: \<^verbatim>\<open>src/1lab/2/2-1.c\<close>, \<^verbatim>\<open>2-2.c\<close> and \<^verbatim>\<open>src/1lab/3/3-1.c\<close>. The locale \<open>mutex_lock\<close> is the contract of a lock; it is interpreted for the
    semaphore and the spinlock. Shown: exact counts with a lock, the exact range of results without one.
  \<^item> \<open>Pipes\<close>: \<^verbatim>\<open>src/2lab/2\<close>; the loop that reads ends because each round takes a character or stops. Shown: what the parent prints, with and without \<open>lockf\<close>.
  \<^item> \<open>Signals\<close>, \<open>Signals_Props\<close>: \<^verbatim>\<open>src/2lab/1\<close>; three programs, one set of steps with the program as argument. Shown: with the reports through the pipe no signal comes too early and
    the parent can end from every state (a measure of the work left decreases along some step); the executions in which a signal is lost.
  \<^item> \<open>Syscall\<close>: \<^verbatim>\<open>src/3lab/modify_syscall\<close> and \<^verbatim>\<open>src/3lab/check\<close> on a machine with memory, unmapped and read-only pages and \<open>CR0\<close>. Shown: replacing and restoring an entry, and the fault when
    the address is not mapped.
  \<^item> \<open>Processes\<close>: \<^verbatim>\<open>src/1lab/1\<close>, \<^verbatim>\<open>src/1lab/2/2-3.c\<close> and \<^verbatim>\<open>2-4.c\<close>. The first three programs are statements of a small language with its own step function,
    and every process is compared with what it does alone. Shown: what is printed and returned in every order of parent and child, and that every execution ends, after fewer than 40 steps; a double free.

  \<^bold>\<open>Where the programs do not do what they mean to.\<close> Some theorems state what the code really does: an endless recursion and lost memory in the allocator, page -1, the exceeded limit and the two
  critical sections of the message queue, the full ring buffer and its second reader, lost signals, the race of the unlocked counter, the double free, the \<open>quit\<close> that never ends the reader.

  \<^bold>\<open>Not modelled.\<close> Texts of prompts and log messages, and percentages. The kernel and the C library, beyond the documented behaviour of the calls used. Weak memory: a load or store of a
  shared variable is one step and steps are interleaved. Time: a sleep only delays. \<open>stats_lock\<close> of the message queue, which is never used. \<^verbatim>\<open>src/3lab/hello_test/mymodules.c\<close> only logs, and \<^verbatim>\<open>modify_old_syscall.c\<close> only prints what the
  kernel's own system call returns.
\<close>

end
